(* ===== verification/Prelude.thy ===== *)
theory Prelude
  imports Main "HOL-Library.Sublist"
begin

text \<open>
  Shared vocabulary of the development.

  The C programs of the repository share a few things that the components below rely on:
  undefined behaviour and assertion failures as values, NUL-terminated strings in fixed-size
  buffers, pointer chains that loops follow to their end, and systems of threads or processors
  whose runs are interleavings of small steps. This theory gives each of them one definition and
  the lemmas every client uses. The collections declared first carry the unfolding facts that
  the component proofs hand to the simplifier.
\<close>

named_theorems c_defs \<open>definitions of straight-line C code, unfolded in step proofs\<close>
named_theorems inv_defs \<open>definitions of invariants\<close>

section \<open>Failures as values\<close>

text \<open>
  What a C run can do other than return: an access through a null or dangling pointer, an access
  outside an array, a signed overflow, a division by zero, a failed \<open>assert\<close>, an argument that
  does not have the type its conversion demands, the use of a variable that was never set, a call
  of \<open>exit\<close> with a status, a kernel \<open>panic\<close> with its message. A fallible operation returns \<open>c_fail + 'a\<close>.
\<close>

datatype c_fail =
    NullDeref
  | OutOfBounds
  | DanglingPtr
  | SignedOverflow
  | DivByZero
  | AssertFailed
  | BadArgument
  | Indeterminate
  | ExitCode int
  | Panic string

type_synonym 'a res = "c_fail + 'a"

definition rbind :: "'a res \<Rightarrow> ('a \<Rightarrow> 'b res) \<Rightarrow> 'b res" where
  "rbind r f = (case r of Inl e \<Rightarrow> Inl e | Inr x \<Rightarrow> f x)"

lemma rbind_simps [simp]:
  "rbind (Inl e) f = Inl e"
  "rbind (Inr x) f = f x"
  by (simp_all add: rbind_def)

lemma rbind_eq_Inr_iff [simp]:
  "rbind r f = Inr y \<longleftrightarrow> (\<exists>x. r = Inr x \<and> f x = Inr y)"
  by (cases r) simp_all

lemma rbind_cong [fundef_cong]:
  "r = r' \<Longrightarrow> (\<And>x. r' = Inr x \<Longrightarrow> f x = g x) \<Longrightarrow> rbind r f = rbind r' g"
  by (cases r') simp_all

definition c_assert :: "bool \<Rightarrow> unit res" where
  "c_assert b = (if b then Inr () else Inl AssertFailed)"

lemma c_assert_simps [simp]:
  "c_assert True = Inr ()"
  "c_assert False = Inl AssertFailed"
  "c_assert b = Inr u \<longleftrightarrow> b"
  by (simp_all add: c_assert_def)

section \<open>NUL-terminated strings in buffers\<close>

text \<open>
  A \<open>char\<close> array is a list of characters of fixed length; the string it holds is what stands
  before the first NUL. \<open>strcat\<close> and \<open>strcpy\<close> write the terminator too and fail when it
  does not fit, which is the out-of-bounds store of the C code.
\<close>

abbreviation NUL :: char where
  "NUL \<equiv> CHR 0x00"

definition cstr :: "string \<Rightarrow> string" where
  "cstr b = takeWhile (\<lambda>c. c \<noteq> NUL) b"

definition strlen :: "string \<Rightarrow> nat" where
  "strlen b = length (cstr b)"

definition streq :: "string \<Rightarrow> string \<Rightarrow> bool" where
  "streq a b = (cstr a = cstr b)"

definition strcpy :: "string \<Rightarrow> string \<Rightarrow> string res" where
  "strcpy dst src =
     (if strlen src < length dst
      then Inr (cstr src @ NUL # drop (Suc (strlen src)) dst) else Inl OutOfBounds)"

definition strcat :: "string \<Rightarrow> string \<Rightarrow> string res" where
  "strcat dst src =
     (if strlen dst + strlen src < length dst
      then Inr (cstr dst @ cstr src @ NUL # drop (Suc (strlen dst + strlen src)) dst)
      else Inl OutOfBounds)"

lemma cstr_no_NUL: "NUL \<notin> set (cstr b)"
  unfolding cstr_def using set_takeWhileD by fastforce

lemma cstr_append_NUL [simp]: "NUL \<notin> set s \<Longrightarrow> cstr (s @ NUL # r) = s"
  by (auto simp: cstr_def takeWhile_tail)

lemma cstr_id [simp]: "NUL \<notin> set s \<Longrightarrow> cstr s = s"
  by (auto simp: cstr_def)

lemma strlen_le: "strlen b \<le> length b"
  by (simp add: strlen_def cstr_def length_takeWhile_le)

lemma cstr_take: "cstr b = take (strlen b) b"
  unfolding strlen_def cstr_def by (rule takeWhile_eq_take)

lemma cstr_strcpy: "strcpy dst src = Inr d \<Longrightarrow> cstr d = cstr src \<and> length d = length dst"
  by (auto simp: strcpy_def strlen_def cstr_no_NUL split: if_splits)

lemma cstr_strcat:
  "strcat dst src = Inr d \<Longrightarrow> cstr d = cstr dst @ cstr src \<and> length d = length dst"
proof -
  assume a: "strcat dst src = Inr d"
  have "cstr ((cstr dst @ cstr src) @ NUL # r) = cstr dst @ cstr src" for r
    by (rule cstr_append_NUL) (simp add: cstr_no_NUL)
  with a show ?thesis
    by (auto simp: strcat_def strlen_def split: if_splits)
qed

lemma strcat_total:
  "strlen dst + strlen src < length dst \<Longrightarrow> \<exists>d. strcat dst src = Inr d"
  by (simp add: strcat_def)

text \<open>What \<open>printf\<close> writes for \<open>%d\<close> and \<open>%ld\<close>.\<close>

fun dec_nat :: "nat \<Rightarrow> string" where
  "dec_nat n = (if n < 10 then [char_of (48 + n)] else dec_nat (n div 10) @ [char_of (48 + n mod 10)])"

declare dec_nat.simps [simp del]

definition fmt_ld :: "int \<Rightarrow> string" where
  "fmt_ld i = (if i < 0 then CHR ''-'' # dec_nat (nat (- i)) else dec_nat (nat i))"

section \<open>Pointer chains\<close>

text \<open>
  A loop \<open>while (p->f != NULL) p = p->f;\<close> follows a pointer field to its last node. The
  field is a function \<open>f\<close> from addresses to an optional address; \<open>chain f p xs\<close> says that
  following \<open>f\<close> from \<open>p\<close> visits exactly \<open>xs\<close> and ends in the null pointer. \<open>chase\<close>
  is the loop: it returns \<open>None\<close> when the field is cyclic and the C loop never ends.
\<close>

primrec chain :: "('a \<Rightarrow> 'a option) \<Rightarrow> 'a option \<Rightarrow> 'a list \<Rightarrow> bool" where
  "chain f p [] \<longleftrightarrow> p = None"
| "chain f p (x # xs) \<longleftrightarrow> p = Some x \<and> chain f (f x) xs"

partial_function (option) chase :: "('a \<Rightarrow> 'a option) \<Rightarrow> 'a \<Rightarrow> 'a option" where
  "chase f x = (case f x of None \<Rightarrow> Some x | Some y \<Rightarrow> chase f y)"

lemma chain_None [simp]: "chain f None xs \<longleftrightarrow> xs = []"
  by (cases xs) simp_all

lemma chain_Some: "chain f (Some x) ys \<longleftrightarrow> (\<exists>xs. ys = x # xs \<and> chain f (f x) xs)"
  by (cases ys) auto

lemma chain_functional: "chain f p xs \<Longrightarrow> chain f p ys \<Longrightarrow> xs = ys"
  by (induction xs arbitrary: p ys) (auto simp: chain_Some)

lemma chain_suffix: "chain f p (xs @ x # ys) \<Longrightarrow> chain f (f x) ys"
  by (induction xs arbitrary: p) auto

lemma chain_distinct: "chain f p xs \<Longrightarrow> distinct xs"
proof (induction xs arbitrary: p)
  case Nil
  then show ?case by simp
next
  case (Cons x xs)
  then have c: "chain f (f x) xs" by simp
  have "x \<notin> set xs"
  proof
    assume "x \<in> set xs"
    then obtain as bs where xs: "xs = as @ x # bs" by (meson split_list)
    with c have "chain f (f x) bs" by (simp add: chain_suffix)
    with c have "bs = xs" by (rule chain_functional[symmetric])
    with xs show False by simp
  qed
  with Cons.IH[OF c] show ?case by simp
qed

lemma chain_upd_other [simp]: "a \<notin> set xs \<Longrightarrow> chain (f(a := q)) p xs \<longleftrightarrow> chain f p xs"
  by (induction xs arbitrary: p) auto

lemma chain_cong: "(\<And>x. x \<in> set xs \<Longrightarrow> f x = g x) \<Longrightarrow> chain f p xs \<longleftrightarrow> chain g p xs"
  by (induction xs arbitrary: p) auto

lemma chase_chain: "chain f (Some x) (ys @ [z]) \<Longrightarrow> chase f x = Some z"
proof (induction ys arbitrary: x)
  case Nil
  then show ?case by (auto simp: chase.simps)
next
  case (Cons y ys)
  then obtain x' where "f x = Some x'" and "chain f (Some x') (ys @ [z])"
    by (cases ys) auto
  with Cons.IH show ?case by (simp add: chase.simps[of f x])
qed

lemma chain_link:
  assumes "chain f p (ys @ [z])" and "f a = None" and "a \<notin> set (ys @ [z])"
  shows "chain (f(z := Some a)) p (ys @ [z, a])"
  using assms
proof (induction ys arbitrary: p)
  case Nil
  then show ?case by auto
next
  case (Cons y ys)
  from chain_distinct[OF Cons.prems(1)] have "y \<noteq> z" by auto
  with Cons show ?case by auto
qed

lemma chain_unlink:
  assumes "chain f p (ys @ [z, d] @ rest)"
  shows "chain (f(z := f d)) p (ys @ [z] @ rest)"
  using assms
proof (induction ys arbitrary: p)
  case Nil
  then have "chain f (f d) rest" and "p = Some z" and "z \<notin> set rest"
    using chain_distinct[OF Nil.prems] by auto
  moreover from this have "chain (f(z := f d)) (f d) rest" by simp
  ultimately show ?case by (simp add: fun_upd_def)
next
  case (Cons y ys)
  from chain_distinct[OF Cons.prems(1)] have "y \<noteq> z" by auto
  with Cons show ?case by auto
qed

section \<open>Transition systems\<close>

text \<open>
  Threads, processors and interrupts interleave; a run is a sequence of small steps from an
  initial state. \<open>reachable\<close> is the set of states of all runs, and the locale below is the
  interface every safety proof uses: a predicate that holds initially and is kept by each step
  holds in every reachable state.
\<close>

inductive reachable :: "('s \<Rightarrow> bool) \<Rightarrow> ('s \<Rightarrow> 's \<Rightarrow> bool) \<Rightarrow> 's \<Rightarrow> bool"
  for I :: "'s \<Rightarrow> bool" and R :: "'s \<Rightarrow> 's \<Rightarrow> bool" where
  reach_init: "I s \<Longrightarrow> reachable I R s"
| reach_step: "reachable I R s \<Longrightarrow> R s t \<Longrightarrow> reachable I R t"

locale inductive_invariant =
  fixes I :: "'s \<Rightarrow> bool" and R :: "'s \<Rightarrow> 's \<Rightarrow> bool" and inv :: "'s \<Rightarrow> bool"
  assumes inv_init: "I s \<Longrightarrow> inv s"
    and inv_step: "inv s \<Longrightarrow> R s t \<Longrightarrow> inv t"
begin

lemma reachable_inv: "reachable I R s \<Longrightarrow> inv s"
  by (induction rule: reachable.induct) (auto intro: inv_init inv_step)

end

lemma reachable_rtrancl:
  "reachable I R s \<Longrightarrow> R\<^sup>*\<^sup>* s t \<Longrightarrow> reachable I R t"
  by (rotate_tac, induction rule: rtranclp_induct) (auto intro: reach_step)

end
