(* ===== verification/Monitor.thy ===== *)
theory Monitor
  imports Prelude
begin

text \<open>
  Threads around one mutex and its condition variables.

  \<open>multi-threads/fish.c\<close> and \<open>multi-threads/brac.c\<close> have the same shape: every thread runs
  \<open>while (1) { before(role); putchar(role); after(role); }\<close>, where \<open>before\<close> locks the mutex,
  waits on a condition variable while a test of the shared state fails, reserves the \<open>quota\<close>
  and unlocks, and \<open>after\<close> locks, updates the shared state, broadcasts and unlocks. This theory
  holds what the two programs share: the steps of one thread over the POSIX primitives, the
  interleaving of \<open>n\<close> threads (spurious wake-ups included), and the interface under which
  exclusion, the relation of output and shared state, and progress are proved once.
\<close>

section \<open>Threads, mutex and condition variables\<close>

text \<open>
  \<open>attempt\<close> is what the test of \<open>before\<close> leads to: wait on a condition variable, leave the
  loop with a new shared state, or fail an assertion. The program points of a thread follow the
  calls of the C code; between two of them other threads may run.
\<close>

datatype ('sh, 'cv) attempt = Wait 'cv | Enter 'sh | Abort

datatype 'cv pc =
    AtBefore
  | TestBefore
  | Waiting 'cv
  | Woken
  | LeaveBefore
  | AtPut
  | AtAfter
  | InAfter
  | LeaveAfter
  | Failed

record ('sh, 'cv) msys =
  shared :: 'sh
  mutex :: "nat option"
  pcs :: "nat \<Rightarrow> 'cv pc"
  out :: string

type_synonym ('sh, 'cv) before_fn = "char \<Rightarrow> 'sh \<Rightarrow> ('sh, 'cv) attempt"
type_synonym ('sh, 'cv) after_fn = "char \<Rightarrow> 'sh \<Rightarrow> ('sh \<times> 'cv list) res"

definition set_pc :: "nat \<Rightarrow> 'cv pc \<Rightarrow> ('sh, 'cv) msys \<Rightarrow> ('sh, 'cv) msys" where
  "set_pc i p s = s\<lparr>pcs := (pcs s)(i := p)\<rparr>"

definition cond_broadcast :: "'cv list \<Rightarrow> ('sh, 'cv) msys \<Rightarrow> ('sh, 'cv) msys" where
  "cond_broadcast cvs s =
     s\<lparr>pcs := (\<lambda>j. case pcs s j of
        Waiting cv \<Rightarrow> if cv \<in> set cvs then Woken else Waiting cv
      | p \<Rightarrow> p)\<rparr>"

definition thread_step ::
  "('sh, 'cv) before_fn \<Rightarrow> ('sh, 'cv) after_fn \<Rightarrow> (nat \<Rightarrow> char) \<Rightarrow> nat \<Rightarrow>
   ('sh, 'cv) msys \<Rightarrow> ('sh, 'cv) msys option" where
  "thread_step bef aft role i s =
     (case pcs s i of
        AtBefore \<Rightarrow>
          if mutex s = None then Some (set_pc i TestBefore (s\<lparr>mutex := Some i\<rparr>)) else None
      | TestBefore \<Rightarrow>
          Some (case bef (role i) (shared s) of
             Wait cv \<Rightarrow> set_pc i (Waiting cv) (s\<lparr>mutex := None\<rparr>)
           | Enter sh \<Rightarrow> set_pc i LeaveBefore (s\<lparr>shared := sh\<rparr>)
           | Abort \<Rightarrow> set_pc i Failed s)
      | Waiting cv \<Rightarrow> None
      | Woken \<Rightarrow>
          if mutex s = None then Some (set_pc i TestBefore (s\<lparr>mutex := Some i\<rparr>)) else None
      | LeaveBefore \<Rightarrow> Some (set_pc i AtPut (s\<lparr>mutex := None\<rparr>))
      | AtPut \<Rightarrow> Some (set_pc i AtAfter (s\<lparr>out := out s @ [role i]\<rparr>))
      | AtAfter \<Rightarrow>
          if mutex s = None then Some (set_pc i InAfter (s\<lparr>mutex := Some i\<rparr>)) else None
      | InAfter \<Rightarrow>
          Some (case aft (role i) (shared s) of
             Inl e \<Rightarrow> set_pc i Failed s
           | Inr (sh, cvs) \<Rightarrow> set_pc i LeaveAfter (cond_broadcast cvs (s\<lparr>shared := sh\<rparr>)))
      | LeaveAfter \<Rightarrow> Some (set_pc i AtBefore (s\<lparr>mutex := None\<rparr>))
      | Failed \<Rightarrow> None)"

inductive mstep ::
  "('sh, 'cv) before_fn \<Rightarrow> ('sh, 'cv) after_fn \<Rightarrow> (nat \<Rightarrow> char) \<Rightarrow> nat \<Rightarrow>
   ('sh, 'cv) msys \<Rightarrow> ('sh, 'cv) msys \<Rightarrow> bool"
  for bef aft role n where
  run_thread: "i < n \<Longrightarrow> thread_step bef aft role i s = Some t \<Longrightarrow> mstep bef aft role n s t"
| spurious_wake: "i < n \<Longrightarrow> pcs s i = Waiting cv \<Longrightarrow> mstep bef aft role n s (set_pc i Woken s)"


definition msys_init :: "'sh \<Rightarrow> ('sh, 'cv) msys \<Rightarrow> bool" where
  "msys_init sh s \<longleftrightarrow> shared s = sh \<and> mutex s = None \<and> pcs s = (\<lambda>_. AtBefore) \<and> out s = []"

definition msys_start :: "'sh \<Rightarrow> ('sh, 'cv) msys" where
  "msys_start sh = \<lparr>shared = sh, mutex = None, pcs = (\<lambda>_. AtBefore), out = []\<rparr>"

text \<open>A schedule names the thread of each step; running one gives a reachable state.\<close>

fun run_sched ::
  "('sh, 'cv) before_fn \<Rightarrow> ('sh, 'cv) after_fn \<Rightarrow> (nat \<Rightarrow> char) \<Rightarrow> nat list \<Rightarrow>
   ('sh, 'cv) msys \<Rightarrow> ('sh, 'cv) msys option" where
  "run_sched bef aft role [] s = Some s"
| "run_sched bef aft role (i # is) s =
     (case thread_step bef aft role i s of None \<Rightarrow> None | Some t \<Rightarrow> run_sched bef aft role is t)"

lemma msys_init_start [simp]: "msys_init sh (msys_start sh)"
  by (simp add: msys_init_def msys_start_def)

lemma msys_start_reachable: "reachable (msys_init sh) R (msys_start sh)"
  by (rule reach_init) simp

lemma run_sched_reachable:
  assumes "reachable I (mstep bef aft role n) s" and "run_sched bef aft role is s = Some t"
    and "\<forall>i \<in> set is. i < n"
  shows "reachable I (mstep bef aft role n) t"
  using assms
proof (induction "is" arbitrary: s)
  case Nil
  then show ?case by simp
next
  case (Cons i "is")
  from Cons.prems(2) obtain u where u: "thread_step bef aft role i s = Some u"
    and r: "run_sched bef aft role is u = Some t"
    by (auto split: option.splits)
  from Cons.prems(1,3) u have "reachable I (mstep bef aft role n) u"
    by (auto intro: reach_step run_thread)
  with r Cons.prems(3) show ?case by (auto intro: Cons.IH)
qed

section \<open>The interface of a before/after pair\<close>

definition in_flight :: "'cv pc \<Rightarrow> bool" where
  "in_flight p \<longleftrightarrow> p \<in> {LeaveBefore, AtPut, AtAfter, InAfter}"

definition holds_mutex :: "'cv pc \<Rightarrow> bool" where
  "holds_mutex p \<longleftrightarrow> p \<in> {TestBefore, LeaveBefore, InAfter, LeaveAfter, Failed}"

definition mutex_ok :: "nat \<Rightarrow> ('sh, 'cv) msys \<Rightarrow> bool" where
  "mutex_ok n s \<longleftrightarrow> (\<forall>i < n. holds_mutex (pcs s i) \<longleftrightarrow> mutex s = Some i) \<and>
     (\<forall>m. mutex s = Some m \<longrightarrow> m < n)"

lemma pc_class_simps [simp]:
  "\<not> in_flight AtBefore" "\<not> in_flight TestBefore" "\<not> in_flight (Waiting cv)" "\<not> in_flight Woken"
  "in_flight LeaveBefore" "in_flight AtPut" "in_flight AtAfter" "in_flight InAfter"
  "\<not> in_flight LeaveAfter" "\<not> in_flight Failed"
  "\<not> holds_mutex AtBefore" "holds_mutex TestBefore" "\<not> holds_mutex (Waiting cv)"
  "\<not> holds_mutex Woken" "holds_mutex LeaveBefore" "\<not> holds_mutex AtPut"
  "\<not> holds_mutex AtAfter" "holds_mutex InAfter" "holds_mutex LeaveAfter" "holds_mutex Failed"
  by (simp_all add: in_flight_def holds_mutex_def)

lemma set_pc_simps [simp]:
  "shared (set_pc i p s) = shared s" "mutex (set_pc i p s) = mutex s" "out (set_pc i p s) = out s"
  "pcs (set_pc i p s) j = (if j = i then p else pcs s j)"
  by (simp_all add: set_pc_def)

lemma cond_broadcast_simps [simp]:
  "shared (cond_broadcast cvs s) = shared s" "mutex (cond_broadcast cvs s) = mutex s"
  "out (cond_broadcast cvs s) = out s"
  "in_flight (pcs (cond_broadcast cvs s) j) = in_flight (pcs s j)"
  "holds_mutex (pcs (cond_broadcast cvs s) j) = holds_mutex (pcs s j)"
  "pcs (cond_broadcast cvs s) j = Failed \<longleftrightarrow> pcs s j = Failed"
  by (auto simp: cond_broadcast_def split: pc.splits)

lemma cond_broadcast_Nil [simp]: "cond_broadcast [] s = s"
proof -
  have "pcs (cond_broadcast [] s) = pcs s"
    by (rule ext) (simp add: cond_broadcast_def split: pc.split)
  then show ?thesis by (simp add: cond_broadcast_def)
qed

lemma thread_stepE:
  assumes "thread_step bef aft role k s = Some t"
  obtains
    (lock) p where "pcs s k = p" "p = AtBefore \<or> p = Woken" "mutex s = None"
      "t = set_pc k TestBefore (s\<lparr>mutex := Some k\<rparr>)"
  | (wait) cv where "pcs s k = TestBefore" "bef (role k) (shared s) = Wait cv"
      "t = set_pc k (Waiting cv) (s\<lparr>mutex := None\<rparr>)"
  | (enter) sh where "pcs s k = TestBefore" "bef (role k) (shared s) = Enter sh"
      "t = set_pc k LeaveBefore (s\<lparr>shared := sh\<rparr>)"
  | (abort) "pcs s k = TestBefore" "bef (role k) (shared s) = Abort" "t = set_pc k Failed s"
  | (leave) "pcs s k = LeaveBefore" "t = set_pc k AtPut (s\<lparr>mutex := None\<rparr>)"
  | (put) "pcs s k = AtPut" "t = set_pc k AtAfter (s\<lparr>out := out s @ [role k]\<rparr>)"
  | (lock_after) "pcs s k = AtAfter" "mutex s = None" "t = set_pc k InAfter (s\<lparr>mutex := Some k\<rparr>)"
  | (after_fail) e where "pcs s k = InAfter" "aft (role k) (shared s) = Inl e" "t = set_pc k Failed s"
  | (after) sh cvs where "pcs s k = InAfter" "aft (role k) (shared s) = Inr (sh, cvs)"
      "t = set_pc k LeaveAfter (cond_broadcast cvs (s\<lparr>shared := sh\<rparr>))"
  | (finish) "pcs s k = LeaveAfter" "t = set_pc k AtBefore (s\<lparr>mutex := None\<rparr>)"
  using assms
  by (cases "pcs s k")
    (auto simp: thread_step_def split: attempt.splits sum.splits if_splits)

lemma mutex_okD: "mutex_ok n s \<Longrightarrow> i < n \<Longrightarrow> holds_mutex (pcs s i) \<longleftrightarrow> mutex s = Some i"
  by (simp add: mutex_ok_def)

lemma thread_step_mutex_ok:
  assumes ok: "mutex_ok n s" and k: "k < n" and st: "thread_step bef aft role k s = Some t"
  shows "mutex_ok n t"
  using st
  by (cases rule: thread_stepE)
    (use mutex_okD[OF ok k] ok k in \<open>auto simp: mutex_ok_def split: if_splits\<close>)

lemma thread_step_other_pc:
  assumes "thread_step bef aft role k s = Some t" and "j \<noteq> k"
  shows "in_flight (pcs t j) = in_flight (pcs s j)" "pcs t j = Failed \<longleftrightarrow> pcs s j = Failed"
  using assms by (auto simp: thread_step_def split: pc.splits attempt.splits sum.splits if_splits)

lemma spurious_mutex_ok: "mutex_ok n s \<Longrightarrow> pcs s i = Waiting cv \<Longrightarrow> mutex_ok n (set_pc i Woken s)"
  by (auto simp: mutex_ok_def)

text \<open>
  The laws a before/after pair promises. \<open>I w sh\<close> relates the characters printed so far to the
  shared state while no thread is between its \<open>before\<close> and its \<open>after\<close>. A thread whose role
  is not \<open>active\<close> passes through both without touching anything.
\<close>

locale monitor =
  fixes bef :: "('sh, 'cv) before_fn" and aft :: "('sh, 'cv) after_fn"
    and role :: "nat \<Rightarrow> char" and n :: nat and sh0 :: 'sh
    and active :: "char \<Rightarrow> bool" and I :: "string \<Rightarrow> 'sh \<Rightarrow> bool"
  assumes idle_init: "I [] sh0"
    and enter_after: "I w sh \<Longrightarrow> active c \<Longrightarrow> bef c sh = Enter sh' \<Longrightarrow>
        \<exists>sh'' cvs. aft c sh' = Inr (sh'', cvs) \<and> I (w @ [c]) sh''"
    and no_abort: "I w sh \<Longrightarrow> bef c sh \<noteq> Abort"
    and blocked: "I w sh \<Longrightarrow> active c \<Longrightarrow> bef c sh = Enter sh' \<Longrightarrow> active d \<Longrightarrow>
        \<exists>cv. bef d sh' = Wait cv"
    and inert: "\<not> active c \<Longrightarrow> bef c sh = Enter sh" "\<not> active c \<Longrightarrow> aft c sh = Inr (sh, [])"
begin

abbreviation vis :: "string \<Rightarrow> string" where
  "vis \<equiv> filter active"

definition quiet :: "('sh, 'cv) msys \<Rightarrow> bool" where
  "quiet s \<longleftrightarrow> I (vis (out s)) (shared s) \<and> (\<forall>j < n. active (role j) \<longrightarrow> \<not> in_flight (pcs s j))"

definition printing :: "nat \<Rightarrow> ('sh, 'cv) msys \<Rightarrow> bool" where
  "printing i s \<longleftrightarrow> pcs s i \<in> {LeaveBefore, AtPut} \<and>
     (\<exists>sh. I (vis (out s)) sh \<and> bef (role i) sh = Enter (shared s))"

definition printed :: "nat \<Rightarrow> ('sh, 'cv) msys \<Rightarrow> bool" where
  "printed i s \<longleftrightarrow> pcs s i \<in> {AtAfter, InAfter} \<and>
     (\<exists>w sh. vis (out s) = w @ [role i] \<and> I w sh \<and> bef (role i) sh = Enter (shared s))"

definition flying :: "nat \<Rightarrow> ('sh, 'cv) msys \<Rightarrow> bool" where
  "flying i s \<longleftrightarrow> active (role i) \<and> (printing i s \<or> printed i s) \<and>
     (\<forall>j < n. active (role j) \<longrightarrow> in_flight (pcs s j) \<longrightarrow> j = i)"

definition minv :: "('sh, 'cv) msys \<Rightarrow> bool" where
  "minv s \<longleftrightarrow> mutex_ok n s \<and> (\<forall>i < n. pcs s i \<noteq> Failed) \<and> (quiet s \<or> (\<exists>i < n. flying i s))"

lemma flying_pc: "flying i s \<Longrightarrow> active (role i) \<and> in_flight (pcs s i)"
  by (auto simp: flying_def printing_def printed_def)

lemma flying_enter:
  assumes "flying i s"
  obtains w sh where "I w sh" "bef (role i) sh = Enter (shared s)"
  using assms unfolding flying_def printing_def printed_def by blast

lemma flying_unique:
  "flying i s \<Longrightarrow> k < n \<Longrightarrow> active (role k) \<Longrightarrow> in_flight (pcs s k) \<Longrightarrow> k = i"
  by (simp add: flying_def)

lemma minv_init: "msys_init sh0 s \<Longrightarrow> minv s"
  by (auto simp: msys_init_def minv_def mutex_ok_def quiet_def idle_init)

lemma inactive_step:
  assumes "thread_step bef aft role k s = Some t" and "\<not> active (role k)" and "pcs s k \<noteq> Failed"
  shows "shared t = shared s" "vis (out t) = vis (out s)" "j \<noteq> k \<Longrightarrow> pcs t j = pcs s j"
    "pcs t k \<noteq> Failed"
  using assms by (auto simp: thread_step_def inert split: pc.splits if_splits)

lemma quiet_step:
  assumes m: "quiet s" and k: "k < n" "pcs s k \<noteq> Failed" "active (role k)"
    and st: "thread_step bef aft role k s = Some t"
  shows "pcs t k \<noteq> Failed \<and> (quiet t \<or> flying k t)"
proof -
  from m k have nf: "\<not> in_flight (pcs s k)" and I: "I (vis (out s)) (shared s)"
    by (auto simp: quiet_def)
  show ?thesis
  proof (cases "pcs s k")
    case TestBefore
    show ?thesis
    proof (cases "bef (role k) (shared s)")
      case (Enter sh)
      with TestBefore st have t: "t = set_pc k LeaveBefore (s\<lparr>shared := sh\<rparr>)"
        by (simp add: thread_step_def)
      have "flying k t"
        using m k I Enter by (auto simp: flying_def printing_def t quiet_def)
      then show ?thesis by (simp add: t)
    next
      case (Wait cv)
      with TestBefore st m show ?thesis
        by (auto simp: thread_step_def quiet_def split: if_splits)
    next
      case Abort
      with no_abort[OF I] show ?thesis by blast
    qed
  qed (use st m nf k in \<open>auto simp: thread_step_def quiet_def split: if_splits\<close>)
qed

lemma flying_other_step:
  assumes m: "flying i s" and k: "k < n" "k \<noteq> i" "pcs s k \<noteq> Failed" "active (role k)"
    and st: "thread_step bef aft role k s = Some t"
  shows "pcs t k \<noteq> Failed \<and> flying i t"
proof -
  from m k have nf: "\<not> in_flight (pcs s k)" and a: "active (role i)"
    by (auto simp: flying_def)
  from m obtain w sh where I: "I w sh" and e: "bef (role i) sh = Enter (shared s)"
    by (rule flying_enter)
  from blocked[OF I a e k(4)] obtain cv where cv: "bef (role k) (shared s) = Wait cv" by blast
  have "pcs t k \<noteq> Failed \<and> pcs t i = pcs s i \<and> shared t = shared s \<and> out t = out s \<and>
      (\<forall>j. in_flight (pcs t j) = in_flight (pcs s j))"
    using st nf k cv by (cases "pcs s k") (auto simp: thread_step_def split: if_splits)
  with m show ?thesis
    by (simp add: flying_def printing_def printed_def)
qed

lemma flying_self_step:
  assumes m: "flying i s" and i: "i < n" and st: "thread_step bef aft role i s = Some t"
  shows "pcs t i \<noteq> Failed \<and> (quiet t \<or> flying i t)"
proof (cases "pcs s i = InAfter")
  case True
  with m obtain w sh where I: "I w sh" and w: "vis (out s) = w @ [role i]" and a: "active (role i)"
    and e: "bef (role i) sh = Enter (shared s)"
    by (auto simp: flying_def printing_def printed_def)
  from enter_after[OF I a e] obtain sh'' cvs
    where af: "aft (role i) (shared s) = Inr (sh'', cvs)" and I': "I (w @ [role i]) sh''" by blast
  with True st have t: "t = set_pc i LeaveAfter (cond_broadcast cvs (s\<lparr>shared := sh''\<rparr>))"
    by (simp add: thread_step_def)
  from m have "\<forall>j < n. active (role j) \<longrightarrow> in_flight (pcs s j) \<longrightarrow> j = i" by (simp add: flying_def)
  then have "\<forall>j < n. active (role j) \<longrightarrow> \<not> in_flight (pcs t j)" by (auto simp: t)
  with I' w show ?thesis by (simp add: quiet_def t)
next
  case False
  from m have a: "active (role i)"
    and u: "\<forall>j < n. active (role j) \<longrightarrow> in_flight (pcs s j) \<longrightarrow> j = i"
    and ph: "printing i s \<or> printed i s"
    by (simp_all add: flying_def)
  from u st have u': "\<forall>j < n. active (role j) \<longrightarrow> in_flight (pcs t j) \<longrightarrow> j = i"
    using thread_step_other_pc(1)[OF st] by metis
  from ph False consider "pcs s i = LeaveBefore" "printing i s" | "pcs s i = AtPut" "printing i s"
    | "pcs s i = AtAfter" "printed i s"
    by (auto simp: printing_def printed_def)
  then have "(printing i t \<or> printed i t) \<and> pcs t i \<noteq> Failed"
  proof cases
    case 1
    with st have "t = set_pc i AtPut (s\<lparr>mutex := None\<rparr>)" by (simp add: thread_step_def)
    with 1 show ?thesis by (simp add: printing_def)
  next
    case 2
    with st have "t = set_pc i AtAfter (s\<lparr>out := out s @ [role i]\<rparr>)" by (simp add: thread_step_def)
    with 2 a show ?thesis by (auto simp: printing_def printed_def)
  next
    case 3
    with st have "t = set_pc i InAfter (s\<lparr>mutex := Some i\<rparr>)"
      by (simp add: thread_step_def split: if_splits)
    with 3 show ?thesis by (simp add: printed_def)
  qed
  with a u' show ?thesis by (simp add: flying_def)
qed

lemma minv_step:
  assumes m: "minv s" and st: "mstep bef aft role n s t"
  shows "minv t"
  using st
proof (cases rule: mstep.cases)
  case (run_thread k)
  note nf = m[unfolded minv_def, THEN conjunct2, THEN conjunct1]
  have mo: "mutex_ok n t"
    using m run_thread thread_step_mutex_ok by (auto simp: minv_def)
  have others: "\<forall>j < n. j \<noteq> k \<longrightarrow> pcs t j \<noteq> Failed"
    using nf thread_step_other_pc[OF run_thread(2)] by blast
  have "pcs t k \<noteq> Failed \<and> (quiet t \<or> (\<exists>i < n. flying i t))"
  proof (cases "active (role k)")
    case False
    note * = inactive_step[OF run_thread(2) False]
    have kf: "pcs s k \<noteq> Failed" using nf run_thread(1) by blast
    have same: "pcs t j = pcs s j" if "active (role j)" for j
      using that False *(3)[OF kf] by metis
    have "quiet s \<Longrightarrow> quiet t"
      by (simp add: quiet_def same *(1,2)[OF kf])
    moreover have "flying i s \<Longrightarrow> flying i t" for i
      by (simp add: flying_def printing_def printed_def same *(1,2)[OF kf] cong: conj_cong)
    ultimately show ?thesis using m *(4)[OF kf] by (auto simp: minv_def)
  next
    case True
    from m consider "quiet s" | i where "i < n" "flying i s" by (auto simp: minv_def)
    then show ?thesis
    proof cases
      case 1
      with quiet_step True run_thread nf show ?thesis by blast
    next
      case 2
      with flying_other_step[of i s k t] flying_self_step[of i s t] True run_thread nf
      show ?thesis by (cases "k = i") blast+
    qed
  qed
  with mo others show ?thesis by (auto simp: minv_def)
next
  case (spurious_wake k cv)
  then have fl: "in_flight (pcs t j) = in_flight (pcs s j)" for j by simp
  have "quiet s \<Longrightarrow> quiet t" by (simp add: quiet_def fl spurious_wake)
  moreover have "flying i t" if f: "flying i s" for i
  proof -
    from f have "in_flight (pcs s i)" by (auto simp: flying_def printing_def printed_def)
    with spurious_wake have "pcs t i = pcs s i" by auto
    with f show ?thesis by (simp add: flying_def printing_def printed_def fl spurious_wake)
  qed
  ultimately have "quiet t \<or> (\<exists>i < n. flying i t)" using m by (auto simp: minv_def)
  with m spurious_wake spurious_mutex_ok[of n s k cv] show ?thesis
    by (simp add: minv_def)
qed

sublocale inductive_invariant "msys_init sh0" "mstep bef aft role n" minv
  by unfold_locales (auto intro: minv_init minv_step)

lemma exclusion:
  assumes "reachable (msys_init sh0) (mstep bef aft role n) s"
    and "i < n" "active (role i)" "in_flight (pcs s i)"
    and "j < n" "active (role j)" "in_flight (pcs s j)"
  shows "i = j"
  using reachable_inv[OF assms(1)] assms(2-) by (auto simp: minv_def quiet_def flying_def)

lemma never_failed:
  "reachable (msys_init sh0) (mstep bef aft role n) s \<Longrightarrow> i < n \<Longrightarrow> pcs s i \<noteq> Failed"
  using reachable_inv by (auto simp: minv_def)

lemma output_related:
  assumes "reachable (msys_init sh0) (mstep bef aft role n) s"
  shows "\<exists>sh. I (vis (out s)) sh"
proof -
  from reachable_inv[OF assms] consider "quiet s" | i where "flying i s" by (auto simp: minv_def)
  then show ?thesis
  proof cases
    case 1
    then show ?thesis by (auto simp: quiet_def)
  next
    case 2
    then show ?thesis
      using enter_after by (fastforce simp: flying_def printing_def printed_def)
  qed
qed

end

text \<open>
  Progress needs two more laws: a role waits on one condition variable only, and whenever an
  \<open>after\<close> ends, some thread whose test now succeeds is woken by its broadcast. Then no
  wake-up is lost: in every reachable state some thread can run.
\<close>

locale monitor_live = monitor +
  fixes wait_cv :: "char \<Rightarrow> 'b"
  assumes wait_on: "bef c sh = Wait cv \<Longrightarrow> cv = wait_cv c"
    and live_init: "\<exists>i < n. active (role i) \<and> (\<exists>x. bef (role i) sh0 = Enter x)"
    and live_after: "I w sh \<Longrightarrow> active c \<Longrightarrow> bef c sh = Enter sh' \<Longrightarrow> aft c sh' = Inr (sh'', cvs) \<Longrightarrow>
        \<exists>i < n. active (role i) \<and> (\<exists>x. bef (role i) sh'' = Enter x) \<and> wait_cv (role i) \<in> set cvs"
begin

definition ready :: "nat \<Rightarrow> ('a, 'b) msys \<Rightarrow> bool" where
  "ready i s \<longleftrightarrow> active (role i) \<and> (\<exists>x. bef (role i) (shared s) = Enter x) \<and>
     (\<forall>cv. pcs s i \<noteq> Waiting cv)"

definition waits_ok :: "('a, 'b) msys \<Rightarrow> bool" where
  "waits_ok s \<longleftrightarrow> (\<forall>j < n. \<forall>cv. pcs s j = Waiting cv \<longrightarrow> cv = wait_cv (role j))"

definition linv :: "('a, 'b) msys \<Rightarrow> bool" where
  "linv s \<longleftrightarrow> minv s \<and> waits_ok s \<and> (quiet s \<longrightarrow> (\<exists>i < n. ready i s))"

lemma waits_ok_step:
  assumes "waits_ok s" and "k < n" and "thread_step bef aft role k s = Some t"
  shows "waits_ok t"
  using assms(3)
  by (cases rule: thread_stepE)
    (use assms(1,2) in \<open>auto simp: waits_ok_def cond_broadcast_def wait_on
       split: if_splits pc.splits\<close>)

lemma ready_after:
  assumes m: "minv s" and k: "k < n" "active (role k)" "pcs s k = InAfter"
    and w: "waits_ok s" and af: "aft (role k) (shared s) = Inr (sh, cvs)"
    and t: "t = set_pc k LeaveAfter (cond_broadcast cvs (s\<lparr>shared := sh\<rparr>))"
  shows "\<exists>i < n. ready i t"
proof -
  from m k have "\<not> quiet s" by (auto simp: quiet_def)
  with m obtain i where "flying i s" by (auto simp: minv_def)
  with flying_unique[of i s k] k have "flying k s" by simp
  then obtain v sh0 where "I v sh0" "bef (role k) sh0 = Enter (shared s)"
    by (rule flying_enter)
  from live_after[OF this(1) k(2) this(2) af] obtain i x where
    i: "i < n" "active (role i)" "bef (role i) sh = Enter x" "wait_cv (role i) \<in> set cvs" by blast
  with w have "pcs t i \<noteq> Waiting cv" for cv
    by (auto simp: t waits_ok_def cond_broadcast_def split: pc.splits)
  moreover have "shared t = sh" by (simp add: t)
  ultimately have "ready i t" using i by (simp add: ready_def)
  with i show ?thesis by blast
qed

lemma quiet_back:
  assumes "quiet t" and "thread_step bef aft role k s = Some t" and "k < n" and "active (role k)"
    and "shared t = shared s" and "out t = out s" and "\<not> in_flight (pcs s k)"
  shows "quiet s"
  using assms thread_step_other_pc(1)[OF assms(2)] by (metis quiet_def)

lemma linv_thread_step:
  assumes m: "linv s" and k: "k < n" and st: "thread_step bef aft role k s = Some t"
    and mt: "minv t" and q: "quiet t"
  shows "\<exists>i < n. ready i t"
proof (cases "active (role k)")
  case False
  from m k have kf: "pcs s k \<noteq> Failed" by (simp add: linv_def minv_def)
  note * = inactive_step[OF st False kf]
  have same: "pcs t j = pcs s j" if "active (role j)" for j
    using that False *(3) by metis
  from q have "quiet s" by (simp add: quiet_def same *(1,2))
  with m obtain i where "i < n" "ready i s" by (auto simp: linv_def)
  then have "ready i t" by (simp add: ready_def same *(1) cong: conj_cong)
  with \<open>i < n\<close> show ?thesis by blast
next
  case True
  have flight: False if "in_flight (pcs t k)"
    using q k True that by (simp add: quiet_def)
  have keep: "\<exists>i < n. ready i t" if "shared t = shared s" "out t = out s" "\<not> in_flight (pcs s k)"
    and others: "\<And>j. j \<noteq> k \<Longrightarrow> pcs t j = pcs s j"
    and self: "\<And>cv. pcs t k = Waiting cv \<Longrightarrow> \<exists>c. bef (role k) (shared s) = Wait c"
  proof -
    from quiet_back[OF q st k True that(1-3)] m obtain i where i: "i < n" "ready i s"
      by (auto simp: linv_def)
    then have "ready i t" using that(1) others self by (cases "i = k") (auto simp: ready_def)
    with i show ?thesis by blast
  qed
  show ?thesis
    using st
  proof (cases rule: thread_stepE)
    case (lock p)
    then show ?thesis by (intro keep) auto
  next
    case (wait cv)
    then show ?thesis by (intro keep) auto
  next
    case (abort)
    then show ?thesis using mt k by (auto simp: minv_def)
  next
    case (after_fail e)
    then show ?thesis using mt k by (auto simp: minv_def)
  next
    case (after sh cvs)
    then show ?thesis using ready_after[OF _ k True] m by (simp add: linv_def)
  next
    case (finish)
    then show ?thesis by (intro keep) auto
  qed (use flight in auto)
qed

lemma linv_init: "msys_init sh0 s \<Longrightarrow> linv s"
  using live_init by (auto simp: linv_def minv_init waits_ok_def ready_def msys_init_def)

lemma linv_step:
  assumes m: "linv s" and st: "mstep bef aft role n s t"
  shows "linv t"
proof -
  from m st have mt: "minv t" by (auto simp: linv_def intro: minv_step)
  from st show ?thesis
  proof (cases rule: mstep.cases)
    case (run_thread k)
    with m mt linv_thread_step[OF m run_thread mt] show ?thesis
      by (auto simp: linv_def intro: waits_ok_step)
  next
    case (spurious_wake k cv)
    then have "in_flight (pcs t j) = in_flight (pcs s j)" "shared t = shared s" "out t = out s" for j
      by simp_all
    then have "quiet t \<Longrightarrow> quiet s" by (simp add: quiet_def)
    moreover have "ready i s \<Longrightarrow> ready i t" for i
      by (auto simp: ready_def spurious_wake)
    moreover have "waits_ok t"
      using m spurious_wake by (auto simp: linv_def waits_ok_def split: if_splits)
    ultimately show ?thesis using m mt by (auto simp: linv_def)
  qed
qed

sublocale live: inductive_invariant "msys_init sh0" "mstep bef aft role n" linv
  by unfold_locales (auto intro: linv_init linv_step)

lemma progress:
  assumes "reachable (msys_init sh0) (mstep bef aft role n) s"
  shows "\<exists>i < n. (active (role i) \<or> mutex s = Some i) \<and> (\<exists>t. thread_step bef aft role i s = Some t)"
proof -
  from live.reachable_inv[OF assms] have l: "linv s" .
  show ?thesis
  proof (cases "mutex s")
    case (Some i)
    with l have "i < n" "holds_mutex (pcs s i)" "pcs s i \<noteq> Failed"
      by (auto simp: linv_def minv_def mutex_ok_def)
    then have "\<exists>t. thread_step bef aft role i s = Some t"
      by (auto simp: thread_step_def holds_mutex_def)
    with Some \<open>i < n\<close> show ?thesis by blast
  next
    case None
    obtain i where i: "i < n" "active (role i)" "\<forall>cv. pcs s i \<noteq> Waiting cv"
    proof -
      from l consider i where "i < n" "ready i s" | i where "i < n" "flying i s"
        by (auto simp: linv_def minv_def)
      then show ?thesis
      proof cases
        case 1
        then show ?thesis by (auto simp: ready_def intro: that)
      next
        case 2
        with flying_pc[OF 2(2)] show ?thesis by (intro that) auto
      qed
    qed
    with l None have "\<not> holds_mutex (pcs s i)" by (auto simp: linv_def minv_def mutex_ok_def)
    with None i have "\<exists>t. thread_step bef aft role i s = Some t"
      by (cases "pcs s i") (auto simp: thread_step_def)
    with i show ?thesis by blast
  qed
qed

end

end
