(* ===== verification/Threads.thy ===== *)
theory Threads
  imports Prelude
begin

text \<open>
  The thread runtime of \<open>multi-threads/threads.h\<close> and its variant \<open>os-midterm/threads.h\<close>.

  \<open>create\<close> pushes a \<open>malloc\<close>ed node on the list \<open>threads\<close>, numbers it and starts a thread
  that runs \<open>entry_all\<close>; the destructor \<open>join_all\<close> joins and frees every node and then calls
  the function registered by \<open>join\<close>. The state holds the nodes that are allocated, the head of
  the list, the registered function, and what the runtime has asked of the POSIX library so far.
  The address that \<open>malloc\<close> returns is an argument (\<open>None\<close> for a failed allocation); that a
  thread's entry function ends is the predicate \<open>ends\<close>, without which \<open>pthread_join\<close> does
  not return.
\<close>

record 'f thread =
  th_id :: int
  th_entry :: 'f
  th_next :: "nat option"

record ('f, 'j) runtime =
  nodes :: "nat \<rightharpoonup> 'f thread"
  threads :: "nat option"
  join_fn :: "'j option"
  started :: "nat list"
  joined :: "nat list"
  called :: "'j list"

definition runtime_init :: "('f, 'j) runtime" where
  "runtime_init = \<lparr>nodes = Map.empty, threads = None, join_fn = None, started = [], joined = [],
     called = []\<rparr>"

lemma runtime_init_simps [simp]:
  "nodes runtime_init = Map.empty" "threads runtime_init = None" "join_fn runtime_init = None"
  "started runtime_init = []" "joined runtime_init = []" "called runtime_init = []"
  by (simp_all add: runtime_init_def)

section \<open>Operations\<close>

text \<open>The identifier of a new thread: \<open>threads ? threads->id + 1 : first\<close>.\<close>

definition next_id :: "int \<Rightarrow> ('f, 'j) runtime \<Rightarrow> int res" where
  "next_id first s =
     (case threads s of
        None \<Rightarrow> Inr first
      | Some t \<Rightarrow>
          (case nodes s t of
             None \<Rightarrow> Inl DanglingPtr
           | Some nd \<Rightarrow> if th_id nd = 2 ^ 31 - 1 then Inl SignedOverflow else Inr (th_id nd + 1)))"

definition push_thread ::
  "int \<Rightarrow> nat option \<Rightarrow> 'f \<Rightarrow> ('f, 'j) runtime \<Rightarrow> ('f, 'j) runtime res" where
  "push_thread first cur fn s =
     (case cur of
        None \<Rightarrow> Inl AssertFailed
      | Some a \<Rightarrow>
          rbind (next_id first s) (\<lambda>i.
            Inr (s\<lparr>nodes := (nodes s)(a \<mapsto> \<lparr>th_id = i, th_entry = fn, th_next = threads s\<rparr>),
                   threads := Some a, started := started s @ [a]\<rparr>)))"

definition create :: "nat option \<Rightarrow> 'f \<Rightarrow> ('f, 'j) runtime \<Rightarrow> ('f, 'j) runtime res" where
  "create = push_thread 1"

definition create_midterm :: "nat option \<Rightarrow> 'f \<Rightarrow> ('f, 'j) runtime \<Rightarrow> ('f, 'j) runtime res" where
  "create_midterm = push_thread 0"

text \<open>What a started thread runs: \<open>thread->entry(thread->id)\<close>.\<close>

definition entry_all :: "nat \<Rightarrow> ('f, 'j) runtime \<Rightarrow> ('f \<times> int) res" where
  "entry_all a s =
     (case nodes s a of None \<Rightarrow> Inl DanglingPtr | Some nd \<Rightarrow> Inr (th_entry nd, th_id nd))"

definition join :: "'j option \<Rightarrow> ('f, 'j) runtime \<Rightarrow> ('f, 'j) runtime" where
  "join fn s = s\<lparr>join_fn := fn\<rparr>"

partial_function (option) join_loop ::
  "(nat \<Rightarrow> bool) \<Rightarrow> ('f, 'j) runtime \<Rightarrow> ('f, 'j) runtime res option" where
  "join_loop ends s =
     (case threads s of
        None \<Rightarrow> Some (Inr s)
      | Some t \<Rightarrow>
          (case nodes s t of
             None \<Rightarrow> Some (Inl DanglingPtr)
           | Some nd \<Rightarrow>
               if ends t
               then join_loop ends
                 (s\<lparr>joined := joined s @ [t], nodes := (nodes s)(t := None), threads := th_next nd\<rparr>)
               else None))"

definition join_all :: "(nat \<Rightarrow> bool) \<Rightarrow> ('f, 'j) runtime \<Rightarrow> ('f, 'j) runtime res option" where
  "join_all ends s =
     map_option (\<lambda>r. rbind r (\<lambda>s'.
       Inr (case join_fn s' of None \<Rightarrow> s' | Some f \<Rightarrow> s'\<lparr>called := called s' @ [f]\<rparr>)))
     (join_loop ends s)"

text \<open>The loop \<open>for (i = 0; i < n; i++) create(fn);\<close> of the programs, over the addresses the
  successive allocations return.\<close>

fun create_many ::
  "int \<Rightarrow> nat list \<Rightarrow> 'f \<Rightarrow> ('f, 'j) runtime \<Rightarrow> ('f, 'j) runtime res" where
  "create_many first [] fn s = Inr s"
| "create_many first (a # as) fn s =
     rbind (push_thread first (Some a) fn s) (create_many first as fn)"

section \<open>The thread list\<close>

text \<open>
  \<open>thread_list first s as\<close>: the list holds the nodes \<open>as\<close> (first created first), each
  allocated, linked to the previous one, and numbered consecutively from \<open>first\<close>.
\<close>

definition next_of :: "('f, 'j) runtime \<Rightarrow> nat \<Rightarrow> nat option" where
  "next_of s a = Option.bind (nodes s a) th_next"

definition thread_list :: "int \<Rightarrow> ('f, 'j) runtime \<Rightarrow> nat list \<Rightarrow> bool" where
  "thread_list first s as \<longleftrightarrow>
     chain (next_of s) (threads s) (rev as) \<and> dom (nodes s) = set as \<and>
     (\<forall>k < length as. \<exists>nd. nodes s (as ! k) = Some nd \<and> th_id nd = first + int k)"

lemma thread_list_distinct: "thread_list first s as \<Longrightarrow> distinct as"
  using chain_distinct by (fastforce simp: thread_list_def)

lemma thread_list_init: "thread_list first runtime_init []"
  by (simp add: thread_list_def runtime_init_def)

lemma thread_list_head:
  assumes "thread_list first s as"
  shows "threads s = (if as = [] then None else Some (last as))"
proof (cases as rule: rev_cases)
  case Nil
  with assms show ?thesis by (simp add: thread_list_def)
next
  case (snoc bs b)
  with assms show ?thesis by (simp add: thread_list_def)
qed

lemma next_id_thread_list:
  assumes tl: "thread_list first s as" and "first + int (length as) < 2 ^ 31"
  shows "next_id first s = Inr (first + int (length as))"
proof (cases as rule: rev_cases)
  case Nil
  with thread_list_head[OF tl] show ?thesis by (simp add: next_id_def)
next
  case (snoc bs b)
  from tl have "\<exists>nd. nodes s (as ! length bs) = Some nd \<and> th_id nd = first + int (length bs)"
    unfolding thread_list_def using snoc by (metis length_append_singleton lessI)
  with snoc thread_list_head[OF tl] assms(2) show ?thesis
    by (auto simp: next_id_def)
qed

lemma push_thread_list:
  assumes tl: "thread_list first s as" and fresh: "a \<notin> set as"
    and small: "first + int (length as) < 2 ^ 31"
  shows "\<exists>s'. push_thread first (Some a) fn s = Inr s' \<and> thread_list first s' (as @ [a]) \<and>
     started s' = started s @ [a] \<and> joined s' = joined s \<and> join_fn s' = join_fn s \<and>
     called s' = called s \<and> entry_all a s' = Inr (fn, first + int (length as)) \<and>
     (\<forall>b. b \<noteq> a \<longrightarrow> entry_all b s' = entry_all b s)"
proof -
  let ?nd = "\<lparr>th_id = first + int (length as), th_entry = fn, th_next = threads s\<rparr>"
  let ?s = "s\<lparr>nodes := (nodes s)(a \<mapsto> ?nd), threads := Some a, started := started s @ [a]\<rparr>"
  have p: "push_thread first (Some a) fn s = Inr ?s"
    by (simp add: push_thread_def next_id_thread_list[OF tl small])
  have same: "x \<in> set (rev as) \<Longrightarrow> next_of ?s x = next_of s x" for x
    using fresh by (auto simp: next_of_def)
  have "chain (next_of ?s) (threads s) (rev as)"
    using tl chain_cong[of "rev as", OF same] by (simp add: thread_list_def)
  then have "thread_list first ?s (as @ [a])"
    using tl fresh by (auto simp: thread_list_def next_of_def nth_append)
  with p show ?thesis by (auto simp: entry_all_def)
qed

lemma create_many_list:
  assumes "thread_list first s as" and "distinct (as @ bs)"
    and "first + int (length as + length bs) \<le> 2 ^ 31"
  shows "\<exists>s'. create_many first bs fn s = Inr s' \<and> thread_list first s' (as @ bs) \<and>
     started s' = started s @ bs \<and> joined s' = joined s \<and> join_fn s' = join_fn s \<and>
     called s' = called s \<and>
     (\<forall>k < length bs. entry_all (bs ! k) s' = Inr (fn, first + int (length as + k))) \<and>
     (\<forall>b. b \<notin> set bs \<longrightarrow> entry_all b s' = entry_all b s)"
  using assms
proof (induction bs arbitrary: s as)
  case Nil
  then show ?case by simp
next
  case (Cons b bs)
  from Cons.prems obtain u where u: "push_thread first (Some b) fn s = Inr u"
    "thread_list first u (as @ [b])" "started u = started s @ [b]" "joined u = joined s"
    "join_fn u = join_fn s" "called u = called s"
    "entry_all b u = Inr (fn, first + int (length as))"
    "\<forall>c. c \<noteq> b \<longrightarrow> entry_all c u = entry_all c s"
    using push_thread_list[of first s as b fn] by auto
  from Cons.IH[OF u(2)] Cons.prems obtain s' where s': "create_many first bs fn u = Inr s'"
    "thread_list first s' ((as @ [b]) @ bs)" "started s' = started u @ bs" "joined s' = joined u"
    "join_fn s' = join_fn u" "called s' = called u"
    "\<forall>k < length bs. entry_all (bs ! k) s' = Inr (fn, first + int (length (as @ [b]) + k))"
    "\<forall>c. c \<notin> set bs \<longrightarrow> entry_all c s' = entry_all c u"
    by auto
  have "entry_all ((b # bs) ! k) s' = Inr (fn, first + int (length as + k))"
    if "k < length (b # bs)" for k
    using that u s' Cons.prems(2) by (cases k) auto
  with u s' show ?case by auto
qed

lemma thread_list_snocE:
  assumes "thread_list first s (bs @ [b])"
  obtains nd where "threads s = Some b" "nodes s b = Some nd"
    "thread_list first (s\<lparr>joined := js, nodes := (nodes s)(b := None), threads := th_next nd\<rparr>) bs"
proof -
  from assms have ch: "chain (next_of s) (threads s) (b # rev bs)"
    and d: "dom (nodes s) = insert b (set bs)" and ids: "\<forall>k < Suc (length bs).
      \<exists>nd. nodes s ((bs @ [b]) ! k) = Some nd \<and> th_id nd = first + int k"
    by (simp_all add: thread_list_def)
  from ids obtain nd where nd: "nodes s b = Some nd" by force
  let ?s = "s\<lparr>joined := js, nodes := (nodes s)(b := None), threads := th_next nd\<rparr>"
  from thread_list_distinct[OF assms] have fresh: "b \<notin> set bs" by simp
  have same: "x \<in> set (rev bs) \<Longrightarrow> next_of ?s x = next_of s x" for x
    using fresh by (auto simp: next_of_def)
  have "chain (next_of ?s) (th_next nd) (rev bs)"
  proof (subst chain_cong[OF same])
    from ch nd show "chain (next_of s) (th_next nd) (rev bs)" by (simp add: next_of_def)
  qed
  moreover have "\<exists>m. nodes ?s (bs ! k) = Some m \<and> th_id m = first + int k" if "k < length bs" for k
    using ids[rule_format, of k] that fresh by (auto simp: nth_append)
  ultimately have "thread_list first ?s bs"
    using d fresh by (auto simp: thread_list_def)
  with ch nd show ?thesis by (auto intro: that)
qed

lemma join_loop_ends:
  assumes "thread_list first s as" and "\<forall>a \<in> set as. ends a"
  shows "join_loop ends s =
    Some (Inr (s\<lparr>joined := joined s @ rev as, nodes := Map.empty, threads := None\<rparr>))"
  using assms
proof (induction as arbitrary: s rule: rev_induct)
  case Nil
  then show ?case by (simp add: join_loop.simps thread_list_def)
next
  case (snoc b bs)
  from thread_list_snocE[OF snoc.prems(1), where js = "joined s @ [b]"] obtain nd where
    nd: "threads s = Some b" "nodes s b = Some nd" and
    tl: "thread_list first (s\<lparr>joined := joined s @ [b], nodes := (nodes s)(b := None),
      threads := th_next nd\<rparr>) bs" by blast
  from snoc.IH[OF tl] snoc.prems(2) nd show ?case
    by (subst join_loop.simps) simp
qed

lemma join_loop_blocks:
  assumes "thread_list first s as" and "\<not> (\<forall>a \<in> set as. ends a)"
  shows "join_loop ends s = None"
  using assms
proof (induction as arbitrary: s rule: rev_induct)
  case Nil
  then show ?case by simp
next
  case (snoc b bs)
  from thread_list_snocE[OF snoc.prems(1), where js = "joined s @ [b]"] obtain nd where
    nd: "threads s = Some b" "nodes s b = Some nd" and
    tl: "thread_list first (s\<lparr>joined := joined s @ [b], nodes := (nodes s)(b := None),
      threads := th_next nd\<rparr>) bs" by blast
  from snoc.IH[OF tl] snoc.prems(2) nd show ?case
    by (subst join_loop.simps) auto
qed

section \<open>Properties\<close>

text \<open>
  A program that creates \<open>n\<close> threads with \<open>create\<close> gets threads numbered from 1 (from 0
  with the variant of \<open>os-midterm\<close>): the \<open>k\<close>-th node allocated runs the entry function with
  the number \<open>first + k\<close>, and no node is freed or renumbered while the others are created.
\<close>

theorem create_numbers_threads:
  assumes "distinct as" and "first + int (length as) \<le> 2 ^ 31"
  shows "\<exists>s. create_many first as fn runtime_init = Inr s \<and> started s = as \<and>
    (\<forall>k < length as. entry_all (as ! k) s = Inr (fn, first + int k))"
  using create_many_list[OF thread_list_init, of as first fn] assms by auto

lemma create_numbers_threads_witness:
  "\<exists>s :: (char, unit) runtime. create_many 1 [10, 20, 30] CHR ''f'' runtime_init = Inr s \<and>
      started s = [10, 20, 30] \<and> entry_all 30 s = Inr (CHR ''f'', 3)"
proof -
  obtain s :: "(char, unit) runtime" where s: "create_many 1 [10, 20, 30] CHR ''f'' runtime_init = Inr s"
    "started s = [10, 20, 30]"
    "\<forall>k < length [10, 20, 30 :: nat]. entry_all ([10, 20, 30] ! k) s = Inr (CHR ''f'', 1 + int k)"
    using create_numbers_threads[of "[10, 20, 30 :: nat]" 1 "CHR ''f''"]
    by (simp del: create_many.simps) blast
  from s(3)[rule_format, of 2] have "entry_all 30 s = Inr (CHR ''f'', 3)" by simp
  with s show ?thesis by blast
qed

text \<open>
  At exit, \<open>join_all\<close> terminates as soon as every started thread ends: it joins each thread
  exactly once, last created first, frees every node, leaves the list empty and then calls the
  function registered by \<open>join\<close>. If one of the threads never ends, it does not return.
\<close>

theorem join_all_joins_each_thread:
  assumes "distinct as" and "first + int (length as) \<le> 2 ^ 31"
    and "create_many first as fn runtime_init = Inr s"
  shows "if \<forall>a \<in> set as. ends a
    then \<exists>s'. join_all ends (join g s) = Some (Inr s') \<and> joined s' = rev as \<and>
      nodes s' = Map.empty \<and> threads s' = None \<and>
      called s' = (case g of None \<Rightarrow> [] | Some f \<Rightarrow> [f])
    else join_all ends (join g s) = None"
proof -
  obtain s' :: "('a, 'b) runtime" where s': "create_many first as fn runtime_init = Inr s'"
    "thread_list first s' as" "joined s' = []" "called s' = []"
    using create_many_list[OF thread_list_init, of as first fn] assms(1,2) by auto
  with assms(3) have tl: "thread_list first s as" and s: "joined s = []" "called s = []" by simp_all
  from tl have tl': "thread_list first (join g s) as"
    by (simp add: thread_list_def join_def next_of_def[abs_def])
  show ?thesis
  proof (cases "\<forall>a \<in> set as. ends a")
    case True
    from join_loop_ends[OF tl' this] True s show ?thesis
      by (auto simp: join_all_def join_def split: option.splits)
  next
    case False
    from join_loop_blocks[OF tl' this] False show ?thesis by (auto simp: join_all_def)
  qed
qed

lemma join_all_joins_each_thread_witness:
  "\<exists>s s' :: (char, char) runtime. create_many 0 [7, 8] CHR ''f'' runtime_init = Inr s \<and>
     join_all (\<lambda>_. True) (join (Some CHR ''g'') s) = Some (Inr s') \<and>
     joined s' = [8, 7] \<and> called s' = ''g''"
proof -
  obtain s :: "(char, char) runtime" where s: "create_many 0 [7, 8] CHR ''f'' runtime_init = Inr s"
    by (simp add: push_thread_def next_id_def)
  show ?thesis
    using join_all_joins_each_thread[OF _ _ s, of "\<lambda>_. True" "Some CHR ''g''"] s by auto
qed

end
