(* ===== verification/Fish.thy ===== *)
theory Fish
  imports Monitor Threads
begin

text \<open>
  \<open>multi-threads/fish.c\<close>: threads with the roles \<open><\<close>, \<open>>\<close> and \<open>_\<close> that together print
  fish.

  The rule table is an automaton over the enumeration \<open>A .. F\<close> (1 to 6, with 0 for "no rule");
  \<open>fish_before\<close> waits until its character has a rule in the current state and the quota is
  free, \<open>fish_after\<close> moves the automaton and frees the quota. The program is an instance of the
  monitor of theory Monitor; the roles are those of the thread numbers that \<open>create\<close>
  hands out.
\<close>

section \<open>Definitions\<close>

type_synonym fish_state = nat

definition st_A :: fish_state where "st_A = 1"
definition st_B :: fish_state where "st_B = 2"
definition st_C :: fish_state where "st_C = 3"
definition st_D :: fish_state where "st_D = 4"
definition st_E :: fish_state where "st_E = 5"
definition st_F :: fish_state where "st_F = 6"

lemmas st_defs = st_A_def st_B_def st_C_def st_D_def st_E_def st_F_def

record rule =
  rule_from :: fish_state
  rule_ch :: char
  rule_to :: fish_state

definition rules :: "rule list" where
  "rules =
     [\<lparr>rule_from = st_A, rule_ch = CHR ''>'', rule_to = st_B\<rparr>,
      \<lparr>rule_from = st_B, rule_ch = CHR ''<'', rule_to = st_C\<rparr>,
      \<lparr>rule_from = st_C, rule_ch = CHR ''>'', rule_to = st_D\<rparr>,
      \<lparr>rule_from = st_D, rule_ch = CHR ''_'', rule_to = st_A\<rparr>,
      \<lparr>rule_from = st_A, rule_ch = CHR ''<'', rule_to = st_E\<rparr>,
      \<lparr>rule_from = st_E, rule_ch = CHR ''>'', rule_to = st_F\<rparr>,
      \<lparr>rule_from = st_F, rule_ch = CHR ''<'', rule_to = st_D\<rparr>]"

fun next_in :: "rule list \<Rightarrow> fish_state \<Rightarrow> char \<Rightarrow> fish_state" where
  "next_in [] cur ch = 0"
| "next_in (r # rs) cur ch =
     (if rule_from r = cur \<and> rule_ch r = ch then rule_to r else next_in rs cur ch)"

definition next_state :: "fish_state \<Rightarrow> char \<Rightarrow> fish_state" where
  "next_state = next_in rules"

record fish =
  current :: fish_state
  fish_quota :: int

definition fish_start :: fish where
  "fish_start = \<lparr>current = st_A, fish_quota = 1\<rparr>"

datatype fish_cv = FishCv

definition fish_before :: "char \<Rightarrow> fish \<Rightarrow> (fish, fish_cv) attempt" where
  "fish_before ch s =
     (if next_state (current s) ch = 0 \<or> fish_quota s = 0 then Wait FishCv
      else if \<not> (next_state (current s) ch \<noteq> 0 \<and> fish_quota s = 1) then Abort
      else Enter (s\<lparr>fish_quota := fish_quota s - 1\<rparr>))"

definition fish_after :: "char \<Rightarrow> fish \<Rightarrow> (fish \<times> fish_cv list) res" where
  "fish_after ch s =
     Inr (s\<lparr>current := next_state (current s) ch, fish_quota := fish_quota s + 1\<rparr>, [FishCv])"

definition fish_roles :: string where
  "fish_roles = ''<<<<<>>>>___''"

text \<open>\<open>roles[id]\<close>: the array holds the terminating NUL too.\<close>

definition role_at :: "string \<Rightarrow> int \<Rightarrow> char res" where
  "role_at rs i =
     (if 0 \<le> i \<and> nat i \<le> length rs then Inr ((rs @ [NUL]) ! nat i) else Inl OutOfBounds)"

text \<open>The \<open>k\<close>-th created thread has number \<open>k + 1\<close> and runs \<open>fish_thread\<close> with the role of
  that number.\<close>

definition fish_thread_role :: "nat \<Rightarrow> char" where
  "fish_thread_role k = (case role_at fish_roles (1 + int k) of Inl e \<Rightarrow> NUL | Inr c \<Rightarrow> c)"

abbreviation fish_reachable :: "(fish, fish_cv) msys \<Rightarrow> bool" where
  "fish_reachable \<equiv> reachable (msys_init fish_start)
     (mstep fish_before fish_after fish_thread_role (length fish_roles))"

section \<open>The automaton\<close>

lemma next_state_simps:
  "next_state st_A ch = (if ch = CHR ''>'' then st_B else if ch = CHR ''<'' then st_E else 0)"
  "next_state st_B ch = (if ch = CHR ''<'' then st_C else 0)"
  "next_state st_C ch = (if ch = CHR ''>'' then st_D else 0)"
  "next_state st_D ch = (if ch = CHR ''_'' then st_A else 0)"
  "next_state st_E ch = (if ch = CHR ''>'' then st_F else 0)"
  "next_state st_F ch = (if ch = CHR ''<'' then st_D else 0)"
  by (auto simp: next_state_def rules_def st_defs)

lemmas next_state_num [simp] = next_state_simps[unfolded st_defs One_nat_def]

text \<open>What the automaton stands for: complete lines \<open><><_\<close> and \<open>><>_\<close>, then the beginning of
  one. \<open>fish_pos w q\<close>: after the word \<open>w\<close> the automaton is in state \<open>q\<close>.\<close>

definition fish_line :: "string \<Rightarrow> bool" where
  "fish_line l \<longleftrightarrow> l = ''<><_'' \<or> l = ''><>_''"

definition fish_prefix :: "fish_state \<Rightarrow> string \<Rightarrow> bool" where
  "fish_prefix q r \<longleftrightarrow>
     (q = st_A \<and> r = []) \<or> (q = st_B \<and> r = ''>'') \<or> (q = st_C \<and> r = ''><'') \<or>
     (q = st_D \<and> (r = ''><>'' \<or> r = ''<><'')) \<or> (q = st_E \<and> r = ''<'') \<or> (q = st_F \<and> r = ''<>'')"

definition fish_pos :: "string \<Rightarrow> fish_state \<Rightarrow> bool" where
  "fish_pos w q \<longleftrightarrow> (\<exists>ls r. w = concat ls @ r \<and> (\<forall>l \<in> set ls. fish_line l) \<and> fish_prefix q r)"

lemma fish_prefix_step:
  assumes "fish_prefix q r" and "next_state q c \<noteq> 0"
  shows "fish_prefix (next_state q c) (r @ [c]) \<or> next_state q c = st_A \<and> fish_line (r @ [c])"
  using assms unfolding fish_prefix_def fish_line_def st_defs
  by (elim disjE conjE) (auto split: if_splits)

lemma fish_pos_step:
  assumes "fish_pos w q" and "next_state q c \<noteq> 0"
  shows "fish_pos (w @ [c]) (next_state q c)"
proof -
  from assms(1) obtain ls r where w: "w = concat ls @ r" "\<forall>l \<in> set ls. fish_line l" "fish_prefix q r"
    by (auto simp: fish_pos_def)
  from fish_prefix_step[OF w(3) assms(2)] show ?thesis
  proof
    assume "fish_prefix (next_state q c) (r @ [c])"
    with w show ?thesis by (auto simp: fish_pos_def)
  next
    assume *: "next_state q c = st_A \<and> fish_line (r @ [c])"
    show ?thesis
      unfolding fish_pos_def
      by (rule exI[of _ "ls @ [r @ [c]]"], rule exI[of _ "[]"])
        (use w * in \<open>auto simp: fish_prefix_def\<close>)
  qed
qed

lemma fish_prefix_state: "fish_prefix q r \<Longrightarrow> q \<in> {st_A, st_B, st_C, st_D, st_E, st_F}"
  by (auto simp: fish_prefix_def)

lemma fish_prefix_prefix: "fish_prefix q r \<Longrightarrow> prefix r ''<><_'' \<or> prefix r ''><>_''"
  unfolding fish_prefix_def by (elim disjE conjE) simp_all

lemma fish_posE:
  assumes "fish_pos w q"
  obtains c where "c \<in> set ''<>_''" "next_state q c \<noteq> 0"
proof -
  from assms have "q \<in> {st_A, st_B, st_C, st_D, st_E, st_F}"
    using fish_prefix_state by (auto simp: fish_pos_def)
  then have "\<exists>c \<in> set ''<>_''. next_state q c \<noteq> 0" by (auto simp: st_defs)
  with that show ?thesis by blast
qed

lemma fish_role_thread:
  assumes "c \<in> set ''<>_''"
  obtains i where "i < length fish_roles" "fish_thread_role i = c"
proof -
  have r: "fish_thread_role 0 = CHR ''<''" "fish_thread_role 4 = CHR ''>''"
    "fish_thread_role 8 = CHR ''_''" and l: "length fish_roles = 12"
    by (simp_all add: fish_thread_role_def role_at_def fish_roles_def)
  have "\<exists>i < length fish_roles. fish_thread_role i = c"
    using assms r l by (auto intro: exI[of _ 0] exI[of _ 4] exI[of _ 8])
  with that show ?thesis by blast
qed

section \<open>The program as a monitor\<close>

definition fish_rel :: "string \<Rightarrow> fish \<Rightarrow> bool" where
  "fish_rel w s \<longleftrightarrow> fish_pos w (current s) \<and> fish_quota s = 1"

lemma fish_before_Enter:
  "fish_before c s = Enter s' \<longleftrightarrow>
     next_state (current s) c \<noteq> 0 \<and> fish_quota s = 1 \<and> s' = s\<lparr>fish_quota := 0\<rparr>"
  by (auto simp: fish_before_def)

lemma fish_enabled:
  assumes "fish_rel w s"
  shows "\<exists>i < length fish_roles. True \<and> (\<exists>x. fish_before (fish_thread_role i) s = Enter x)"
proof -
  from assms have "fish_pos w (current s)" by (simp add: fish_rel_def)
  then obtain c where c: "c \<in> set ''<>_''" "next_state (current s) c \<noteq> 0"
    by (rule fish_posE)
  from fish_role_thread[OF c(1)] obtain i where "i < length fish_roles" "fish_thread_role i = c" .
  with c assms show ?thesis by (auto simp: fish_before_Enter fish_rel_def)
qed

lemma fish_rel_start: "fish_rel [] fish_start"
proof -
  have "fish_pos [] st_A" unfolding fish_pos_def
    by (rule exI[of _ "[]"], rule exI[of _ "[]"], simp add: fish_prefix_def)
  then show ?thesis by (simp add: fish_rel_def fish_start_def)
qed

interpretation fish_mon: monitor_live fish_before fish_after fish_thread_role "length fish_roles"
  fish_start "\<lambda>_. True" fish_rel "\<lambda>_. FishCv"
proof (unfold_locales, goal_cases)
  case 1
  show ?case by (rule fish_rel_start)
next
  case (2 w sh c sh')
  then show ?case
    using fish_pos_step by (auto simp: fish_before_Enter fish_after_def fish_rel_def)
next
  case (3 w sh c)
  then show ?case by (auto simp: fish_before_def fish_rel_def)
next
  case (4 w sh c sh' d)
  then show ?case by (auto simp: fish_before_Enter) (simp add: fish_before_def)
next
  case 8
  show ?case by (rule fish_enabled[OF fish_rel_start])
next
  case (9 w sh c sh' sh'' cvs)
  then have "fish_rel (w @ [c]) sh''" and "cvs = [FishCv]"
    using fish_pos_step by (auto simp: fish_before_Enter fish_after_def fish_rel_def)
  with fish_enabled[OF this(1)] show ?case by simp
qed (auto simp: fish_before_def split: if_splits)

text \<open>Running a schedule of the program from its start.\<close>

definition fish_run :: "nat list \<Rightarrow> (fish, fish_cv) msys option" where
  "fish_run is = run_sched fish_before fish_after fish_thread_role is (msys_start fish_start)"

lemma fish_run_reachable:
  "fish_run is = Some s \<Longrightarrow> list_all (\<lambda>i. i < length fish_roles) is \<Longrightarrow> fish_reachable s"
  unfolding fish_run_def list_all_iff
  by (rule run_sched_reachable[OF msys_start_reachable])

lemma fish_run_example:
  "\<exists>s. fish_run [4, 4, 4, 4, 4, 4, 4, 0, 0, 0, 0] = Some s \<and> out s = ''><'' \<and> pcs s 0 = AtAfter"
proof -
  have "map_option (\<lambda>s. (out s, pcs s 0)) (fish_run [4, 4, 4, 4, 4, 4, 4, 0, 0, 0, 0]) =
      Some (''><'', AtAfter)"
    by code_simp
  then show ?thesis by auto
qed

section \<open>Properties\<close>

text \<open>
  C6. Whatever the interleaving, the spurious wake-ups included, the characters printed so far
  are a sequence of complete lines \<open><><_\<close> or \<open>><>_\<close> followed by the beginning of one.
\<close>

theorem fish_prints_fish:
  assumes "fish_reachable s"
  shows "\<exists>ls r. out s = concat ls @ r \<and> set ls \<subseteq> {''<><_'', ''><>_''} \<and>
    (prefix r ''<><_'' \<or> prefix r ''><>_'')"
proof -
  from fish_mon.output_related[OF assms] obtain q where "fish_pos (out s) q"
    by (auto simp: fish_rel_def)
  then obtain ls r where "out s = concat ls @ r" "\<forall>l \<in> set ls. fish_line l" "fish_prefix q r"
    by (auto simp: fish_pos_def)
  moreover from this have "set ls \<subseteq> {''<><_'', ''><>_''}" by (auto simp: fish_line_def)
  ultimately show ?thesis using fish_prefix_prefix by blast
qed

lemma fish_prints_fish_witness:
  "\<exists>s. fish_reachable s \<and> out s = ''><'' \<and> (\<exists>ls r. out s = concat ls @ r \<and>
     set ls \<subseteq> {''<><_'', ''><>_''} \<and> (prefix r ''<><_'' \<or> prefix r ''><>_''))"
proof -
  obtain s where s: "fish_run [4, 4, 4, 4, 4, 4, 4, 0, 0, 0, 0] = Some s" "out s = ''><''"
    using fish_run_example by blast
  then have "fish_reachable s" by (rule_tac fish_run_reachable) (auto simp: fish_roles_def)
  with fish_prints_fish[OF this] s(2) show ?thesis by blast
qed

text \<open>
  C23. The assertion in \<open>fish_before\<close> never fails, and at most one thread is between the end of
  its \<open>fish_before\<close> and the end of its \<open>fish_after\<close>, so that nobody prints in between.
\<close>

theorem fish_exclusive:
  assumes "fish_reachable s" and "i < length fish_roles" and "j < length fish_roles"
  shows "pcs s i \<noteq> Failed \<and> (in_flight (pcs s i) \<and> in_flight (pcs s j) \<longrightarrow> i = j)"
  using fish_mon.never_failed[OF assms(1,2)] fish_mon.exclusion[OF assms(1)] assms by blast

lemma fish_exclusive_witness:
  "\<exists>s. fish_reachable s \<and> in_flight (pcs s 0) \<and> \<not> in_flight (pcs s 4)"
proof -
  obtain s where s: "fish_run [4, 4, 4, 4, 4, 4, 4, 0, 0, 0, 0] = Some s" "pcs s 0 = AtAfter"
    using fish_run_example by blast
  then have "fish_reachable s" by (rule_tac fish_run_reachable) (auto simp: fish_roles_def)
  with fish_exclusive[of s 0 4] s(2) show ?thesis by (auto simp: fish_roles_def)
qed

text \<open>
  C24. No wake-up is lost: in every reachable state some thread can take its next step, so the
  program never deadlocks.
\<close>

theorem fish_no_deadlock:
  assumes "fish_reachable s"
  shows "\<exists>i < length fish_roles. \<exists>t. thread_step fish_before fish_after fish_thread_role i s = Some t"
  using fish_mon.progress[OF assms] by blast

lemma fish_no_deadlock_witness:
  "\<exists>i < length fish_roles. \<exists>t.
     thread_step fish_before fish_after fish_thread_role i (msys_start fish_start) = Some t"
  by (rule fish_no_deadlock[OF msys_start_reachable])

text \<open>\<open>main\<close>: \<open>fish_init\<close> does nothing, one thread for each character of \<open>roles\<close>, no function is
  registered. The created threads have the roles of the invariants above.\<close>

definition fish_init :: "fish \<Rightarrow> fish" where
  "fish_init s = s"

definition fish_main :: "nat list \<Rightarrow> 'f \<Rightarrow> ('f, 'j) runtime \<Rightarrow> (fish \<times> ('f, 'j) runtime) res" where
  "fish_main as fish_thread s =
     rbind (create_many 1 as fish_thread s) (\<lambda>s'. Inr (fish_init fish_start, join None s'))"

lemma fish_main_threads:
  assumes "distinct as" and "length as = length fish_roles"
  shows "\<exists>s :: ('f, 'j) runtime. fish_main as f runtime_init = Inr (fish_start, s) \<and>
    (\<forall>k < length fish_roles. entry_all (as ! k) s = Inr (f, 1 + int k))"
proof -
  from create_many_list[OF thread_list_init, of as 1 f] assms obtain s :: "('f, 'j) runtime" where
    "create_many 1 as f runtime_init = Inr s" "\<forall>k < length as. entry_all (as ! k) s = Inr (f, 1 + int k)"
    by (auto simp: fish_roles_def)
  with assms(2) show ?thesis
    by (auto simp: fish_main_def fish_init_def join_def entry_all_def)
qed

end
