(* ===== verification/Brac.thy ===== *)
theory Brac
  imports Fish
begin

text \<open>
  \<open>multi-threads/brac.c\<close>: threads that print brackets, properly nested.

  The shared state is the stack of open brackets, kept as a string in \<open>char buff[5]\<close>, with its
  size \<open>count\<close> and the \<open>quota\<close>. A producer may print when \<open>buff\<close> with its bracket appended is
  in the table \<open>states\<close>, a consumer when it closes the last bracket. \<open>test_producer\<close> builds
  the candidate string in a block of \<open>malloc(5)\<close>; the bytes the allocator hands out beyond the
  five requested are the argument \<open>slack\<close>. The allocations themselves are taken to succeed, as
  the code does.
\<close>

section \<open>Definitions\<close>

record brac =
  buff :: string
  brac_count :: int
  brac_quota :: int

definition brac_start :: brac where
  "brac_start = \<lparr>buff = replicate 5 NUL, brac_count = 0, brac_quota = 1\<rparr>"

definition states :: "string list" where
  "states =
     [''(((('' @ [NUL], ''[((('' @ [NUL], ''[[(('' @ [NUL], ''[[[('' @ [NUL], ''[[[['' @ [NUL],
      ''((('' @ [NUL, NUL], ''[(('' @ [NUL, NUL], ''[[('' @ [NUL, NUL], ''[[['' @ [NUL, NUL],
      ''(('' @ [NUL, NUL, NUL], ''[('' @ [NUL, NUL, NUL], ''[['' @ [NUL, NUL, NUL],
      ''('' @ [NUL, NUL, NUL, NUL], ''['' @ [NUL, NUL, NUL, NUL]]"

text \<open>One pass of the loop per table entry: \<open>tmp\<close> is cleared, receives \<open>buff\<close> and \<open>bit\<close> and
  is compared with the entry.\<close>

fun producer_loop :: "string \<Rightarrow> string \<Rightarrow> char \<Rightarrow> string list \<Rightarrow> int res" where
  "producer_loop slack b ch [] = Inr 0"
| "producer_loop slack b ch (st # sts) =
     rbind (strcpy (replicate 5 NUL @ slack) b) (\<lambda>tmp.
     rbind (strcat tmp [ch, NUL]) (\<lambda>tmp'.
       if streq tmp' st then Inr 1 else producer_loop slack b ch sts))"

definition test_producer :: "string \<Rightarrow> char \<Rightarrow> brac \<Rightarrow> int res" where
  "test_producer slack ch s = producer_loop slack (buff s) ch states"

function scan_nul :: "string \<Rightarrow> nat \<Rightarrow> nat" where
  "scan_nul b i = (if i < 4 then (if b ! i = NUL then i else scan_nul b (Suc i)) else i)"
  by pat_completeness auto
termination
  by (relation "measure (\<lambda>(b, i). 4 - i)") auto

declare scan_nul.simps [simp del]

definition test_consumer :: "char \<Rightarrow> brac \<Rightarrow> int" where
  "test_consumer ch s =
     (if strlen (buff s) < 1 then 0
      else let bit_num = scan_nul (buff s) 0 - 1 in
        if buff s ! bit_num = CHR ''('' \<and> ch = CHR '')'' then 1
        else if buff s ! bit_num = CHR ''['' \<and> ch = CHR '']'' then 1
        else 0)"

datatype brac_cv = EmptyCv | FillCv

definition brac_before :: "string \<Rightarrow> char \<Rightarrow> brac \<Rightarrow> (brac, brac_cv) attempt" where
  "brac_before slack ch s =
     (if ch = CHR ''['' \<or> ch = CHR ''('' then
        (case test_producer slack ch s of
           Inl e \<Rightarrow> Abort
         | Inr r \<Rightarrow> if r = 0 \<or> brac_quota s \<noteq> 1 \<or> brac_count s = 4 then Wait EmptyCv
                   else Enter (s\<lparr>brac_quota := brac_quota s - 1\<rparr>))
      else if ch = CHR '')'' \<or> ch = CHR '']'' then
        (if test_consumer ch s = 0 \<or> brac_quota s \<noteq> 1 \<or> brac_count s = 0 then Wait FillCv
         else Enter (s\<lparr>brac_quota := brac_quota s - 1\<rparr>))
      else Enter s)"

definition brac_after :: "char \<Rightarrow> brac \<Rightarrow> (brac \<times> brac_cv list) res" where
  "brac_after ch s =
     (if ch = CHR ''['' \<or> ch = CHR ''('' then
        rbind (strcat (buff s) [ch, NUL]) (\<lambda>b.
          Inr (s\<lparr>buff := b, brac_count := brac_count s + 1, brac_quota := brac_quota s + 1\<rparr>,
               [FillCv]))
      else if ch = CHR '')'' \<or> ch = CHR '']'' then
        (let len = strlen (buff s) in
         if len = 0 then Inl OutOfBounds
         else Inr (s\<lparr>buff := (buff s)[len - 1 := NUL], brac_count := brac_count s - 1,
                     brac_quota := brac_quota s + 1\<rparr>, [EmptyCv]))
      else Inr (s, []))"

definition brac_roles :: string where
  "brac_roles = ''[[]](())''"

definition brac_thread_role :: "nat \<Rightarrow> char" where
  "brac_thread_role k = (case role_at brac_roles (1 + int k) of Inl e \<Rightarrow> NUL | Inr c \<Rightarrow> c)"

definition is_bracket :: "char \<Rightarrow> bool" where
  "is_bracket c \<longleftrightarrow> c \<in> set ''()[]''"

abbreviation brac_reachable :: "string \<Rightarrow> (brac, brac_cv) msys \<Rightarrow> bool" where
  "brac_reachable slack \<equiv> reachable (msys_init brac_start)
     (mstep (brac_before slack) brac_after brac_thread_role (length brac_roles))"

section \<open>Well-nested words\<close>

text \<open>
  \<open>brac_word d q w\<close>: \<open>w\<close> is a balanced word of nesting depth at most \<open>d\<close> in which no square
  bracket stands inside a round one; square brackets are allowed at the outermost level if \<open>q\<close>.
  \<open>open_word d q w st\<close>: \<open>w\<close> is the beginning of such a word with the brackets \<open>st\<close> open.
\<close>

inductive brac_word :: "nat \<Rightarrow> bool \<Rightarrow> string \<Rightarrow> bool" where
  bw_empty: "brac_word d q []"
| bw_round: "brac_word d False u \<Longrightarrow> brac_word (Suc d) q v \<Longrightarrow>
    brac_word (Suc d) q (''('' @ u @ '')'' @ v)"
| bw_square: "brac_word d True u \<Longrightarrow> brac_word (Suc d) True v \<Longrightarrow>
    brac_word (Suc d) True (''['' @ u @ '']'' @ v)"

inductive open_word :: "nat \<Rightarrow> bool \<Rightarrow> string \<Rightarrow> string \<Rightarrow> bool" where
  ow_closed: "brac_word d q u \<Longrightarrow> open_word d q u []"
| ow_round: "brac_word (Suc d) q u \<Longrightarrow> open_word d False w st \<Longrightarrow>
    open_word (Suc d) q (u @ ''('' @ w) (CHR ''('' # st)"
| ow_square: "brac_word (Suc d) True u \<Longrightarrow> open_word d True w st \<Longrightarrow>
    open_word (Suc d) True (u @ ''['' @ w) (CHR ''['' # st)"

definition closer :: "char \<Rightarrow> char" where
  "closer c = (if c = CHR ''('' then CHR '')'' else CHR '']'')"

lemma brac_word_append: "brac_word d q u \<Longrightarrow> brac_word d q v \<Longrightarrow> brac_word d q (u @ v)"
proof (induction rule: brac_word.induct)
  case (bw_round d u q v')
  then show ?case using brac_word.bw_round[of d u q "v' @ v"] by simp
next
  case (bw_square d u v')
  then show ?case using brac_word.bw_square[of d u "v' @ v"] by simp
qed simp

lemma open_word_close: "open_word d q w st \<Longrightarrow> brac_word d q (w @ rev (map closer st))"
proof (induction rule: open_word.induct)
  case (ow_closed d q u)
  then show ?case by simp
next
  case (ow_round d q u w st)
  from brac_word_append[OF ow_round(1) bw_round[OF ow_round.IH bw_empty]] show ?case
    by (simp add: closer_def)
next
  case (ow_square d u w st)
  from brac_word_append[OF ow_square(1) bw_square[OF ow_square.IH bw_empty]] show ?case
    by (simp add: closer_def)
qed

lemma open_word_push:
  "open_word d q w st \<Longrightarrow> length st < d \<Longrightarrow>
   c = CHR ''('' \<or> c = CHR ''['' \<and> q \<and> CHR ''('' \<notin> set st \<Longrightarrow> open_word d q (w @ [c]) (st @ [c])"
proof (induction rule: open_word.induct)
  case (ow_closed d q u)
  from ow_closed.prems(1) obtain d' where d: "d = Suc d'" by (cases d) auto
  have e: "open_word d' r [] []" for r by (intro open_word.intros brac_word.intros)
  show ?case
    using ow_closed ow_round[OF _ e] ow_square[OF _ e] by (fastforce simp: d)
next
  case (ow_round d q u w st)
  then show ?case using open_word.ow_round[of d q u "w @ [c]" "st @ [c]"] by auto
next
  case (ow_square d u w st)
  then show ?case using open_word.ow_square[of d u "w @ [c]" "st @ [c]"] by auto
qed

lemma open_word_pop:
  "open_word d q w st' \<Longrightarrow> st' = st @ [c] \<Longrightarrow> open_word d q (w @ [closer c]) st"
proof (induction arbitrary: st rule: open_word.induct)
  case (ow_closed d q u)
  then show ?case by simp
next
  case (ow_round d q u w st1)
  show ?case
  proof (cases st)
    case Nil
    with ow_round have c: "c = CHR ''(''" and "open_word d False w []" by auto
    then have "brac_word d False w" by (auto elim: open_word.cases)
    from brac_word_append[OF ow_round(1) bw_round[OF this bw_empty]] show ?thesis
      by (auto simp: Nil c closer_def intro: open_word.ow_closed)
  next
    case (Cons a st2)
    with ow_round open_word.ow_round[OF ow_round(1), of "w @ [closer c]" st2] show ?thesis by auto
  qed
next
  case (ow_square d u w st1)
  show ?case
  proof (cases st)
    case Nil
    with ow_square have c: "c = CHR ''[''" and "open_word d True w []" by auto
    then have "brac_word d True w" by (auto elim: open_word.cases)
    from brac_word_append[OF ow_square(1) bw_square[OF this bw_empty]] show ?thesis
      by (auto simp: Nil c closer_def intro: open_word.ow_closed)
  next
    case (Cons a st2)
    with ow_square open_word.ow_square[OF ow_square(1), of "w @ [closer c]" st2] show ?thesis by auto
  qed
qed

section \<open>The tests on well-formed buffers\<close>

text \<open>
  \<open>brac_buf s\<close>: the array has five bytes, holds one of the stacks of the table (or the empty
  one), and \<open>count\<close> is its length.
\<close>

definition stacks :: "string set" where
  "stacks = insert [] (set (map cstr states))"

definition brac_buf :: "brac \<Rightarrow> bool" where
  "brac_buf s \<longleftrightarrow> length (buff s) = 5 \<and> cstr (buff s) \<in> stacks \<and> brac_count s = int (strlen (buff s))"

lemma stacks_eq:
  "stacks = {[], ''(((('', ''[((('', ''[[(('', ''[[[('', ''[[[['', ''((('', ''[(('', ''[[('', ''[[['',
     ''(('', ''[('', ''[['', ''('', ''[''}"
  by (simp add: stacks_def states_def cstr_def)

lemma stacks_length: "st \<in> stacks \<Longrightarrow> length st \<le> 4"
  unfolding stacks_eq by (elim insertE) simp_all

lemma stacks_butlast: "st \<in> stacks \<Longrightarrow> butlast st \<in> stacks"
  unfolding stacks_eq by (elim insertE) simp_all

lemma stacks_round: "st \<in> stacks \<Longrightarrow> length st < 4 \<Longrightarrow> st @ ''('' \<in> stacks"
  unfolding stacks_eq by (elim insertE) simp_all

lemma stacks_last: "st \<in> stacks \<Longrightarrow> st \<noteq> [] \<Longrightarrow> last st = CHR ''('' \<or> last st = CHR ''[''"
  unfolding stacks_eq by (elim insertE) simp_all

lemma stacks_square: "st @ ''['' \<in> stacks \<Longrightarrow> CHR ''('' \<notin> set st"
proof -
  have "t \<in> stacks \<Longrightarrow> t \<noteq> [] \<Longrightarrow> last t = CHR ''['' \<Longrightarrow> CHR ''('' \<notin> set t" for t
    unfolding stacks_eq by (elim insertE) simp_all
  from this[of "st @ ''[''"] show "st @ ''['' \<in> stacks \<Longrightarrow> CHR ''('' \<notin> set st" by simp
qed

lemma cstr_singleton [simp]: "c \<noteq> NUL \<Longrightarrow> cstr [c, NUL] = [c]"
  by (simp add: cstr_def)

lemma producer_loop_eq:
  assumes "strlen b + 1 < 5 + length slack" and "c \<noteq> NUL"
  shows "producer_loop slack b c sts = Inr (if cstr b @ [c] \<in> set (map cstr sts) then 1 else 0)"
proof (induction sts)
  case Nil
  then show ?case by simp
next
  case (Cons st sts)
  let ?tmp = "replicate 5 NUL @ slack"
  from assms(1) obtain t where t: "strcpy ?tmp b = Inr t" by (simp add: strcpy_def)
  note t' = cstr_strcpy[OF t]
  from assms t' obtain u where u: "strcat t [c, NUL] = Inr u"
    using strcat_total[of t "[c, NUL]"] by (auto simp: strlen_def)
  from cstr_strcat[OF u] t' assms(2) have "cstr u = cstr b @ [c]" by simp
  with Cons t u show ?case by (simp add: streq_def)
qed

lemma test_producer_eq:
  assumes "brac_buf s" and "slack \<noteq> []" and "c \<noteq> NUL"
  shows "test_producer slack c s = Inr (if cstr (buff s) @ [c] \<in> stacks then 1 else 0)"
proof -
  from assms(1) have "strlen (buff s) \<le> 4" by (auto simp: brac_buf_def strlen_def dest: stacks_length)
  with assms(2) have "strlen (buff s) + 1 < 5 + length slack" by (cases slack) auto
  from producer_loop_eq[OF this assms(3)] show ?thesis
    by (simp add: test_producer_def stacks_def)
qed

lemma cstr_nth: "i < strlen b \<Longrightarrow> b ! i = cstr b ! i \<and> b ! i \<noteq> NUL"
proof -
  assume "i < strlen b"
  then have i: "i < length (takeWhile (\<lambda>c. c \<noteq> NUL) b)" by (simp add: strlen_def cstr_def)
  from takeWhile_nth[OF i] nth_mem[OF i] set_takeWhileD[of "b ! i" "\<lambda>c. c \<noteq> NUL" b]
  show ?thesis by (simp add: cstr_def)
qed

lemma cstr_nth_end: "strlen b < length b \<Longrightarrow> b ! strlen b = NUL"
  using nth_length_takeWhile[of "\<lambda>c. c \<noteq> NUL" b] by (simp add: strlen_def cstr_def)

lemma scan_nul_eq:
  assumes "strlen b \<le> 4" and "length b = 5" and "i \<le> strlen b"
  shows "scan_nul b i = strlen b"
  using assms(3)
proof (induction "strlen b - i" arbitrary: i)
  case 0
  with assms cstr_nth_end[of b] show ?case by (auto simp: scan_nul.simps[of b i])
next
  case (Suc k)
  then have "i < strlen b" by simp
  moreover from Suc have "scan_nul b (Suc i) = strlen b" by simp
  ultimately show ?case using assms cstr_nth[of i b] by (auto simp: scan_nul.simps[of b i])
qed

lemma test_consumer_eq:
  assumes "brac_buf s"
  shows "test_consumer c s = (if cstr (buff s) \<noteq> [] \<and> c = closer (last (cstr (buff s))) then 1 else 0)"
proof (cases "cstr (buff s) = []")
  case True
  then show ?thesis by (simp add: test_consumer_def strlen_def)
next
  case False
  from assms have le: "strlen (buff s) \<le> 4" "length (buff s) = 5" "cstr (buff s) \<in> stacks"
    by (auto simp: brac_buf_def strlen_def dest: stacks_length)
  from False have "strlen (buff s) > 0" by (simp add: strlen_def)
  then have "buff s ! (strlen (buff s) - 1) = last (cstr (buff s))"
    using cstr_nth[of "strlen (buff s) - 1" "buff s"] False by (simp add: last_conv_nth strlen_def)
  with scan_nul_eq[OF le(1,2), of 0] \<open>strlen (buff s) > 0\<close> False stacks_last[OF le(3) False]
  show ?thesis by (auto simp: test_consumer_def closer_def Let_def)
qed

lemma cstr_truncate:
  assumes "cstr b \<noteq> []"
  shows "cstr (b[strlen b - 1 := NUL]) = butlast (cstr b)"
proof -
  let ?n = "strlen b"
  from assms have n: "0 < ?n" "?n \<le> length b" using strlen_le by (simp_all add: strlen_def)
  have pre: "take (?n - 1) b = butlast (cstr b)"
    by (metis butlast_take cstr_take n(2))
  have "b[?n - 1 := NUL] = take (?n - 1) b @ NUL # drop ?n b"
    using n by (simp add: upd_conv_take_nth_drop)
  also have "\<dots> = butlast (cstr b) @ NUL # drop ?n b" by (simp only: pre)
  finally show ?thesis
    using cstr_no_NUL[of b] in_set_butlastD by (metis cstr_append_NUL)
qed

section \<open>The program as a monitor\<close>

definition brac_rel :: "string \<Rightarrow> brac \<Rightarrow> bool" where
  "brac_rel w s \<longleftrightarrow> brac_buf s \<and> brac_quota s = 1 \<and> open_word 4 True w (cstr (buff s))"

lemma bracket_cases:
  assumes "is_bracket c"
  obtains "c = CHR ''(''" | "c = CHR ''[''" | "c = CHR '')''" | "c = CHR '']''"
  using assms by (auto simp: is_bracket_def)

lemma brac_before_push:
  assumes "brac_buf s" and "slack \<noteq> []" and "c = CHR ''('' \<or> c = CHR ''[''"
  shows "brac_before slack c s =
    (if cstr (buff s) @ [c] \<in> stacks \<and> brac_quota s = 1 \<and> brac_count s \<noteq> 4
     then Enter (s\<lparr>brac_quota := 0\<rparr>) else Wait EmptyCv)"
  using assms test_producer_eq[OF assms(1,2), of c] by (auto simp: brac_before_def)

lemma brac_before_pop:
  assumes "brac_buf s" and "c = CHR '')'' \<or> c = CHR '']''"
  shows "brac_before slack c s =
    (if cstr (buff s) \<noteq> [] \<and> c = closer (last (cstr (buff s))) \<and> brac_quota s = 1
     then Enter (s\<lparr>brac_quota := 0\<rparr>) else Wait FillCv)"
  using assms test_consumer_eq[OF assms(1), of c] by (auto simp: brac_before_def brac_buf_def strlen_def)

lemma brac_push_after:
  assumes b: "brac_buf s" and c: "c = CHR ''('' \<or> c = CHR ''[''"
    and st: "cstr (buff s) @ [c] \<in> stacks"
  shows "\<exists>s'. brac_after c (s\<lparr>brac_quota := 0\<rparr>) = Inr (s', [FillCv]) \<and> brac_buf s' \<and>
    brac_quota s' = 1 \<and> cstr (buff s') = cstr (buff s) @ [c]"
proof -
  from c have cn: "c \<noteq> NUL" by auto
  from b stacks_length[OF st] have "strlen (buff s) + strlen [c, NUL] < length (buff s)"
    using cn by (simp add: brac_buf_def strlen_def)
  then obtain d where d: "strcat (buff s) [c, NUL] = Inr d" using strcat_total by blast
  from cstr_strcat[OF d] cn have d': "cstr d = cstr (buff s) @ [c]" "length d = length (buff s)" by simp_all
  let ?s = "s\<lparr>buff := d, brac_count := brac_count s + 1, brac_quota := 1\<rparr>"
  have "brac_after c (s\<lparr>brac_quota := 0\<rparr>) = Inr (?s, [FillCv])"
    using c d by (auto simp: brac_after_def)
  moreover have "brac_buf ?s" using b d' st by (simp add: brac_buf_def strlen_def)
  ultimately show ?thesis using d' by auto
qed

lemma brac_pop_after:
  assumes b: "brac_buf s" and c: "c = CHR '')'' \<or> c = CHR '']''" and ne: "cstr (buff s) \<noteq> []"
  shows "\<exists>s'. brac_after c (s\<lparr>brac_quota := 0\<rparr>) = Inr (s', [EmptyCv]) \<and> brac_buf s' \<and>
    brac_quota s' = 1 \<and> cstr (buff s') = butlast (cstr (buff s))"
proof -
  from ne have n: "strlen (buff s) \<noteq> 0" by (simp add: strlen_def)
  let ?s = "s\<lparr>buff := (buff s)[strlen (buff s) - 1 := NUL], brac_count := brac_count s - 1,
    brac_quota := 1\<rparr>"
  have "brac_after c (s\<lparr>brac_quota := 0\<rparr>) = Inr (?s, [EmptyCv])"
    using c n by (auto simp: brac_after_def Let_def)
  moreover have "brac_buf ?s"
    using b n stacks_butlast cstr_truncate[OF ne]
    by (cases "length (cstr (buff s))") (simp_all add: brac_buf_def strlen_def)
  ultimately show ?thesis using cstr_truncate[OF ne] by auto
qed

lemma brac_enter_after:
  assumes r: "brac_rel w s" and sl: "slack \<noteq> []" and a: "is_bracket c"
    and e: "brac_before slack c s = Enter s'"
  shows "\<exists>s'' cvs. brac_after c s' = Inr (s'', cvs) \<and> brac_rel (w @ [c]) s'' \<and>
    (if cvs = [FillCv] then cstr (buff s'') \<noteq> [] else cvs = [EmptyCv] \<and> length (cstr (buff s'')) < 4)"
proof -
  from r have b: "brac_buf s" and ow: "open_word 4 True w (cstr (buff s))" by (auto simp: brac_rel_def)
  from b have st: "cstr (buff s) \<in> stacks" by (simp add: brac_buf_def)
  show ?thesis
  proof (cases "c = CHR ''('' \<or> c = CHR ''[''")
    case True
    with e brac_before_push[OF b sl True] have s': "s' = s\<lparr>brac_quota := 0\<rparr>"
      and push: "cstr (buff s) @ [c] \<in> stacks" by (auto split: if_splits)
    from brac_push_after[OF b True push] obtain s'' where s'': "brac_after c s' = Inr (s'', [FillCv])"
      "brac_buf s''" "brac_quota s'' = 1" "cstr (buff s'') = cstr (buff s) @ [c]"
      using s' by blast
    have "open_word 4 True (w @ [c]) (cstr (buff s) @ [c])"
      using open_word_push[OF ow] stacks_length[OF push] stacks_square[of "cstr (buff s)"] True push
      by auto
    with s'' show ?thesis by (auto simp: brac_rel_def)
  next
    case False
    with a have c: "c = CHR '')'' \<or> c = CHR '']''" by (auto elim: bracket_cases)
    with e brac_before_pop[OF b c] have s': "s' = s\<lparr>brac_quota := 0\<rparr>" and ne: "cstr (buff s) \<noteq> []"
      and cl: "c = closer (last (cstr (buff s)))" by (auto split: if_splits)
    from brac_pop_after[OF b c ne] obtain s'' where s'': "brac_after c s' = Inr (s'', [EmptyCv])"
      "brac_buf s''" "brac_quota s'' = 1" "cstr (buff s'') = butlast (cstr (buff s))"
      using s' by blast
    from open_word_pop[OF ow, of "butlast (cstr (buff s))" "last (cstr (buff s))"] ne cl
    have "open_word 4 True (w @ [c]) (butlast (cstr (buff s)))" by simp
    with s'' stacks_length[OF st] ne show ?thesis by (cases "cstr (buff s)" rule: rev_cases) (auto simp: brac_rel_def)
  qed
qed

lemma brac_thread_roles:
  "brac_thread_role 0 = CHR ''[''" "brac_thread_role 2 = CHR '']''" "brac_thread_role 3 = CHR ''(''"
  "brac_thread_role 5 = CHR '')''" "brac_thread_role 7 = NUL" "length brac_roles = 8"
  by (simp_all add: brac_thread_role_def role_at_def brac_roles_def)

lemma brac_enabled_push:
  assumes "brac_rel w s" and "slack \<noteq> []" and "length (cstr (buff s)) < 4"
  shows "\<exists>x. brac_before slack (brac_thread_role 3) s = Enter x"
proof -
  from assms have b: "brac_buf s" and "cstr (buff s) @ ''('' \<in> stacks"
    by (auto simp: brac_rel_def brac_buf_def intro: stacks_round)
  moreover have "brac_count s \<noteq> 4" using assms(3) b by (simp add: brac_buf_def strlen_def)
  ultimately show ?thesis
    using brac_before_push[OF b assms(2), of "CHR ''(''"] assms(1)
    by (simp add: brac_thread_roles brac_rel_def)
qed

lemma brac_enabled_pop:
  assumes "brac_rel w s" and "cstr (buff s) \<noteq> []"
  shows "\<exists>i \<in> {2, 5}. \<exists>x. brac_before slack (brac_thread_role i) s = Enter x"
proof -
  from assms have b: "brac_buf s" and q: "brac_quota s = 1" by (auto simp: brac_rel_def)
  then have "last (cstr (buff s)) = CHR ''('' \<or> last (cstr (buff s)) = CHR ''[''"
    using stacks_last assms(2) by (auto simp: brac_buf_def)
  with brac_before_pop[OF b, of "closer (last (cstr (buff s)))" slack] q assms(2) show ?thesis
    by (auto simp: closer_def brac_thread_roles split: if_splits)
qed

lemma brac_start_empty [simp]: "cstr (buff brac_start) = []"
  by (simp add: brac_start_def cstr_def numeral_eq_Suc)

lemma brac_rel_start: "brac_rel [] brac_start"
proof -
  have "brac_buf brac_start"
    by (simp add: brac_buf_def strlen_def stacks_def) (simp add: brac_start_def)
  then show ?thesis
    by (auto simp: brac_rel_def intro: open_word.intros brac_word.intros) (simp add: brac_start_def)
qed

definition brac_wait_cv :: "char \<Rightarrow> brac_cv" where
  "brac_wait_cv c = (if c = CHR ''['' \<or> c = CHR ''('' then EmptyCv else FillCv)"

lemma brac_blocked:
  assumes "brac_rel w s" and "brac_before (x # slack) c s = Enter s'" and "is_bracket c" and "is_bracket d"
  shows "\<exists>cv. brac_before (x # slack) d s' = Wait cv"
proof -
  have s': "brac_buf s' \<and> brac_quota s' = 0"
    using assms(3) brac_before_push[of s "x # slack" c] brac_before_pop[of s c "x # slack"] assms(1,2)
    by (cases rule: bracket_cases) (auto simp: brac_rel_def brac_buf_def split: if_splits)
  with assms(4) brac_before_push[of s' "x # slack" d] brac_before_pop[of s' d "x # slack"] show ?thesis
    by (cases rule: bracket_cases) auto
qed

lemma brac_no_abort:
  assumes "brac_rel w s" shows "brac_before (x # slack) c s \<noteq> Abort"
proof (cases "is_bracket c")
  case True
  then show ?thesis
    using assms brac_before_push[of s "x # slack" c] brac_before_pop[of s c "x # slack"]
    by (cases rule: bracket_cases) (auto simp: brac_rel_def)
next
  case False
  then show ?thesis by (auto simp: brac_before_def is_bracket_def)
qed

lemma brac_live_after:
  assumes "brac_rel w s" and "is_bracket c" and "brac_before (x # slack) c s = Enter s'"
    and "brac_after c s' = Inr (s'', cvs)"
  shows "\<exists>i < length brac_roles. is_bracket (brac_thread_role i) \<and>
    (\<exists>y. brac_before (x # slack) (brac_thread_role i) s'' = Enter y) \<and>
    brac_wait_cv (brac_thread_role i) \<in> set cvs"
proof -
  from brac_enter_after[OF assms(1) _ assms(2,3)] assms(4) have r: "brac_rel (w @ [c]) s''"
    and cv: "if cvs = [FillCv] then cstr (buff s'') \<noteq> []
      else cvs = [EmptyCv] \<and> length (cstr (buff s'')) < 4" by auto
  show ?thesis
  proof (cases "cvs = [FillCv]")
    case True
    with cv brac_enabled_pop[OF r, of "x # slack"] obtain i where "i \<in> {2, 5}"
      "\<exists>y. brac_before (x # slack) (brac_thread_role i) s'' = Enter y" by auto
    with True show ?thesis
      by (intro exI[of _ i]) (auto simp: brac_thread_roles is_bracket_def brac_wait_cv_def)
  next
    case False
    with cv brac_enabled_push[OF r, of "x # slack"] show ?thesis
      by (intro exI[of _ 3]) (auto simp: brac_thread_roles is_bracket_def brac_wait_cv_def)
  qed
qed

interpretation brac_mon: monitor_live "brac_before (x # slack)" brac_after brac_thread_role
  "length brac_roles" brac_start is_bracket brac_rel brac_wait_cv for x slack
proof (unfold_locales, goal_cases)
  case 1
  show ?case by (rule brac_rel_start)
next
  case (2 w sh c sh')
  with brac_enter_after[of w sh "x # slack" c sh'] show ?case by blast
next
  case (3 w sh c)
  then show ?case by (rule brac_no_abort)
next
  case (4 w sh c sh' d)
  then show ?case by (intro brac_blocked)
next
  case (5 c sh)
  then show ?case by (auto simp: is_bracket_def brac_before_def)
next
  case (6 c sh)
  then show ?case by (auto simp: is_bracket_def brac_after_def)
next
  case (7 c sh cv)
  then show ?case
    by (auto simp: brac_before_def brac_wait_cv_def split: if_splits sum.splits)
next
  case 8
  show ?case
    using brac_enabled_push[OF brac_rel_start, of "x # slack"]
    by (intro exI[of _ 3]) (auto simp: brac_thread_roles is_bracket_def)
next
  case (9 w sh c sh' sh'' cvs)
  then show ?case by (rule brac_live_after)
qed

text \<open>Running a schedule of the program from its start.\<close>

definition brac_run :: "string \<Rightarrow> nat list \<Rightarrow> (brac, brac_cv) msys option" where
  "brac_run slack is =
     run_sched (brac_before slack) brac_after brac_thread_role is (msys_start brac_start)"

lemma brac_run_reachable:
  "brac_run slack is = Some s \<Longrightarrow> list_all (\<lambda>i. i < length brac_roles) is \<Longrightarrow> brac_reachable slack s"
  unfolding brac_run_def list_all_iff
  by (rule run_sched_reachable[OF msys_start_reachable])

lemma brac_run_example:
  "\<exists>s. brac_run [NUL] [0, 0, 0, 0, 0, 0, 0, 3, 3, 3, 3] = Some s \<and> out s = ''[('' \<and> pcs s 3 = AtAfter"
proof -
  have "map_option (\<lambda>s. (out s, pcs s 3)) (brac_run [NUL] [0, 0, 0, 0, 0, 0, 0, 3, 3, 3, 3]) =
      Some (''[('', AtAfter)"
    by code_simp
  then show ?thesis by auto
qed

section \<open>Properties\<close>







text \<open>
  With a block of exactly the five bytes requested, \<open>test_producer\<close> writes past its end as
  soon as a producer tests a full buffer: the terminator of the five-character candidate has no
  room. Four rounds of one thread lead there.
\<close>

theorem brac_producer_overflow:
  "\<exists>s. brac_reachable [] s \<and> strlen (buff (shared s)) = 4 \<and> pcs s 0 = TestBefore \<and>
     brac_thread_role 0 = CHR ''['' \<and> test_producer [] (CHR ''['') (shared s) = Inl OutOfBounds"
proof -
  let ?is = "concat (replicate 4 [0, 0, 0, 0, 0, 0, 0]) @ [0]"
  have "map_option (\<lambda>s. (strlen (buff (shared s)), pcs s 0, test_producer [] (CHR ''['') (shared s)))
      (brac_run [] ?is) = Some (4, TestBefore, Inl OutOfBounds)"
    by code_simp
  then obtain s where s: "brac_run [] ?is = Some s" "strlen (buff (shared s)) = 4"
    "pcs s 0 = TestBefore" "test_producer [] (CHR ''['') (shared s) = Inl OutOfBounds"
    by auto
  from s(1) have "brac_reachable [] s" by (rule brac_run_reachable) (simp add: brac_roles_def list_all_iff)
  with s show ?thesis by (auto simp: brac_thread_roles)
qed

text \<open>
  \<open>create\<close> numbers threads from 1, so the last thread indexes the terminator of
  \<open>roles\<close>: it has no bracket role, passes \<open>brac_before\<close> without waiting and prints NUL
  characters between the brackets.
\<close>

theorem brac_prints_nul:
  "brac_thread_role 7 = NUL \<and> (\<exists>s. brac_reachable slack s \<and> NUL \<in> set (out s))"
proof -
  have r: "brac_before slack NUL sh = Enter sh" for sh by (simp add: brac_before_def)
  obtain s where s: "brac_run slack [7, 7, 7, 7] = Some s" "out s = [NUL]"
    by (simp add: brac_run_def thread_step_def brac_thread_roles r msys_start_def set_pc_def)
  then have "brac_reachable slack s"
    by (rule_tac brac_run_reachable) (auto simp: brac_roles_def)
  with s show ?thesis by (auto simp: brac_thread_roles)
qed

section \<open>The program\<close>

text \<open>
  \<open>main\<close>: \<open>brac_init\<close> does nothing; one thread for each character of \<open>roles\<close>; \<open>join(SayBye)\<close>. A
  registered function is represented by what it prints. \<open>SayBye\<close> would run at exit, after all
  threads have ended, but the loop of \<open>brac_thread\<close> has no exit: \<open>join_all\<close> waits forever.
\<close>

definition SayBye :: string where
  "SayBye = ''Done!'' @ [CHR 0x0A]"

definition brac_init :: "brac \<Rightarrow> brac" where
  "brac_init s = s"

definition brac_main ::
  "nat list \<Rightarrow> 'f \<Rightarrow> ('f, string) runtime \<Rightarrow> (brac \<times> ('f, string) runtime) res" where
  "brac_main as brac_thread s =
     rbind (create_many 1 as brac_thread s) (\<lambda>s'. Inr (brac_init brac_start, join (Some SayBye) s'))"

lemma brac_never_says_bye:
  assumes "distinct as" and "length as = length brac_roles"
  shows "\<exists>s. brac_main as f runtime_init = Inr (brac_start, s) \<and>
    (\<forall>k < length brac_roles. entry_all (as ! k) s = Inr (f, 1 + int k)) \<and>
    join_fn s = Some SayBye \<and> join_all (\<lambda>_. False) s = None"
proof -
  from create_many_list[OF thread_list_init, of as 1 f] assms obtain s :: "('a, string) runtime" where
    s: "create_many 1 as f runtime_init = Inr s" "thread_list 1 s as"
      "\<forall>k < length as. entry_all (as ! k) s = Inr (f, 1 + int k)"
    by (auto simp: brac_roles_def)
  let ?s = "join (Some SayBye) s"
  from s(2) have "thread_list 1 ?s as"
    by (simp add: thread_list_def join_def next_of_def[abs_def])
  moreover have "\<not> (\<forall>a \<in> set as. False)" using assms(2) by (cases as) (auto simp: brac_roles_def)
  ultimately have "join_loop (\<lambda>_. False) ?s = None" by (rule join_loop_blocks)
  then have "join_all (\<lambda>_. False) ?s = None" by (simp add: join_all_def)
  with s assms(2) show ?thesis
    by (auto simp: brac_main_def brac_init_def join_def entry_all_def)
qed

end
