(* ===== verification/FishMid.thy ===== *)
theory FishMid
  imports Fish
begin

text \<open>
  \<open>os-midterm/fish.c\<close>: the first attempt at the fish printer. It keeps no automaton but the sum of the
  character codes printed since the last complete fish: three characters of a fish sum up to more
  than 180, four to more than 240. \<open>fish_after\<close> adds the character, resets the sum after a fish and
  signals the condition variable of the role that should print next.

  \<open>fish_before\<close> names variables that do not exist, so the file does not compile as it stands and
  its waiting is not modelled; \<open>fish_init\<close>, \<open>fish_after\<close>, the roles and \<open>main\<close> are. \<open>rand\<close> is an
  argument: the number it returns, drawn only after a complete fish.
\<close>

section \<open>Definitions\<close>

datatype mid_cv = Underline | Big | Small

record mid =
  fish_sum :: int
  last_ch :: char

definition mid_init :: mid where
  "mid_init = \<lparr>fish_sum = 0, last_ch = NUL\<rparr>"

definition mid_after :: "nat \<Rightarrow> char \<Rightarrow> mid \<Rightarrow> mid \<times> mid_cv" where
  "mid_after r ch s =
     (let sum1 = fish_sum s + of_char ch;
          sum2 = (if sum1 > 240 then 0 else sum1)
      in (\<lparr>fish_sum = sum2, last_ch = ch\<rparr>,
          if sum2 > 180 then Underline
          else if ch = CHR ''>'' then Small
          else if ch = CHR ''<'' then Big
          else if r mod 2 = 0 then Small else Big))"

text \<open>The roles, and the role of the thread with a given number; \<open>main\<close> creates one thread per
  role, numbered from 0 by the \<open>create\<close> of this directory.\<close>

definition mid_roles :: string where
  "mid_roles = ''<<<<<>>>>___''"

definition mid_thread_role :: "int \<Rightarrow> char res" where
  "mid_thread_role tid = role_at mid_roles tid"

definition mid_main :: "nat list \<Rightarrow> 'f \<Rightarrow> ('f, 'j) runtime \<Rightarrow> (mid \<times> ('f, 'j) runtime) res" where
  "mid_main as fish_thread s = rbind (create_many 0 as fish_thread s) (\<lambda>s'. Inr (mid_init, join None s'))"

text \<open>Several characters printed one after the other; the result is the last signal.\<close>

fun mid_prints :: "(nat \<times> char) list \<Rightarrow> mid \<times> mid_cv option \<Rightarrow> mid \<times> mid_cv option" where
  "mid_prints [] sc = sc"
| "mid_prints ((r, ch) # w) (s, c) = mid_prints w (let (s', c') = mid_after r ch s in (s', Some c'))"

section \<open>Positions in a fish\<close>

text \<open>The role that waits for a condition variable, and the sum of the codes of a word.\<close>

fun cv_role :: "mid_cv \<Rightarrow> char" where
  "cv_role Underline = CHR ''_''"
| "cv_role Big = CHR ''>''"
| "cv_role Small = CHR ''<''"

definition codes :: "string \<Rightarrow> int" where
  "codes w = sum_list (map of_char w)"

lemma mid_prints_snoc:
  "mid_prints (w @ [(r, ch)]) sc =
     (let (s', c') = mid_after r ch (fst (mid_prints w sc)) in (s', Some c'))"
  by (induction w sc rule: mid_prints.induct) (auto split: prod.splits)

text \<open>The sum tells the position in a fish: it is the sum of the codes of what was printed of the
  current one.\<close>

definition mid_inv :: "fish_state \<Rightarrow> mid \<Rightarrow> bool" where
  "mid_inv q s \<longleftrightarrow> (\<exists>r. fish_prefix q r \<and> fish_sum s = codes r)"

lemma mid_after_step:
  assumes "mid_inv q s" "next_state q ch \<noteq> 0" "mid_after r ch s = (s', c)"
  shows "mid_inv (next_state q ch) s' \<and> next_state (next_state q ch) (cv_role c) \<noteq> 0"
proof -
  from assms(1) obtain p where p: "fish_prefix q p" "fish_sum s = codes p" by (auto simp: mid_inv_def)
  from p(1) consider "q = st_A" "p = []" | "q = st_B" "p = ''>''" | "q = st_C" "p = ''><''"
    | "q = st_D" "p = ''><>''" | "q = st_D" "p = ''<><''" | "q = st_E" "p = ''<''" | "q = st_F" "p = ''<>''"
    by (auto simp: fish_prefix_def)
  then show ?thesis
    using assms(2,3) p(2)
    by cases (auto simp: mid_after_def mid_inv_def codes_def fish_prefix_def st_defs split: if_splits)
qed

lemma next_state_zero [simp]: "next_state 0 ch = 0"
  by (simp add: next_state_def rules_def st_defs)

lemma mid_prints_inv:
  assumes "foldl next_state st_A w \<noteq> 0" "length rs = length w"
  shows "\<exists>s c. mid_prints (zip rs w) (mid_init, None) = (s, c) \<and> mid_inv (foldl next_state st_A w) s \<and>
    (w \<noteq> [] \<longrightarrow> (\<exists>cv. c = Some cv \<and> next_state (foldl next_state st_A w) (cv_role cv) \<noteq> 0))"
  using assms
proof (induction w arbitrary: rs rule: rev_induct)
  case Nil
  then show ?case by (auto simp: mid_inv_def mid_init_def codes_def fish_prefix_def)
next
  case (snoc ch w)
  let ?q = "foldl next_state st_A w"
  from snoc.prems obtain rs' r where rs: "rs = rs' @ [r]" "length rs' = length w"
    by (cases rs rule: rev_cases) auto
  have q: "?q \<noteq> 0" "next_state ?q ch \<noteq> 0" using snoc.prems(1) by (auto intro: ccontr)
  from snoc.IH[OF q(1) rs(2)] obtain s c where s: "mid_prints (zip rs' w) (mid_init, None) = (s, c)" "mid_inv ?q s" by blast
  obtain s' cv where a: "mid_after r ch s = (s', cv)" by fastforce
  from mid_after_step[OF s(2) q(2) a] s(1) a rs show ?case
    by (auto simp: mid_prints_snoc)
qed

section \<open>Properties\<close>

text \<open>
  The two fish printers agree on who comes next. Whatever word the automaton of
  \<open>multi-threads/fish.c\<close> lets through, when \<open>fish_after\<close> of \<open>os-midterm/fish.c\<close> has seen it the
  condition it signals last is the one of a role that the automaton allows next, whatever \<open>rand\<close>
  returns; and its counter is zero exactly after complete fish.
\<close>

theorem mid_signals_who_comes_next:
  assumes "foldl next_state st_A w \<noteq> 0" "w \<noteq> []" "length rs = length w"
  shows "\<exists>s c. mid_prints (zip rs w) (mid_init, None) = (s, Some c) \<and>
    next_state (foldl next_state st_A w) (cv_role c) \<noteq> 0 \<and>
    (fish_sum s = 0 \<longleftrightarrow> foldl next_state st_A w = st_A)"
proof -
  have "fish_sum s = 0 \<longleftrightarrow> q = st_A" if "mid_inv q s" for q s
    using that by (auto simp: mid_inv_def fish_prefix_def codes_def st_defs)
  with mid_prints_inv[OF assms(1,3)] assms(2) show ?thesis by fastforce
qed

theorem mid_signals_who_comes_next_witness:
  "foldl next_state st_A ''<><_>'' \<noteq> 0 \<and>
   (\<exists>s c. mid_prints (zip [5, 1, 0, 7, 2] ''<><_>'') (mid_init, None) = (s, Some c) \<and>
     next_state (foldl next_state st_A ''<><_>'') (cv_role c) \<noteq> 0 \<and>
     (fish_sum s = 0 \<longleftrightarrow> foldl next_state st_A ''<><_>'' = st_A))"
proof -
  have "foldl next_state st_A ''<><_>'' \<noteq> 0" by (simp add: st_defs)
  with mid_signals_who_comes_next[of "''<><_>''" "[5, 1, 0, 7, 2]"] show ?thesis by simp
qed

text \<open>
  In this directory threads are numbered from 0, so the threads that \<open>main\<close> creates have exactly the
  roles of the array: five, four and three threads.
\<close>

lemma mid_main_roles:
  assumes "distinct as" "length as = length mid_roles"
  shows "\<exists>s :: ('f, 'j) runtime. mid_main as f runtime_init = Inr (mid_init, s) \<and>
    (\<forall>k < length mid_roles. \<exists>tid. entry_all (as ! k) s = Inr (f, tid) \<and> mid_thread_role tid = Inr (mid_roles ! k))"
proof -
  from create_many_list[OF thread_list_init, of as 0 f] assms obtain s where
    s: "create_many 0 as f (runtime_init :: ('f, 'j) runtime) = Inr s" "\<forall>k < length as. entry_all (as ! k) s = Inr (f, int k)"
    by (auto simp: mid_roles_def)
  have "mid_thread_role (int k) = Inr (mid_roles ! k)" if "k < length mid_roles" for k
    using that by (simp add: mid_thread_role_def role_at_def nth_append)
  moreover have "entry_all a (join None s) = entry_all a s" for a by (simp add: join_def entry_all_def)
  ultimately show ?thesis using s assms by (intro exI[of _ "join None s"]) (auto simp: mid_main_def)
qed

end
