(* ===== verification/PsTree.thy ===== *)
theory PsTree
  imports Prelude
begin

text \<open>
  \<open>tree/pstree_source_code.c\<close>, the process tree: \<open>struct Proc\<close>, \<open>get_pid_index\<close>,
  \<open>MakeTree\<close>, \<open>MarkChildren\<close>, \<open>MarkProcs\<close> and \<open>DropProcs\<close>.

  The table \<open>P\<close> is a list and \<open>NProc\<close> its length. The links \<open>parent\<close>, \<open>child\<close> and
  \<open>sister\<close> are indices into the table; the C value \<open>-1\<close> is \<open>None\<close>. Loops that follow links
  are \<open>partial_function\<close>s: their value is \<open>None\<close> when they run forever, and the lemmas show
  when they end.
\<close>

section \<open>Definitions\<close>

record proc =
  p_uid :: int
  p_pid :: int
  p_ppid :: int
  p_pgid :: int
  p_name :: string
  p_cmd :: string
  p_print :: bool
  p_parent :: "nat option"
  p_child :: "nat option"
  p_sister :: "nat option"
  p_thcount :: nat

text \<open>Assigning to fields of \<open>P[i]\<close>.\<close>

definition upd :: "nat \<Rightarrow> (proc \<Rightarrow> proc) \<Rightarrow> proc list \<Rightarrow> proc list" where
  "upd i f P = P[i := f (P ! i)]"

fun pid_index_below :: "proc list \<Rightarrow> int \<Rightarrow> nat \<Rightarrow> nat option" where
  "pid_index_below P pid 0 = None"
| "pid_index_below P pid (Suc me) =
     (if p_pid (P ! me) = pid then Some me else pid_index_below P pid me)"

definition get_pid_index :: "proc list \<Rightarrow> int \<Rightarrow> nat option" where
  "get_pid_index P pid = pid_index_below P pid (length P)"

definition make_node :: "nat \<Rightarrow> proc list \<Rightarrow> proc list option" where
  "make_node me P =
     (case get_pid_index P (p_ppid (P ! me)) of
        None \<Rightarrow> Some P
      | Some parent \<Rightarrow>
          if parent = me then Some P
          else
            let P1 = upd me (\<lambda>p. p\<lparr>p_parent := Some parent\<rparr>) P in
            (case p_child (P1 ! parent) of
               None \<Rightarrow> Some (upd parent (\<lambda>p. p\<lparr>p_child := Some me\<rparr>) P1)
             | Some c \<Rightarrow>
                 map_option (\<lambda>sister. upd sister (\<lambda>p. p\<lparr>p_sister := Some me\<rparr>) P1)
                   (chase (\<lambda>i. p_sister (P1 ! i)) c)))"

text \<open>The loops \<open>for (me = 0; me < NProc; me++)\<close>, over a body that may not end.\<close>

fun for_each :: "(nat \<Rightarrow> proc list \<Rightarrow> proc list option) \<Rightarrow> nat list \<Rightarrow> proc list \<Rightarrow> proc list option" where
  "for_each body [] P = Some P"
| "for_each body (me # ms) P = Option.bind (body me P) (for_each body ms)"

definition MakeTree :: "proc list \<Rightarrow> proc list option" where
  "MakeTree P = for_each make_node [0..<length P] P"

text \<open>\<open>mark_list c\<close> is the loop of \<open>MarkChildren\<close> from child \<open>c\<close> on, with the recursive calls
  it makes.\<close>

partial_function (option) mark_list :: "nat option \<Rightarrow> proc list \<Rightarrow> proc list option" where
  "mark_list c P =
     (case c of
        None \<Rightarrow> Some P
      | Some i \<Rightarrow>
          let P1 = upd i (\<lambda>p. p\<lparr>p_print := True\<rparr>) P in
          Option.bind (mark_list (p_child (P1 ! i)) P1) (\<lambda>P2. mark_list (p_sister (P2 ! i)) P2))"

definition MarkChildren :: "nat \<Rightarrow> proc list \<Rightarrow> proc list option" where
  "MarkChildren me P =
     (let P1 = upd me (\<lambda>p. p\<lparr>p_print := True\<rparr>) P in mark_list (p_child (P1 ! me)) P1)"

partial_function (option) mark_parents :: "nat option \<Rightarrow> proc list \<Rightarrow> proc list option" where
  "mark_parents q P =
     (case q of
        None \<Rightarrow> Some P
      | Some i \<Rightarrow>
          let P1 = upd i (\<lambda>p. p\<lparr>p_print := True\<rparr>) P in mark_parents (p_parent (P1 ! i)) P1)"

text \<open>The options that select processes: \<open>-u\<close>, \<open>-U\<close>, \<open>-p\<close> and \<open>-s\<close>.\<close>

record ps_options =
  showall :: bool
  soption :: bool
  Uoption :: bool
  opt_name :: string
  opt_str :: string
  ipid :: int
  MyPid :: int

definition strstr :: "string \<Rightarrow> string \<Rightarrow> bool" where
  "strstr s t = sublist t s"

definition selected :: "ps_options \<Rightarrow> proc \<Rightarrow> bool" where
  "selected opt p \<longleftrightarrow>
     p_name p = opt_name opt \<or> (Uoption opt \<and> p_name p \<noteq> ''root'') \<or> p_pid p = ipid opt \<or>
     (soption opt \<and> strstr (p_cmd p) (opt_str opt) \<and> p_pid p \<noteq> MyPid opt)"

definition mark_node :: "ps_options \<Rightarrow> nat \<Rightarrow> proc list \<Rightarrow> proc list option" where
  "mark_node opt me P =
     (if showall opt then Some (upd me (\<lambda>p. p\<lparr>p_print := True\<rparr>) P)
      else if selected opt (P ! me)
      then Option.bind (mark_parents (p_parent (P ! me)) P) (MarkChildren me)
      else Some P)"

definition MarkProcs :: "ps_options \<Rightarrow> proc list \<Rightarrow> proc list option" where
  "MarkProcs opt P = for_each (mark_node opt) [0..<length P] P"

partial_function (option) skip_hidden :: "proc list \<Rightarrow> nat option \<Rightarrow> nat option option" where
  "skip_hidden P c =
     (case c of
        None \<Rightarrow> Some None
      | Some i \<Rightarrow> if p_print (P ! i) then Some (Some i) else skip_hidden P (p_sister (P ! i)))"

definition drop_node :: "nat \<Rightarrow> proc list \<Rightarrow> proc list option" where
  "drop_node me P =
     (if p_print (P ! me)
      then Option.bind (skip_hidden P (p_child (P ! me))) (\<lambda>c.
        let P1 = upd me (\<lambda>p. p\<lparr>p_child := c\<rparr>) P in
        map_option (\<lambda>s. upd me (\<lambda>p. p\<lparr>p_sister := s\<rparr>) P1)
          (skip_hidden P1 (p_sister (P1 ! me))))
      else Some P)"

definition DropProcs :: "proc list \<Rightarrow> proc list option" where
  "DropProcs P = for_each drop_node [0..<length P] P"

section \<open>Lemmas on the table and its index\<close>

lemma length_upd [simp]: "length (upd i f P) = length P"
  by (simp add: upd_def)

lemma nth_upd: "i < length P \<Longrightarrow> upd i f P ! j = (if j = i then f (P ! i) else P ! j)"
  by (simp add: upd_def)

lemma pid_index_below_Some:
  "pid_index_below P pid n = Some i \<Longrightarrow> i < n \<and> p_pid (P ! i) = pid \<and> (\<forall>j. i < j \<and> j < n \<longrightarrow> p_pid (P ! j) \<noteq> pid)"
  by (induction n) (auto simp: less_Suc_eq split: if_splits)

lemma pid_index_below_None: "pid_index_below P pid n = None \<longleftrightarrow> (\<forall>i < n. p_pid (P ! i) \<noteq> pid)"
  by (induction n) (auto simp: less_Suc_eq)

lemma pid_index_below_cong:
  "(\<And>i. i < n \<Longrightarrow> p_pid (P ! i) = p_pid (Q ! i)) \<Longrightarrow> pid_index_below P pid n = pid_index_below Q pid n"
  by (induction n) auto

text \<open>The parent a process is given: the last process with its parent's pid, unless that is
  itself.\<close>

definition parent_of :: "proc list \<Rightarrow> nat \<Rightarrow> nat option" where
  "parent_of P m =
     (case get_pid_index P (p_ppid (P ! m)) of None \<Rightarrow> None | Some p \<Rightarrow> if p = m then None else Some p)"

definition kids :: "proc list \<Rightarrow> nat \<Rightarrow> nat list" where
  "kids P p = filter (\<lambda>m. parent_of P m = Some p) [0..<length P]"

text \<open>Two tables with the same processes, whatever their links and marks.\<close>

definition ident :: "proc \<Rightarrow> proc" where
  "ident p = p\<lparr>p_print := False, p_parent := None, p_child := None, p_sister := None\<rparr>"

definition same_ids :: "proc list \<Rightarrow> proc list \<Rightarrow> bool" where
  "same_ids P Q \<longleftrightarrow> length P = length Q \<and> (\<forall>i < length P. ident (P ! i) = ident (Q ! i))"

lemma ident_fields:
  assumes "ident p = ident q"
  shows "p_pid p = p_pid q" "p_ppid p = p_ppid q" "p_name p = p_name q" "p_cmd p = p_cmd q"
    "p_pgid p = p_pgid q" "p_thcount p = p_thcount q"
  using arg_cong[OF assms, of p_pid] arg_cong[OF assms, of p_ppid] arg_cong[OF assms, of p_name]
    arg_cong[OF assms, of p_cmd] arg_cong[OF assms, of p_pgid] arg_cong[OF assms, of p_thcount]
  by (simp_all add: ident_def)

lemma same_ids_refl [simp]: "same_ids P P"
  by (simp add: same_ids_def)

lemma same_ids_trans: "same_ids P Q \<Longrightarrow> same_ids Q R \<Longrightarrow> same_ids P R"
  by (simp add: same_ids_def)

lemma same_ids_get_pid_index: "same_ids P Q \<Longrightarrow> get_pid_index P pid = get_pid_index Q pid"
  unfolding get_pid_index_def
  using pid_index_below_cong[of "length Q" P Q pid] by (simp add: same_ids_def ident_fields(1)[of "P ! i" "Q ! i" for i])

lemma same_ids_parent_of: "same_ids P Q \<Longrightarrow> m < length P \<Longrightarrow> parent_of P m = parent_of Q m"
  using ident_fields(2)[of "P ! m" "Q ! m"] same_ids_get_pid_index[of P Q "p_ppid (P ! m)"]
  by (simp add: parent_of_def same_ids_def)

lemma same_ids_kids: "same_ids P Q \<Longrightarrow> kids P p = kids Q p"
  unfolding kids_def using same_ids_parent_of[of P Q]
  by (auto simp: same_ids_def intro!: filter_cong)

lemma get_pid_index_less: "get_pid_index P pid = Some i \<Longrightarrow> i < length P"
  using pid_index_below_Some by (auto simp: get_pid_index_def)

lemma parent_of_less: "parent_of P m = Some p \<Longrightarrow> p < length P \<and> p \<noteq> m"
  using get_pid_index_less by (auto simp: parent_of_def split: option.splits if_splits)

section \<open>MakeTree builds the tree of the parent relation\<close>

text \<open>
  \<open>linked k P\<close>: the first \<open>k\<close> processes are entered. Each has its parent, and the chain from
  \<open>child\<close> over \<open>sister\<close> lists the children entered so far in the order of the table.
\<close>

definition linked :: "nat \<Rightarrow> proc list \<Rightarrow> bool" where
  "linked k P \<longleftrightarrow>
     (\<forall>m < length P. p_parent (P ! m) = (if m < k then parent_of P m else None)) \<and>
     (\<forall>m < length P. k \<le> m \<or> parent_of P m = None \<longrightarrow> p_sister (P ! m) = None) \<and>
     (\<forall>p < length P. chain (\<lambda>i. p_sister (P ! i)) (p_child (P ! p))
        (filter (\<lambda>m. parent_of P m = Some p) [0..<k]))"

abbreviation tree_ok :: "proc list \<Rightarrow> bool" where
  "tree_ok P \<equiv> linked (length P) P"

definition unlinked :: "proc list \<Rightarrow> bool" where
  "unlinked P \<longleftrightarrow> (\<forall>p \<in> set P. p_parent p = None \<and> p_child p = None \<and> p_sister p = None)"

lemma linked_init: "unlinked P \<Longrightarrow> linked 0 P"
  by (auto simp: unlinked_def linked_def)

lemma same_ids_upd:
  assumes "\<And>p. ident (f p) = ident p"
  shows "same_ids (upd i f P) P"
  using assms by (cases "i < length P") (auto simp: same_ids_def upd_def nth_list_update list_update_beyond)

lemma tree_okD:
  assumes "tree_ok P" and "m < length P"
  shows "p_parent (P ! m) = parent_of P m" "parent_of P m = None \<Longrightarrow> p_sister (P ! m) = None"
    "chain (\<lambda>i. p_sister (P ! i)) (p_child (P ! m)) (kids P m)"
  using assms by (auto simp: linked_def kids_def)

lemma linked_same_ids:
  assumes ids: "same_ids Q P" and k: "k \<le> length P"
  shows "linked k Q \<longleftrightarrow>
     (\<forall>m < length P. p_parent (Q ! m) = (if m < k then parent_of P m else None)) \<and>
     (\<forall>m < length P. k \<le> m \<or> parent_of P m = None \<longrightarrow> p_sister (Q ! m) = None) \<and>
     (\<forall>p < length P. chain (\<lambda>i. p_sister (Q ! i)) (p_child (Q ! p))
        (filter (\<lambda>m. parent_of P m = Some p) [0..<k]))"
proof -
  have len: "length Q = length P" using ids by (simp add: same_ids_def)
  have par: "m < length P \<Longrightarrow> parent_of Q m = parent_of P m" for m
    using same_ids_parent_of[OF ids] len by simp
  have "filter (\<lambda>m. parent_of Q m = Some p) [0..<k] = filter (\<lambda>m. parent_of P m = Some p) [0..<k]" for p
    by (rule filter_cong) (use par k in auto)
  then show ?thesis by (simp add: linked_def len par)
qed

lemma make_node_root:
  assumes "linked k P" and "k < length P" and "parent_of P k = None"
  shows "make_node k P = Some P \<and> linked (Suc k) P"
proof -
  have "make_node k P = Some P"
    using assms(3) by (auto simp: make_node_def parent_of_def split: option.splits if_splits)
  moreover have "linked (Suc k) P"
    using assms by (auto simp: linked_def less_Suc_eq)
  ultimately show ?thesis by blast
qed

lemma make_node_child:
  assumes l: "linked k P" and k: "k < length P" and p: "parent_of P k = Some p"
  shows "\<exists>Q. make_node k P = Some Q \<and> linked (Suc k) Q \<and> same_ids Q P"
proof -
  let ?kids = "\<lambda>q. filter (\<lambda>m. parent_of P m = Some q) [0..<k]"
  let ?f = "\<lambda>i. p_sister (P ! i)"
  let ?P1 = "upd k (\<lambda>x. x\<lparr>p_parent := Some p\<rparr>) P"
  from parent_of_less[OF p] have pl: "p < length P" "p \<noteq> k" by auto
  have g: "get_pid_index P (p_ppid (P ! k)) = Some p"
    using p by (auto simp: parent_of_def split: option.splits if_splits)
  have ch: "chain ?f (p_child (P ! q)) (?kids q)" if "q < length P" for q
    using l that by (simp add: linked_def)
  have f1: "(\<lambda>i. p_sister (?P1 ! i)) = ?f" and c1: "p_child (?P1 ! q) = p_child (P ! q)" for q
    using k by (auto simp: nth_upd)
  show ?thesis
  proof (cases "p_child (P ! p)")
    case None
    let ?Q = "upd p (\<lambda>x. x\<lparr>p_child := Some k\<rparr>) ?P1"
    have m: "make_node k P = Some ?Q"
      using g pl None by (simp add: make_node_def c1 Let_def)
    have ids: "same_ids ?Q P"
      by (rule same_ids_trans[OF same_ids_upd same_ids_upd]) (simp_all add: ident_def)
    from None ch[OF pl(1)] have "?kids p = []" by simp
    have sis: "p_sister (?Q ! i) = ?f i" for i using k pl by (simp add: nth_upd)
    have "chain ?f (p_child (?Q ! q)) (filter (\<lambda>m. parent_of P m = Some q) [0..<Suc k])"
      if "q < length P" for q
      using ch[OF that] l k pl p \<open>?kids p = []\<close> by (auto simp: nth_upd linked_def)
    moreover have "p_parent (?Q ! m) = (if m < Suc k then parent_of P m else None)" if "m < length P" for m
      using l k pl p that by (auto simp: nth_upd linked_def less_Suc_eq)
    ultimately have "linked (Suc k) ?Q"
      using l k by (subst linked_same_ids[OF ids]) (auto simp: sis linked_def)
    with m ids show ?thesis by blast
  next
    case (Some c)
    then obtain ks z where ks: "?kids p = ks @ [z]" using ch[OF pl(1)]
      by (cases "?kids p" rule: rev_cases) auto
    from ch[OF pl(1)] Some ks have z: "chase ?f c = Some z" by (simp add: chase_chain)
    let ?Q = "upd z (\<lambda>x. x\<lparr>p_sister := Some k\<rparr>) ?P1"
    have m: "make_node k P = Some ?Q"
      using g pl Some z by (simp add: make_node_def c1 f1 Let_def)
    have ids: "same_ids ?Q P"
      by (rule same_ids_trans[OF same_ids_upd same_ids_upd]) (simp_all add: ident_def)
    have "z \<in> set (?kids p)" by (simp add: ks)
    then have zk: "z < k" "parent_of P z = Some p" by auto
    have sis: "(\<lambda>i. p_sister (?Q ! i)) = ?f(z := Some k)"
      using k zk by (auto simp: nth_upd)
    have kf: "?f k = None" using l k by (simp add: linked_def)
    have "chain (?f(z := Some k)) (p_child (?Q ! q)) (filter (\<lambda>m. parent_of P m = Some q) [0..<Suc k])"
      if "q < length P" for q
    proof -
      have cq: "p_child (?Q ! q) = p_child (P ! q)" using k zk by (simp add: nth_upd)
      show ?thesis
      proof (cases "q = p")
        case True
        have "k \<notin> set (ks @ [z])" by (simp only: ks[symmetric]) simp
        with chain_link[of ?f "p_child (P ! p)" ks z k] ch[OF pl(1)] ks kf
        have "chain (?f(z := Some k)) (p_child (P ! p)) (?kids p @ [k])" by simp
        with True p cq show ?thesis by simp
      next
        case False
        then have "z \<notin> set (?kids q)" using zk by auto
        with ch[OF that] False p cq show ?thesis by simp
      qed
    qed
    moreover have "p_parent (?Q ! m) = (if m < Suc k then parent_of P m else None)" if "m < length P" for m
      using l k zk p that by (auto simp: nth_upd linked_def less_Suc_eq)
    moreover have "p_sister (?Q ! m) = None" if "m < length P" "Suc k \<le> m \<or> parent_of P m = None" for m
      using l k zk that by (auto simp: sis[THEN fun_cong] linked_def)
    ultimately have "linked (Suc k) ?Q"
      using k by (subst linked_same_ids[OF ids]) (auto simp: sis)
    with m ids show ?thesis by blast
  qed
qed

lemma make_node_linked:
  assumes "linked k P" and "k < length P"
  shows "\<exists>Q. make_node k P = Some Q \<and> linked (Suc k) Q \<and> same_ids Q P"
  using make_node_root[OF assms] make_node_child[OF assms] by (cases "parent_of P k") auto

lemma for_each_upt:
  assumes step: "\<And>k P. k < n \<Longrightarrow> J k P \<Longrightarrow> \<exists>Q. body k P = Some Q \<and> J (Suc k) Q"
    and "J j P" and "j \<le> n"
  shows "\<exists>Q. for_each body [j..<n] P = Some Q \<and> J n Q"
  using assms(2,3)
proof (induction "n - j" arbitrary: j P)
  case 0
  then show ?case by simp
next
  case (Suc d)
  then have j: "j < n" by simp
  from step[OF j Suc.prems(1)] obtain R where "body j P = Some R" "J (Suc j) R" by blast
  with Suc.hyps(1)[of "Suc j" R] Suc.hyps(2) j show ?case by (simp add: upt_conv_Cons)
qed

lemma MakeTree_ok:
  assumes "unlinked P"
  shows "\<exists>Q. MakeTree P = Some Q \<and> tree_ok Q \<and> same_ids Q P"
proof -
  let ?inv = "\<lambda>k Q. linked k Q \<and> same_ids Q P"
  have "\<exists>R. make_node k Q = Some R \<and> ?inv (Suc k) R" if "k < length P" "?inv k Q" for k Q
    using make_node_linked[of k Q] that same_ids_trans by (auto simp: same_ids_def)
  from for_each_upt[of "length P" ?inv make_node, OF this, of 0 P] linked_init[OF assms]
  obtain Q where "MakeTree P = Some Q" "linked (length P) Q" "same_ids Q P"
    by (auto simp: MakeTree_def)
  then show ?thesis by (auto simp: same_ids_def)
qed

section \<open>Forests and marks\<close>

text \<open>
  \<open>up P\<close> relates a process to its parent. The table is a forest when following parents always
  ends; a table of a running system is one, but a table read from a file need not be.
\<close>

definition up :: "proc list \<Rightarrow> (nat \<times> nat) set" where
  "up P = {(m, p). m < length P \<and> parent_of P m = Some p}"

definition rooted :: "proc list \<Rightarrow> nat \<Rightarrow> bool" where
  "rooted P m \<longleftrightarrow> (\<exists>xs. chain (parent_of P) (parent_of P m) xs)"

definition forest :: "proc list \<Rightarrow> bool" where
  "forest P \<longleftrightarrow> (\<forall>m < length P. \<exists>xs. chain (parent_of P) (parent_of P m) xs)"

text \<open>What the passes need: every selected process is rooted, or nothing is selected.\<close>

definition grounded :: "ps_options \<Rightarrow> proc list \<Rightarrow> bool" where
  "grounded opt P \<longleftrightarrow> showall opt \<or> (\<forall>m < length P. selected opt (P ! m) \<longrightarrow> rooted P m)"

lemma forest_rooted: "forest P \<longleftrightarrow> (\<forall>m < length P. rooted P m)"
  by (simp add: forest_def rooted_def)

lemma forest_grounded: "forest P \<Longrightarrow> grounded opt P"
  by (simp add: grounded_def forest_rooted)

lemma up_less: "(m, p) \<in> up P \<Longrightarrow> m < length P \<and> p < length P"
  using parent_of_less by (auto simp: up_def)

lemma up_rtrancl_less: "(m, p) \<in> (up P)\<^sup>* \<Longrightarrow> m < length P \<Longrightarrow> p < length P"
  by (induction rule: rtrancl_induct) (auto dest: up_less)

lemma up_rtrancl_less': "(m, p) \<in> (up P)\<^sup>* \<Longrightarrow> p < length P \<Longrightarrow> m < length P"
  by (induction rule: converse_rtrancl_induct) (auto dest: up_less)

lemma same_ids_up: "same_ids P Q \<Longrightarrow> up P = up Q"
  using same_ids_parent_of[of P Q] by (auto simp: up_def same_ids_def)

lemma chain_parents_cong:
  assumes "\<And>m. m < length P \<Longrightarrow> f m = parent_of P m"
  shows "chain (parent_of P) q xs \<Longrightarrow> (\<And>p. q = Some p \<Longrightarrow> p < length P) \<Longrightarrow> chain f q xs"
  using assms by (induction xs arbitrary: q) (auto dest: parent_of_less)

lemma same_ids_rooted:
  assumes ids: "same_ids P Q" and m: "m < length P"
  shows "rooted P m \<longleftrightarrow> rooted Q m"
proof -
  have len: "length P = length Q" using ids by (simp add: same_ids_def)
  have par: "k < length P \<Longrightarrow> parent_of P k = parent_of Q k" for k
    by (rule same_ids_parent_of[OF ids])
  have "chain (parent_of P) (parent_of P m) xs \<longleftrightarrow> chain (parent_of Q) (parent_of Q m) xs" for xs
    using chain_parents_cong[of Q "parent_of P" "parent_of Q m" xs]
      chain_parents_cong[of P "parent_of Q" "parent_of P m" xs] par m len
    by (metis parent_of_less)
  then show ?thesis by (simp add: rooted_def)
qed

lemma same_ids_forest: "same_ids P Q \<Longrightarrow> forest Q \<Longrightarrow> forest P"
  using same_ids_rooted by (metis forest_rooted same_ids_def)

lemma same_ids_selected:
  assumes "same_ids P Q" and "m < length P"
  shows "selected opt (P ! m) = selected opt (Q ! m)"
  using assms ident_fields[of "P ! m" "Q ! m"] by (simp add: selected_def same_ids_def)

lemma same_ids_grounded: "same_ids P Q \<Longrightarrow> grounded opt P \<longleftrightarrow> grounded opt Q"
  using same_ids_rooted[of P Q] same_ids_selected[of P Q]
  by (auto simp: grounded_def same_ids_def)

lemma finite_up: "finite (up P)"
  by (rule finite_subset[of _ "{..<length P} \<times> {..<length P}"]) (auto dest: up_less)

lemma rooted_kid: "(k, p) \<in> up P \<Longrightarrow> rooted P p \<Longrightarrow> rooted P k"
  unfolding rooted_def up_def by (auto intro: exI[of _ "p # xs" for xs])

lemma rooted_wf: "wf {(m, p) \<in> up P. rooted P p}"
proof -
  let ?R = "{(m, p) \<in> up P. rooted P p}"
  let ?len = "\<lambda>m. length (SOME xs. chain (parent_of P) (parent_of P m) xs)"
  have "?len m = Suc (?len p)" if mp: "(m, p) \<in> ?R" for m p
  proof -
    from mp obtain xs where xs: "chain (parent_of P) (parent_of P p) xs"
      by (auto simp: rooted_def)
    with mp have "chain (parent_of P) (parent_of P m) (p # xs)" by (simp add: up_def)
    with xs chain_functional have "(SOME ys. chain (parent_of P) (parent_of P m) ys) = p # xs"
      and "(SOME ys. chain (parent_of P) (parent_of P p) ys) = xs" by (metis someI)+
    then show ?thesis by simp
  qed
  then have "?R\<inverse> \<subseteq> measure ?len" by auto
  then have "wf (?R\<inverse>)" by (rule wf_subset[OF wf_measure])
  from wf_acyclic[OF this] have "acyclic ?R" by (simp only: acyclic_converse)
  moreover have "finite ?R" by (rule finite_subset[OF _ finite_up]) auto
  ultimately show ?thesis by (rule finite_acyclic_wf[rotated])
qed

lemma forest_wf: "forest P \<Longrightarrow> wf (up P)"
  using rooted_wf[of P] up_less by (auto simp: forest_rooted elim!: wf_subset)

definition mark_set :: "nat set \<Rightarrow> proc list \<Rightarrow> proc list" where
  "mark_set S P =
     map (\<lambda>i. if i \<in> S then (P ! i)\<lparr>p_print := True\<rparr> else P ! i) [0..<length P]"

lemma length_mark_set [simp]: "length (mark_set S P) = length P"
  by (simp add: mark_set_def)

lemma nth_mark_set [simp]:
  "i < length P \<Longrightarrow> mark_set S P ! i = (if i \<in> S then (P ! i)\<lparr>p_print := True\<rparr> else P ! i)"
  by (simp add: mark_set_def)

lemma mark_set_mark_set [simp]: "mark_set S (mark_set T P) = mark_set (S \<union> T) P"
  by (rule nth_equalityI) auto

lemma mark_set_empty [simp]: "mark_set {} P = P"
  by (rule nth_equalityI) auto

lemma mark_one:
  "i < length P \<Longrightarrow> upd i (\<lambda>p. p\<lparr>p_print := True\<rparr>) (mark_set S P) = mark_set (insert i S) P"
  by (rule nth_equalityI) (auto simp: nth_upd)

lemma mark_set_links [simp]:
  assumes "i < length P"
  shows "p_child (mark_set S P ! i) = p_child (P ! i)" "p_sister (mark_set S P ! i) = p_sister (P ! i)"
    "p_parent (mark_set S P ! i) = p_parent (P ! i)"
  using assms by simp_all

lemma same_ids_mark_set: "same_ids (mark_set S P) P"
  by (auto simp: same_ids_def ident_def)

lemma tree_ok_links:
  assumes "same_ids Q P" and "tree_ok P"
    and "\<And>i. i < length P \<Longrightarrow> p_parent (Q ! i) = p_parent (P ! i) \<and> p_child (Q ! i) = p_child (P ! i) \<and>
      p_sister (Q ! i) = p_sister (P ! i)"
  shows "tree_ok Q"
proof -
  have len: "length Q = length P" using assms(1) by (simp add: same_ids_def)
  have "chain (\<lambda>i. p_sister (Q ! i)) c (filter (\<lambda>m. parent_of P m = Some p) [0..<length P]) \<longleftrightarrow>
    chain (\<lambda>i. p_sister (P ! i)) c (filter (\<lambda>m. parent_of P m = Some p) [0..<length P])" for c p
    by (rule chain_cong) (use assms(3) in auto)
  with assms(2,3) show ?thesis
    unfolding len linked_same_ids[OF assms(1) le_refl] by (simp add: linked_def)
qed

lemma tree_ok_mark_set: "tree_ok P \<Longrightarrow> tree_ok (mark_set S P)"
  by (rule tree_ok_links[OF same_ids_mark_set]) auto

lemmas mark_set_tree = same_ids_kids[OF same_ids_mark_set] same_ids_up[OF same_ids_mark_set]

definition below :: "proc list \<Rightarrow> nat \<Rightarrow> nat set" where
  "below P c = {m. (m, c) \<in> (up P)\<^sup>*}"

lemma below_kids: "c < length P \<Longrightarrow> below P c = insert c (\<Union>k \<in> set (kids P c). below P k)"
proof -
  have "(k, c) \<in> up P \<longleftrightarrow> k \<in> set (kids P c)" for k by (auto simp: kids_def up_def)
  then show ?thesis
    unfolding below_def by (auto intro: rtrancl_into_rtrancl elim: rtranclE)
qed

lemma kids_less: "k \<in> set (kids P c) \<Longrightarrow> k < length P"
  by (simp add: kids_def)

lemma mark_siblings:
  assumes IH: "\<And>k S. k \<in> set ks \<Longrightarrow>
      mark_list (p_child (P ! k)) (mark_set S P) = Some (mark_set (S \<union> (\<Union>j \<in> set (kids P k). below P j)) P)"
    and "chain (\<lambda>i. p_sister (P ! i)) c ks" and "\<forall>k \<in> set ks. k < length P"
  shows "mark_list c (mark_set S P) = Some (mark_set (S \<union> (\<Union>k \<in> set ks. below P k)) P)"
  using assms
proof (induction ks arbitrary: c S)
  case Nil
  then show ?case by (simp add: mark_list.simps)
next
  case (Cons k ks)
  then have k: "k < length P" and c: "c = Some k" by auto
  let ?D = "\<Union>j \<in> set (kids P k). below P j"
  have s: "mark_list (p_child (P ! k)) (mark_set (insert k S) P) = Some (mark_set (insert k S \<union> ?D) P)"
    using Cons.prems(1)[of k "insert k S"] by simp
  have "mark_list (p_sister (P ! k)) (mark_set (insert k S \<union> ?D) P) =
      Some (mark_set ((insert k S \<union> ?D) \<union> (\<Union>k \<in> set ks. below P k)) P)"
    using Cons.prems by (intro Cons.IH) auto
  moreover have "(insert k S \<union> ?D) \<union> (\<Union>k \<in> set ks. below P k) = S \<union> (\<Union>k \<in> set (k # ks). below P k)"
    using below_kids[OF k] by auto
  ultimately show ?case
    using k s by (subst mark_list.simps) (simp add: c mark_one Let_def)
qed

lemma mark_descendants:
  assumes "rooted P i" and "tree_ok P" and "i < length P"
  shows "mark_list (p_child (P ! i)) (mark_set S P) =
    Some (mark_set (S \<union> (\<Union>j \<in> set (kids P i). below P j)) P)"
  using rooted_wf[of P] assms(1,3)
proof (induction i arbitrary: S rule: wf_induct_rule)
  case (less i)
  show ?case
  proof (rule mark_siblings)
    show "chain (\<lambda>i. p_sister (P ! i)) (p_child (P ! i)) (kids P i)"
      using tree_okD(3)[OF assms(2) less.prems(2)] .
    show "\<forall>k \<in> set (kids P i). k < length P" by (simp add: kids_less)
    fix k S
    assume "k \<in> set (kids P i)"
    then have k: "(k, i) \<in> up P" "k < length P" by (auto simp: kids_def up_def)
    with less.prems have "(k, i) \<in> {(m, p) \<in> up P. rooted P p}" by simp
    from less.IH[OF this rooted_kid[OF k(1) less.prems(1)] k(2)]
    show "mark_list (p_child (P ! k)) (mark_set S P) =
        Some (mark_set (S \<union> (\<Union>j \<in> set (kids P k). below P j)) P)" .
  qed
qed

lemma MarkChildren_marks:
  assumes "rooted P i" and "tree_ok P" and "i < length P"
  shows "MarkChildren i (mark_set S P) = Some (mark_set (S \<union> below P i) P)"
proof -
  have "insert i S \<union> (\<Union>j \<in> set (kids P i). below P j) = S \<union> below P i"
    using below_kids[OF assms(3)] by auto
  with mark_descendants[OF assms, of "insert i S"] assms(3) show ?thesis
    by (simp add: MarkChildren_def mark_one Let_def)
qed

lemma up_trancl_chain:
  assumes "chain (parent_of P) (parent_of P m) xs" and "m < length P"
  shows "set xs = {p. (m, p) \<in> (up P)\<^sup>+}"
  using assms
proof (induction xs arbitrary: m)
  case Nil
  then show ?case by (auto simp: up_def dest: tranclD)
next
  case (Cons x xs)
  then have mx: "(m, x) \<in> up P" and x: "x < length P" and u: "\<And>p. (m, p) \<in> up P \<Longrightarrow> p = x"
    using parent_of_less by (auto simp: up_def)
  have "(m, p) \<in> (up P)\<^sup>+ \<longleftrightarrow> p = x \<or> (x, p) \<in> (up P)\<^sup>+" for p
    using mx u by (metis r_into_trancl rtranclD trancl_into_trancl2 tranclD)
  then have "{p. (m, p) \<in> (up P)\<^sup>+} = insert x {p. (x, p) \<in> (up P)\<^sup>+}" by auto
  moreover from Cons x have "set xs = {p. (x, p) \<in> (up P)\<^sup>+}" by simp
  ultimately show ?case by simp
qed

lemma mark_parents_marks:
  assumes "tree_ok P" and "chain (parent_of P) q xs" and "\<forall>x \<in> set xs. x < length P"
  shows "mark_parents q (mark_set S P) = Some (mark_set (S \<union> set xs) P)"
  using assms(2,3)
proof (induction xs arbitrary: q S)
  case Nil
  then show ?case by (simp add: mark_parents.simps)
next
  case (Cons x xs)
  then have x: "x < length P" "q = Some x" by auto
  with Cons tree_okD(1)[OF assms(1) x(1)] Cons.IH[of "parent_of P x" "insert x S"] show ?case
    by (subst mark_parents.simps) (simp add: mark_one Let_def)
qed

text \<open>The processes shown: the selected ones with all their ancestors and descendants.\<close>

definition family :: "ps_options \<Rightarrow> proc list \<Rightarrow> nat \<Rightarrow> nat set" where
  "family opt P k =
     {i. i < length P \<and> (if showall opt then i < k
        else \<exists>m < k. selected opt (P ! m) \<and> ((m, i) \<in> (up P)\<^sup>* \<or> (i, m) \<in> (up P)\<^sup>*))}"

lemma selected_mark [simp]: "selected opt (p\<lparr>p_print := b\<rparr>) = selected opt p"
  by (simp add: selected_def)

lemma mark_node_marks:
  assumes f: "grounded opt P" and t: "tree_ok P" and k: "k < length P"
  shows "mark_node opt k (mark_set (family opt P k) P) = Some (mark_set (family opt P (Suc k)) P)"
proof (cases "showall opt")
  case True
  then have "insert k (family opt P k) = family opt P (Suc k)"
    using k by (auto simp: family_def less_Suc_eq)
  with True k show ?thesis by (simp add: mark_node_def mark_one)
next
  case False
  show ?thesis
  proof (cases "selected opt (P ! k)")
    case True
    with f k False have ro: "rooted P k" by (auto simp: grounded_def)
    then obtain xs where xs: "chain (parent_of P) (parent_of P k) xs" by (auto simp: rooted_def)
    from up_trancl_chain[OF xs k] have anc: "set xs = {p. (k, p) \<in> (up P)\<^sup>+}" .
    then have "\<forall>x \<in> set xs. x < length P" using up_less by (auto elim: tranclE)
    from mark_parents_marks[OF t xs this] k tree_okD(1)[OF t k]
      MarkChildren_marks[OF ro t k] True False
    have "mark_node opt k (mark_set (family opt P k) P) =
        Some (mark_set (family opt P k \<union> set xs \<union> below P k) P)"
      by (simp add: mark_node_def)
    moreover have "family opt P k \<union> set xs \<union> below P k = family opt P (Suc k)"
    proof -
      have "i \<in> set xs \<union> below P k \<longleftrightarrow> (k, i) \<in> (up P)\<^sup>* \<or> (i, k) \<in> (up P)\<^sup>*" for i
        unfolding anc below_def by (auto simp: rtrancl_eq_or_trancl)
      moreover have "i < length P" if "(k, i) \<in> (up P)\<^sup>* \<or> (i, k) \<in> (up P)\<^sup>*" for i
        using that k up_rtrancl_less up_rtrancl_less' by blast
      ultimately show ?thesis
        using True False unfolding family_def less_Suc_eq by (intro set_eqI) (simp, blast)
    qed
    ultimately show ?thesis by simp
  next
    case unsel: False
    then have "family opt P (Suc k) = family opt P k"
      using False by (auto simp: family_def less_Suc_eq)
    with False unsel k show ?thesis by (simp add: mark_node_def)
  qed
qed

lemma MarkProcs_marks:
  assumes f: "grounded opt P" and t: "tree_ok P"
  shows "MarkProcs opt P = Some (mark_set (family opt P (length P)) P)"
proof -
  let ?J = "\<lambda>k Q. Q = mark_set (family opt P k) P"
  have "\<exists>Q. mark_node opt k R = Some Q \<and> ?J (Suc k) Q" if "k < length P" "?J k R" for k R
    using mark_node_marks[OF f t that(1)] that(2) by blast
  then have "\<exists>Q. for_each (mark_node opt) [0..<length P] P = Some Q \<and> ?J (length P) Q"
    by (rule for_each_upt) (simp_all add: family_def)
  then show ?thesis by (simp add: MarkProcs_def)
qed

text \<open>
  The converse: if \<open>MarkProcs\<close> ends, the parents of every selected process end. Whatever the
  links, the loops change nothing but marks (\<open>unmarked\<close>).
\<close>

definition unmarked :: "proc list \<Rightarrow> proc list" where
  "unmarked P = map (\<lambda>p. p\<lparr>p_print := False\<rparr>) P"

lemma unmarked_upd [simp]: "unmarked (upd i (\<lambda>p. p\<lparr>p_print := True\<rparr>) P) = unmarked P"
  by (cases "i < length P")
     (auto simp: unmarked_def upd_def map_update list_update_beyond intro!: nth_equalityI simp: nth_list_update)

lemma unmarked_nth:
  assumes "unmarked P = unmarked Q" and "i < length P"
  shows "p_parent (P ! i) = p_parent (Q ! i)" "ident (P ! i) = ident (Q ! i)"
proof -
  have "length P = length Q" using arg_cong[OF assms(1), of length] by (simp add: unmarked_def)
  then have "(P ! i)\<lparr>p_print := False\<rparr> = (Q ! i)\<lparr>p_print := False\<rparr>"
    using arg_cong[OF assms(1), of "\<lambda>R. R ! i"] assms(2) by (simp add: unmarked_def)
  from arg_cong[OF this, of p_parent] arg_cong[OF this, of ident]
  show "p_parent (P ! i) = p_parent (Q ! i)" "ident (P ! i) = ident (Q ! i)"
    by (simp_all add: ident_def)
qed

lemma unmarked_same_ids: "unmarked P = unmarked Q \<Longrightarrow> same_ids P Q"
  using unmarked_nth(2)[of P Q] by (auto simp: same_ids_def unmarked_def dest: map_eq_imp_length_eq)

lemma mark_list_unmarked: "mark_list c P = Some R \<Longrightarrow> unmarked R = unmarked P"
proof (rule mark_list.raw_induct[where Pa = "\<lambda>(c, P) R. unmarked R = unmarked P", unfolded prod.case])
  fix ml c P R
  assume IH: "\<And>c P R. ml c P = Some R \<Longrightarrow> unmarked R = unmarked P"
    and e: "(case c of None \<Rightarrow> Some P | Some i \<Rightarrow>
      let P1 = upd i (\<lambda>p. p\<lparr>p_print := True\<rparr>) P
      in Option.bind (ml (p_child (P1 ! i)) P1) (\<lambda>P2. ml (p_sister (P2 ! i)) P2)) = Some R"
  show "unmarked R = unmarked P"
  proof (cases c)
    case None
    with e show ?thesis by simp
  next
    case (Some i)
    let ?P1 = "upd i (\<lambda>p. p\<lparr>p_print := True\<rparr>) P"
    from e Some obtain P2 where "ml (p_child (?P1 ! i)) ?P1 = Some P2" "ml (p_sister (P2 ! i)) P2 = Some R"
      by (auto simp: Let_def bind_eq_Some_conv)
    from IH[OF this(1)] IH[OF this(2)] show ?thesis by simp
  qed
qed

lemma p_parent_mark [simp]: "p_parent (upd i (\<lambda>p. p\<lparr>p_print := True\<rparr>) P ! k) = p_parent (P ! k)"
  by (cases "i < length P") (auto simp: upd_def nth_list_update list_update_beyond)

lemma mark_parents_chain:
  "mark_parents q P = Some R \<Longrightarrow> unmarked R = unmarked P \<and> (\<exists>xs. chain (\<lambda>i. p_parent (P ! i)) q xs)"
proof (rule mark_parents.raw_induct[where Pa = "\<lambda>(q, P) R. unmarked R = unmarked P \<and>
    (\<exists>xs. chain (\<lambda>i. p_parent (P ! i)) q xs)", unfolded prod.case])
  fix mp q P R
  assume IH: "\<And>q P R. mp q P = Some R \<Longrightarrow>
      unmarked R = unmarked P \<and> (\<exists>xs. chain (\<lambda>i. p_parent (P ! i)) q xs)"
    and e: "(case q of None \<Rightarrow> Some P | Some i \<Rightarrow>
      let P1 = upd i (\<lambda>p. p\<lparr>p_print := True\<rparr>) P in mp (p_parent (P1 ! i)) P1) = Some R"
  show "unmarked R = unmarked P \<and> (\<exists>xs. chain (\<lambda>i. p_parent (P ! i)) q xs)"
  proof (cases q)
    case None
    with e show ?thesis by (auto intro: exI[of _ "[]"])
  next
    case (Some i)
    let ?P1 = "upd i (\<lambda>p. p\<lparr>p_print := True\<rparr>) P"
    from e Some have "mp (p_parent (?P1 ! i)) ?P1 = Some R" by (simp add: Let_def)
    from IH[OF this] obtain xs where "unmarked R = unmarked P" "chain (\<lambda>i. p_parent (P ! i)) (p_parent (P ! i)) xs"
      by auto
    with Some show ?thesis by (auto intro: exI[of _ "i # xs"])
  qed
qed

lemma mark_node_unmarked: "mark_node opt me P = Some R \<Longrightarrow> unmarked R = unmarked P"
  by (auto simp: mark_node_def MarkChildren_def Let_def bind_eq_Some_conv
    dest!: mark_list_unmarked mark_parents_chain split: if_splits)

lemma for_each_mark_chains:
  assumes "for_each (mark_node opt) ms P = Some R" and "\<not> showall opt" and "m \<in> set ms"
    and "m < length P" and "selected opt (P ! m)"
  shows "\<exists>Q xs. unmarked Q = unmarked P \<and> chain (\<lambda>i. p_parent (Q ! i)) (p_parent (P ! m)) xs"
  using assms(1,3-)
proof (induction ms arbitrary: P)
  case (Cons k ms)
  from Cons.prems(1) obtain P1 where P1: "mark_node opt k P = Some P1" "for_each (mark_node opt) ms P1 = Some R"
    by (auto simp: bind_eq_Some_conv)
  from mark_node_unmarked[OF P1(1)] have u: "unmarked P1 = unmarked P" .
  show ?case
  proof (cases "m = k")
    case True
    with P1(1) Cons.prems assms(2) obtain P2 where "mark_parents (p_parent (P ! m)) P = Some P2"
      by (auto simp: mark_node_def bind_eq_Some_conv)
    from mark_parents_chain[OF this] show ?thesis by blast
  next
    case False
    have len: "length P1 = length P" using arg_cong[OF u, of length] by (simp add: unmarked_def)
    have "selected opt (P1 ! m)" "p_parent (P1 ! m) = p_parent (P ! m)"
      using same_ids_selected[OF unmarked_same_ids[OF u]] unmarked_nth(1)[OF u] Cons.prems len by auto
    with Cons.IH[OF P1(2)] False Cons.prems len u show ?thesis by auto
  qed
qed simp

lemma MarkProcs_hangs:
  assumes t: "tree_ok P" and g: "\<not> grounded opt P"
  shows "MarkProcs opt P = None"
proof (rule ccontr)
  assume "MarkProcs opt P \<noteq> None"
  then obtain R where R: "for_each (mark_node opt) [0..<length P] P = Some R" by (auto simp: MarkProcs_def)
  from g obtain m where m: "\<not> showall opt" "m < length P" "selected opt (P ! m)" "\<not> rooted P m"
    by (auto simp: grounded_def)
  from for_each_mark_chains[OF R m(1) _ m(2,3)] m(2) obtain Q xs where
    Q: "unmarked Q = unmarked P" "chain (\<lambda>i. p_parent (Q ! i)) (p_parent (P ! m)) xs" by auto
  have len: "length Q = length P" using arg_cong[OF Q(1), of length] by (simp add: unmarked_def)
  have par: "p_parent (Q ! k) = parent_of P k" if "k < length P" for k
    using unmarked_nth(1)[OF Q(1)] tree_okD(1)[OF t that] that len by simp
  have "chain (parent_of P) q xs"
    if "chain (\<lambda>i. p_parent (Q ! i)) q xs" "\<And>p. q = Some p \<Longrightarrow> p < length P" for q xs
    using that
  proof (induction xs arbitrary: q)
    case (Cons x xs)
    then have "x < length P" by simp
    with Cons par[OF this] show ?case by (auto dest: parent_of_less)
  qed simp
  from this[OF Q(2)] tree_okD(1)[OF t m(2)] have "rooted P m"
    by (auto simp: rooted_def dest: parent_of_less)
  with m(4) show False by simp
qed

section \<open>DropProcs keeps the shown processes linked\<close>

definition younger :: "proc list \<Rightarrow> nat \<Rightarrow> nat list" where
  "younger P m = (case parent_of P m of None \<Rightarrow> [] | Some p \<Rightarrow> filter (\<lambda>j. m < j) (kids P p))"

abbreviation shown :: "proc list \<Rightarrow> nat \<Rightarrow> bool" where
  "shown P \<equiv> \<lambda>i. p_print (P ! i)"

lemma kids_split:
  assumes "kids P p = ys @ m # zs"
  shows "filter (\<lambda>j. m < j) (kids P p) = zs"
proof -
  have "sorted_wrt (<) (kids P p)" by (simp add: kids_def sorted_wrt_filter)
  then have "\<forall>y \<in> set ys. y < m" "\<forall>z \<in> set zs. m < z" unfolding assms by (auto simp: sorted_wrt_append)
  then show ?thesis unfolding assms by (auto simp: filter_empty_conv filter_id_conv)
qed

lemma younger_chain:
  assumes "tree_ok P" and "m < length P"
  shows "chain (\<lambda>i. p_sister (P ! i)) (p_sister (P ! m)) (younger P m)"
proof (cases "parent_of P m")
  case None
  with tree_okD(2)[OF assms] show ?thesis by (simp add: younger_def)
next
  case (Some p)
  then have "m \<in> set (kids P p)" using assms(2) by (simp add: kids_def)
  then obtain ys zs where sp: "kids P p = ys @ m # zs" by (meson split_list)
  from parent_of_less[OF Some] tree_okD(3)[OF assms(1)] sp
  have "chain (\<lambda>i. p_sister (P ! i)) (p_sister (P ! m)) zs" by (metis chain_suffix)
  then show ?thesis by (simp add: younger_def Some kids_split[OF sp])
qed

lemma skip_hidden_find:
  assumes "chain f c xs" and "\<And>x. x \<in> set xs \<Longrightarrow> \<not> shown Q x \<Longrightarrow> p_sister (Q ! x) = f x"
  shows "skip_hidden Q c = Some (find (shown Q) xs)"
  using assms
proof (induction xs arbitrary: c)
  case Nil
  then show ?case by (simp add: skip_hidden.simps)
next
  case (Cons x xs)
  then show ?case by (subst skip_hidden.simps) auto
qed

text \<open>The table after the first \<open>k\<close> passes.\<close>

definition dropped :: "nat \<Rightarrow> proc list \<Rightarrow> proc list" where
  "dropped k P =
     map (\<lambda>i. if i < k \<and> shown P i
        then (P ! i)\<lparr>p_child := find (shown P) (kids P i), p_sister := find (shown P) (younger P i)\<rparr>
        else P ! i) [0..<length P]"

lemma length_dropped [simp]: "length (dropped k P) = length P"
  by (simp add: dropped_def)

lemma shown_dropped [simp]: "i < length P \<Longrightarrow> shown (dropped k P) i = shown P i"
  by (simp add: dropped_def)

lemma younger_less: "x \<in> set (younger P m) \<Longrightarrow> x < length P"
  by (auto simp: younger_def kids_less split: option.splits)

lemma find_shown_dropped:
  "\<forall>x \<in> set xs. x < length P \<Longrightarrow> find (shown (dropped k P)) xs = find (shown P) xs"
  by (induction xs) auto

lemma drop_node_dropped:
  assumes t: "tree_ok P" and k: "k < length P"
  shows "drop_node k (dropped k P) = Some (dropped (Suc k) P)"
proof (cases "shown P k")
  case False
  then have "dropped (Suc k) P = dropped k P"
    by (auto simp: dropped_def less_Suc_eq intro!: nth_equalityI)
  with False k show ?thesis by (simp add: drop_node_def)
next
  case True
  let ?Q = "dropped k P"
  let ?Q1 = "upd k (\<lambda>p. p\<lparr>p_child := find (shown P) (kids P k)\<rparr>) ?Q"
  have own: "?Q ! k = P ! k" using k by (simp add: dropped_def)
  have hid: "p_sister (?Q ! x) = p_sister (P ! x)" if "x < length P" "\<not> shown P x" for x
    using that by (simp add: dropped_def)
  have hid1: "p_sister (?Q1 ! x) = p_sister (P ! x)" if "x < length P" "\<not> shown P x" for x
    using that hid k by (simp add: nth_upd own)
  have sh1: "find (shown ?Q1) xs = find (shown P) xs" if "\<forall>x \<in> set xs. x < length P" for xs
    using that k by (induction xs) (auto simp: nth_upd)
  have "skip_hidden ?Q (p_child (P ! k)) = Some (find (shown ?Q) (kids P k))"
    by (rule skip_hidden_find[OF tree_okD(3)[OF t k]]) (simp add: hid kids_less)
  then have c: "skip_hidden ?Q (p_child (?Q ! k)) = Some (find (shown P) (kids P k))"
    by (simp add: own find_shown_dropped kids_less)
  have "skip_hidden ?Q1 (p_sister (P ! k)) = Some (find (shown ?Q1) (younger P k))"
  proof (rule skip_hidden_find[OF younger_chain[OF t k]])
    fix x assume x: "x \<in> set (younger P k)" "\<not> shown ?Q1 x"
    have "x < length P" using younger_less[OF x(1)] .
    moreover from this x(2) k have "\<not> shown P x" using shown_dropped[of x P k] by (auto simp: nth_upd split: if_splits)
    ultimately show "p_sister (?Q1 ! x) = p_sister (P ! x)" by (rule hid1)
  qed
  then have s: "skip_hidden ?Q1 (p_sister (?Q1 ! k)) = Some (find (shown P) (younger P k))"
    using k sh1[of "younger P k"] younger_less[of _ P k] by (simp add: nth_upd own)
  have "drop_node k ?Q = Some (upd k (\<lambda>p. p\<lparr>p_sister := find (shown P) (younger P k)\<rparr>) ?Q1)"
    using True k c s by (simp add: drop_node_def Let_def)
  also have "upd k (\<lambda>p. p\<lparr>p_sister := find (shown P) (younger P k)\<rparr>) ?Q1 = dropped (Suc k) P"
    by (rule nth_equalityI) (use k True own in \<open>auto simp: nth_upd, auto simp: dropped_def less_Suc_eq\<close>)
  finally show ?thesis .
qed

lemma DropProcs_dropped:
  assumes "tree_ok P"
  shows "DropProcs P = Some (dropped (length P) P)"
proof -
  let ?J = "\<lambda>k Q. Q = dropped k P"
  have "\<exists>Q. drop_node k R = Some Q \<and> ?J (Suc k) Q" if "k < length P" "?J k R" for k R
    using drop_node_dropped[OF assms that(1)] that(2) by blast
  then have "\<exists>Q. for_each drop_node [0..<length P] P = Some Q \<and> ?J (length P) Q"
    by (rule for_each_upt) (simp_all add: dropped_def map_nth)
  then show ?thesis by (simp add: DropProcs_def)
qed

lemma dropped_chain:
  assumes "p < length P" and "shown P p"
  shows "chain (\<lambda>i. p_sister (dropped (length P) P ! i)) (p_child (dropped (length P) P ! p))
    (filter (shown P) (kids P p))"
proof -
  let ?g = "\<lambda>i. p_sister (dropped (length P) P ! i)"
  have g: "?g x = find (shown P) (younger P x)" if "x < length P" "shown P x" for x
    using that by (simp add: dropped_def)
  have "chain ?g (find (shown P) xs) (filter (shown P) xs)" if "kids P p = ys @ xs" for ys xs
    using that
  proof (induction xs arbitrary: ys)
    case Nil
    then show ?case by simp
  next
    case (Cons x xs)
    then have IH: "chain ?g (find (shown P) xs) (filter (shown P) xs)" using Cons.IH[of "ys @ [x]"] by simp
    have "x \<in> set (kids P p)" using Cons.prems by simp
    then have x: "x < length P" "parent_of P x = Some p" by (auto simp: kids_def)
    then have "younger P x = xs" using kids_split[OF Cons.prems] by (simp add: younger_def)
    with IH g[OF x(1)] show ?case by auto
  qed
  from this[of "[]"] assms show ?thesis by (simp add: dropped_def)
qed

section \<open>Properties\<close>

text \<open>
  C18. \<open>MakeTree\<close> always ends on a freshly read table and builds exactly the parent
  relation: every process is linked to the last process with its parent's pid (never to itself),
  and the chain from \<open>child\<close> over \<open>sister\<close> lists the children of each process, in the
  order of the table; everything but the links is left as it was.
\<close>

theorem MakeTree_builds_parent_relation:
  assumes "unlinked P"
  shows "\<exists>Q. MakeTree P = Some Q \<and> same_ids Q P \<and>
    (\<forall>m < length P. p_parent (Q ! m) = parent_of P m \<and>
       chain (\<lambda>i. p_sister (Q ! i)) (p_child (Q ! m)) (filter (\<lambda>c. parent_of P c = Some m) [0..<length P]))"
proof -
  from MakeTree_ok[OF assms] obtain Q where Q: "MakeTree P = Some Q" "tree_ok Q" "same_ids Q P" by blast
  then have len: "length Q = length P" by (simp add: same_ids_def)
  from Q(2) have "linked (length P) Q" by (simp add: len)
  with Q show ?thesis unfolding linked_same_ids[OF Q(3) le_refl] by auto
qed

definition ps_entry :: "string \<Rightarrow> int \<Rightarrow> int \<Rightarrow> proc" where
  "ps_entry u pid ppid =
     \<lparr>p_uid = 0, p_pid = pid, p_ppid = ppid, p_pgid = pid, p_name = u, p_cmd = ''cmd'', p_print = False,
      p_parent = None, p_child = None, p_sister = None, p_thcount = 0\<rparr>"

definition ps_sample :: "proc list" where
  "ps_sample = [ps_entry ''root'' 1 0, ps_entry ''root'' 5 1, ps_entry ''ann'' 7 5, ps_entry ''root'' 9 1,
     ps_entry ''root'' 11 5]"

lemmas ps_sample_simps = ps_sample_def ps_entry_def parent_of_def get_pid_index_def kids_def unlinked_def
  eval_nat_numeral less_Suc_eq all_simps

lemma ps_sample_parents:
  "parent_of ps_sample 0 = None" "parent_of ps_sample 1 = Some 0" "parent_of ps_sample 2 = Some 1"
  "parent_of ps_sample 3 = Some 0" "parent_of ps_sample 4 = Some 1" "length ps_sample = 5"
  by (simp_all add: ps_sample_simps)

theorem MakeTree_builds_parent_relation_witness:
  "unlinked ps_sample \<and> (\<exists>Q. MakeTree ps_sample = Some Q \<and> same_ids Q ps_sample \<and>
    (\<forall>m < length ps_sample. p_parent (Q ! m) = parent_of ps_sample m \<and>
       chain (\<lambda>i. p_sister (Q ! i)) (p_child (Q ! m))
         (filter (\<lambda>c. parent_of ps_sample c = Some m) [0..<length ps_sample])))"
proof -
  have u: "unlinked ps_sample" by (simp add: ps_sample_simps)
  with MakeTree_builds_parent_relation[OF u] show ?thesis by blast
qed

text \<open>
  C19. On a table linked as \<open>MakeTree\<close> leaves it, \<open>MarkProcs\<close> ends exactly when following the
  parents of every selected process ends (always, without a selecting option): on a cycle of
  parents its loop runs forever. When it ends, it keeps all but the marks, and marks exactly the
  processes asked for: all of them without a selecting option, and otherwise every selected
  process, all its ancestors and all its descendants.
\<close>

theorem MarkProcs_marks_branches:
  assumes "tree_ok P"
  shows "if grounded opt P
    then \<exists>Q. MarkProcs opt P = Some Q \<and> same_ids Q P \<and> tree_ok Q \<and>
      (\<forall>i < length P. p_print (Q ! i) \<longleftrightarrow> p_print (P ! i) \<or> showall opt \<or>
         (\<exists>m < length P. selected opt (P ! m) \<and> ((m, i) \<in> (up P)\<^sup>* \<or> (i, m) \<in> (up P)\<^sup>*)))
    else MarkProcs opt P = None"
proof (cases "grounded opt P")
  case True
  let ?Q = "mark_set (family opt P (length P)) P"
  have "p_print (?Q ! i) \<longleftrightarrow> p_print (P ! i) \<or> showall opt \<or>
       (\<exists>m < length P. selected opt (P ! m) \<and> ((m, i) \<in> (up P)\<^sup>* \<or> (i, m) \<in> (up P)\<^sup>*))"
    if "i < length P" for i
    using that by (auto simp: family_def)
  then show ?thesis
    using MarkProcs_marks[OF True assms] same_ids_mark_set tree_ok_mark_set[OF assms] True by auto
next
  case False
  with MarkProcs_hangs[OF assms] show ?thesis by simp
qed

lemma ps_sample_forest: "forest ps_sample"
proof -
  note ps_sample_parents [unfolded One_nat_def, simp]
  have p0: "chain (parent_of ps_sample) (parent_of ps_sample 0) []" by simp
  have p1: "chain (parent_of ps_sample) (parent_of ps_sample 1) [0]"
    by simp
  have p2: "chain (parent_of ps_sample) (parent_of ps_sample 2) [1, 0]"
    by simp
  have p3: "chain (parent_of ps_sample) (parent_of ps_sample 3) [0]" by simp
  have p4: "chain (parent_of ps_sample) (parent_of ps_sample 4) [1, 0]" by simp
  have "m = 0 \<or> m = 1 \<or> m = 2 \<or> m = 3 \<or> m = 4" if "m < length ps_sample" for m
    using that by (auto simp: ps_sample_parents)
  with p0 p1 p2 p3 p4 show ?thesis unfolding forest_def by metis
qed

definition ps_user :: "string \<Rightarrow> ps_options" where
  "ps_user u = \<lparr>showall = False, soption = False, Uoption = False, opt_name = u, opt_str = [],
     ipid = -1, MyPid = 42\<rparr>"

text \<open>Two processes that are each other's parents.\<close>

lemma loop_not_grounded:
  "\<not> grounded (ps_user ''ann'') [ps_entry ''ann'' 5 7, ps_entry ''root'' 7 5]"
proof
  let ?P = "[ps_entry ''ann'' 5 7, ps_entry ''root'' 7 5]"
  assume "grounded (ps_user ''ann'') ?P"
  then have "rooted ?P 0" by (auto simp: grounded_def ps_user_def selected_def ps_entry_def)
  moreover have p: "parent_of ?P 0 = Some 1" "parent_of ?P 1 = Some 0"
    by (simp_all add: parent_of_def get_pid_index_def ps_entry_def)
  moreover have "\<not> chain (parent_of ?P) (Some k) xs" if "k < 2" for k xs
    using that p by (induction xs arbitrary: k) (auto simp: less_2_cases_iff)
  ultimately show False by (auto simp: rooted_def)
qed

theorem MarkProcs_marks_branches_witness:
  "(\<exists>P. MakeTree ps_sample = Some P \<and>
    (\<exists>Q. MarkProcs (ps_user ''ann'') P = Some Q \<and> same_ids Q P \<and> tree_ok Q \<and>
      (\<forall>i < length P. p_print (Q ! i) \<longleftrightarrow> p_print (P ! i) \<or> showall (ps_user ''ann'') \<or>
         (\<exists>m < length P. selected (ps_user ''ann'') (P ! m) \<and> ((m, i) \<in> (up P)\<^sup>* \<or> (i, m) \<in> (up P)\<^sup>*))))) \<and>
   (\<exists>P. MakeTree [ps_entry ''ann'' 5 7, ps_entry ''root'' 7 5] = Some P \<and> MarkProcs (ps_user ''ann'') P = None)"
proof
  have u: "unlinked ps_sample" by (simp add: ps_sample_simps)
  from MakeTree_ok[OF u] obtain P where P: "MakeTree ps_sample = Some P" "tree_ok P" "same_ids P ps_sample"
    by blast
  have "grounded (ps_user ''ann'') P"
    by (rule forest_grounded[OF same_ids_forest[OF P(3) ps_sample_forest]])
  with P(1) MarkProcs_marks_branches[OF P(2), of "ps_user ''ann''"]
  show "\<exists>P. MakeTree ps_sample = Some P \<and>
    (\<exists>Q. MarkProcs (ps_user ''ann'') P = Some Q \<and> same_ids Q P \<and> tree_ok Q \<and>
      (\<forall>i < length P. p_print (Q ! i) \<longleftrightarrow> p_print (P ! i) \<or> showall (ps_user ''ann'') \<or>
         (\<exists>m < length P. selected (ps_user ''ann'') (P ! m) \<and> ((m, i) \<in> (up P)\<^sup>* \<or> (i, m) \<in> (up P)\<^sup>*))))"
    by auto
  let ?L = "[ps_entry ''ann'' 5 7, ps_entry ''root'' 7 5]"
  have "unlinked ?L" by (simp add: unlinked_def ps_entry_def)
  from MakeTree_ok[OF this] obtain R where R: "MakeTree ?L = Some R" "tree_ok R" "same_ids R ?L" by blast
  with loop_not_grounded same_ids_grounded have "\<not> grounded (ps_user ''ann'') R" by blast
  with R(1) MarkProcs_marks_branches[OF R(2), of "ps_user ''ann''"]
  show "\<exists>P. MakeTree ?L = Some P \<and> MarkProcs (ps_user ''ann'') P = None" by auto
qed

text \<open>
  \<open>DropProcs\<close> always ends on a linked table; afterwards the chain of children of every
  process that is shown lists exactly its shown children in the order of the table, so that
  printing never meets a hidden process; identities and marks are kept.
\<close>

theorem DropProcs_filters_children:
  assumes "tree_ok P"
  shows "\<exists>Q. DropProcs P = Some Q \<and> same_ids Q P \<and>
    (\<forall>m < length P. p_print (Q ! m) = p_print (P ! m)) \<and>
    (\<forall>m < length P. p_print (P ! m) \<longrightarrow>
       chain (\<lambda>i. p_sister (Q ! i)) (p_child (Q ! m))
         (filter (\<lambda>c. parent_of P c = Some m \<and> p_print (P ! c)) [0..<length P]))"
proof -
  have "same_ids (dropped (length P) P) P" by (auto simp: same_ids_def dropped_def ident_def)
  moreover have "filter (shown P) (kids P m) =
      filter (\<lambda>c. parent_of P c = Some m \<and> p_print (P ! c)) [0..<length P]" for m
    by (simp add: kids_def conj_commute)
  ultimately show ?thesis
    using DropProcs_dropped[OF assms] dropped_chain[of _ P] shown_dropped by metis
qed

theorem DropProcs_filters_children_witness:
  "\<exists>R P. MakeTree ps_sample = Some R \<and> P = mark_set {0, 1, 4} R \<and> tree_ok P \<and> p_print (P ! 0) \<and>
    (\<exists>Q. DropProcs P = Some Q \<and> same_ids Q P \<and>
      (\<forall>m < length P. p_print (Q ! m) = p_print (P ! m)) \<and>
      (\<forall>m < length P. p_print (P ! m) \<longrightarrow>
         chain (\<lambda>i. p_sister (Q ! i)) (p_child (Q ! m))
           (filter (\<lambda>c. parent_of P c = Some m \<and> p_print (P ! c)) [0..<length P])))"
proof -
  have u: "unlinked ps_sample" by (simp add: ps_sample_simps)
  from MakeTree_ok[OF u] obtain R where R: "MakeTree ps_sample = Some R" "tree_ok R" "same_ids R ps_sample"
    by blast
  then have "0 < length R" by (simp add: same_ids_def ps_sample_def)
  then have p: "p_print (mark_set {0, 1, 4} R ! 0)" by simp
  from tree_ok_mark_set[OF R(2)] have t: "tree_ok (mark_set {0, 1, 4} R)" by simp
  from R(1) t p DropProcs_filters_children[OF t] show ?thesis by blast
qed

end
