(* ===== verification/PsPrint.thy ===== *)
theory PsPrint
  imports PsTree
begin

text \<open>
  \<open>tree/pstree_source_code.c\<close>, printing: the table \<open>TreeChars\<close> of drawing strings and
  \<open>PrintTree\<close>. The state of a print is the global \<open>atLdepth\<close> and the lines written so far.
  \<open>PrintTree\<close> follows the child and sister links recursively; the model follows them the same
  way, as a \<open>partial_function\<close>, and the lemmas show that it ends and prints the rows of the
  tree in preorder, down to the depth asked for with \<open>-l\<close>.
\<close>

section \<open>Definitions\<close>

record tree_chars =
  tc_s2 :: string
  tc_p :: string
  tc_pgl :: string
  tc_npgl :: string
  tc_barc :: string
  tc_bar :: string
  tc_barl :: string
  tc_sg :: string
  tc_eg :: string
  tc_init :: string

definition TreeChars :: "tree_chars list" where
  "TreeChars =
    [\<lparr>tc_s2 = ''--'', tc_p = ''-+'', tc_pgl = ''='', tc_npgl = ''-'', tc_barc = ''|'', tc_bar = ''|'',
      tc_barl = [CHR 0x5C], tc_sg = [], tc_eg = [], tc_init = []\<rparr>,
     \<lparr>tc_s2 = [CHR 0xC4, CHR 0xC4], tc_p = [CHR 0xC4, CHR 0xC2], tc_pgl = [CHR 0xFA],
      tc_npgl = [CHR 0xC4], tc_barc = [CHR 0xC3], tc_bar = [CHR 0xB3], tc_barl = [CHR 0xC0],
      tc_sg = [], tc_eg = [], tc_init = []\<rparr>,
     \<lparr>tc_s2 = ''qq'', tc_p = ''qw'', tc_pgl = [CHR 0x60], tc_npgl = ''q'', tc_barc = ''t'', tc_bar = ''x'',
      tc_barl = ''m'', tc_sg = [CHR 0x0E], tc_eg = [CHR 0x0F],
      tc_init = CHR 0x1B # ''(B'' @ CHR 0x1B # '')0''\<rparr>,
     \<lparr>tc_s2 = [CHR 0xE2, CHR 0x94, CHR 0x80, CHR 0xE2, CHR 0x94, CHR 0x80],
      tc_p = [CHR 0xE2, CHR 0x94, CHR 0x80, CHR 0xE2, CHR 0x94, CHR 0xAC], tc_pgl = ''='',
      tc_npgl = [CHR 0xE2, CHR 0x94, CHR 0x80], tc_barc = [CHR 0xE2, CHR 0x94, CHR 0x9C],
      tc_bar = [CHR 0xE2, CHR 0x94, CHR 0x82], tc_barl = [CHR 0xE2, CHR 0x94, CHR 0x94],
      tc_sg = [], tc_eg = [], tc_init = []\<rparr>]"

definition MAXLINE :: nat where
  "MAXLINE = 8192"

text \<open>\<open>%05ld\<close>; \<open>snprintf\<close> into a buffer of \<open>n\<close> bytes keeps \<open>n - 1\<close>
  characters.\<close>

definition fmt_05ld :: "int \<Rightarrow> string" where
  "fmt_05ld i =
     (if i < 0 then CHR ''-'' # replicate (4 - length (dec_nat (nat (- i)))) CHR ''0'' @ dec_nat (nat (- i))
      else replicate (5 - length (dec_nat (nat i))) CHR ''0'' @ dec_nat (nat i))"

definition snprintf :: "nat \<Rightarrow> string \<Rightarrow> string" where
  "snprintf n s = take (n - 1) s"

record print_cfg =
  cfg_chars :: tree_chars
  cfg_columns :: nat
  cfg_maxLdepth :: int

text \<open>The line \<open>out\<close> of a process; \<open>child\<close> and \<open>sister\<close> are its links.\<close>

definition out_line :: "print_cfg \<Rightarrow> string \<Rightarrow> nat option \<Rightarrow> nat option \<Rightarrow> proc \<Rightarrow> string" where
  "out_line cfg head child sister p =
     (let C = cfg_chars cfg;
          thread = (if 1 < p_thcount p then snprintf 16 (''['' @ dec_nat (p_thcount p) @ '']'') else [])
      in take (cfg_columns cfg - 1) (snprintf (4 * MAXLINE)
        (tc_sg C @ head @
         (if head = [] then [] else if sister \<noteq> None then tc_barc C else tc_barl C) @
         (if child \<noteq> None then tc_p C else tc_s2 C) @
         (if p_pid p = p_pgid p then tc_pgl C else tc_npgl C) @
         tc_eg C @ '' '' @ fmt_05ld (p_pid p) @ '' '' @ p_name p @ '' '' @ thread @ p_cmd p)))"

definition nhead :: "print_cfg \<Rightarrow> string \<Rightarrow> nat option \<Rightarrow> string" where
  "nhead cfg head sister =
     snprintf MAXLINE
       (head @ (if head = [] then [] else if sister \<noteq> None then tc_bar (cfg_chars cfg) else '' '') @ '' '')"

text \<open>
  \<open>print_list c head\<close> is the loop over the children, with the body of \<open>PrintTree\<close> for each
  child in its place; \<open>PrintTree\<close> itself is that body for one process.
\<close>

type_synonym pstate = "int \<times> string list"

definition print_body ::
  "print_cfg \<Rightarrow> proc list \<Rightarrow> (nat option \<Rightarrow> string \<Rightarrow> pstate \<Rightarrow> pstate option) \<Rightarrow>
   nat \<Rightarrow> string \<Rightarrow> pstate \<Rightarrow> pstate option" where
  "print_body cfg P loop idx head st =
     (if head = [] \<and> \<not> p_print (P ! idx) then Some st
      else if fst st = cfg_maxLdepth cfg then Some st
      else Option.bind
        (loop (p_child (P ! idx)) (nhead cfg head (p_sister (P ! idx)))
          (fst st + 1, snd st @ [out_line cfg head (p_child (P ! idx)) (p_sister (P ! idx)) (P ! idx)]))
        (\<lambda>st'. Some (fst st' - 1, snd st')))"

lemma print_body_mono [partial_function_mono]:
  assumes "\<And>c h s. mono_option (\<lambda>f. loop f c h s)"
  shows "mono_option (\<lambda>f. print_body cfg P (loop f) idx head st)"
  unfolding print_body_def by (intro partial_function_mono assms)

partial_function (option) print_list ::
  "print_cfg \<Rightarrow> proc list \<Rightarrow> nat option \<Rightarrow> string \<Rightarrow> pstate \<Rightarrow> pstate option" where
  "print_list cfg P c head st =
     (case c of
        None \<Rightarrow> Some st
      | Some child \<Rightarrow>
          Option.bind (print_body cfg P (print_list cfg P) child head st)
            (print_list cfg P (p_sister (P ! child)) head))"

definition PrintTree :: "print_cfg \<Rightarrow> proc list \<Rightarrow> nat \<Rightarrow> string \<Rightarrow> pstate \<Rightarrow> pstate option" where
  "PrintTree cfg P = print_body cfg P (print_list cfg P)"


section \<open>The rows of a tree\<close>

text \<open>
  \<open>rows n\<close> is what a print of the process \<open>i\<close> should be: its line and the rows of its
  children in order, as long as the remaining depth \<open>n\<close> allows. \<open>ch\<close> gives the children, and
  \<open>sis\<close> says whether a process is followed by a younger sister. \<open>order\<close> is the sequence of
  the processes printed.
\<close>

fun rows :: "print_cfg \<Rightarrow> proc list \<Rightarrow> (nat \<Rightarrow> nat list) \<Rightarrow> nat \<Rightarrow> string \<Rightarrow> nat \<Rightarrow> string list" where
  "rows cfg P ch 0 head i = []"
| "rows cfg P ch (Suc n) head i =
     out_line cfg head (p_child (P ! i)) (p_sister (P ! i)) (P ! i) #
     concat (map (rows cfg P ch n (nhead cfg head (p_sister (P ! i)))) (ch i))"

fun order :: "(nat \<Rightarrow> nat list) \<Rightarrow> nat \<Rightarrow> nat \<Rightarrow> nat list" where
  "order ch 0 i = []"
| "order ch (Suc n) i = i # concat (map (order ch n) (ch i))"

lemma nhead_nonempty [simp]: "nhead cfg head s \<noteq> []"
  by (simp add: nhead_def snprintf_def MAXLINE_def)

lemma print_siblings:
  assumes body: "\<And>k ls. k \<in> set ks \<Longrightarrow>
      print_body cfg P (print_list cfg P) k head (at, ls) = Some (at, ls @ r k)"
    and "chain (\<lambda>i. p_sister (P ! i)) c ks"
  shows "print_list cfg P c head (at, ls) = Some (at, ls @ concat (map r ks))"
  using assms
proof (induction ks arbitrary: c ls)
  case Nil
  then show ?case by (simp add: print_list.simps)
next
  case (Cons k ks)
  then show ?case by (subst print_list.simps) simp
qed

text \<open>\<open>ch\<close> describes the links of the processes that satisfy \<open>V\<close>, and stays among them.\<close>

definition links_list :: "(nat \<Rightarrow> bool) \<Rightarrow> proc list \<Rightarrow> (nat \<Rightarrow> nat list) \<Rightarrow> bool" where
  "links_list V P ch \<longleftrightarrow>
     (\<forall>i. V i \<longrightarrow> chain (\<lambda>j. p_sister (P ! j)) (p_child (P ! i)) (ch i) \<and> (\<forall>k \<in> set (ch i). V k))"

lemma print_body_rows:
  assumes links: "links_list V P ch" and "V i" and "head \<noteq> [] \<or> p_print (P ! i)"
    and "at + int n = cfg_maxLdepth cfg"
  shows "print_body cfg P (print_list cfg P) i head (at, ls) = Some (at, ls @ rows cfg P ch n head i)"
  using assms(2-)
proof (induction n arbitrary: i head at ls)
  case 0
  then show ?case by (auto simp: print_body_def)
next
  case (Suc n)
  let ?h = "nhead cfg head (p_sister (P ! i))"
  from links Suc.prems(1) have c: "chain (\<lambda>j. p_sister (P ! j)) (p_child (P ! i)) (ch i)"
    and V: "\<And>k. k \<in> set (ch i) \<Longrightarrow> V k" by (auto simp: links_list_def)
  have "print_list cfg P (p_child (P ! i)) ?h (at + 1, ls') =
      Some (at + 1, ls' @ concat (map (rows cfg P ch n ?h) (ch i)))" for ls'
    using Suc.prems(3) by (intro print_siblings[OF _ c] Suc.IH V) auto
  with Suc.prems show ?case by (auto simp: print_body_def)
qed

lemma length_rows: "length (rows cfg P ch n head i) = length (order ch n i)"
proof (induction n arbitrary: head i)
  case (Suc n)
  then show ?case by (simp add: length_concat comp_def)
qed simp

lemma rows_fit: "row \<in> set (rows cfg P ch n head i) \<Longrightarrow> length row \<le> cfg_columns cfg - 1"
  by (induction n arbitrary: head i) (auto simp: out_line_def Let_def)

section \<open>Each process is printed once\<close>

definition child_rel :: "(nat \<Rightarrow> nat list) \<Rightarrow> (nat \<times> nat) set" where
  "child_rel ch = {(m, p). m \<in> set (ch p)}"

lemma set_order: "set (order ch n i) = {m. \<exists>d < n. (m, i) \<in> child_rel ch ^^ d}"
proof (induction n arbitrary: i)
  case (Suc n)
  have "(m, i) \<in> child_rel ch ^^ Suc d \<longleftrightarrow> (\<exists>k \<in> set (ch i). (m, k) \<in> child_rel ch ^^ d)" for m d
    by (auto simp: child_rel_def)
  then have "(\<exists>d < Suc n. (m, i) \<in> child_rel ch ^^ d) \<longleftrightarrow>
      m = i \<or> (\<exists>d < n. \<exists>k \<in> set (ch i). (m, k) \<in> child_rel ch ^^ d)" for m
    unfolding Ex_less_Suc2 by (simp del: relpow.simps(2)) 
  then show ?case by (auto simp: Suc)
qed simp

lemma order_disjoint:
  assumes sv: "single_valued (child_rel ch)" and ac: "acyclic (child_rel ch)"
    and "k \<in> set (ch i)" "k' \<in> set (ch i)" "k \<noteq> k'"
  shows "set (order ch n k) \<inter> set (order ch n k') = {}"
proof -
  have step: "(m, k) \<in> child_rel ch ^^ d \<Longrightarrow> (m, k') \<in> child_rel ch ^^ e \<Longrightarrow>
      (k, k') \<in> (child_rel ch)\<^sup>* \<or> (k', k) \<in> (child_rel ch)\<^sup>*" for m d e
  proof (induction d arbitrary: m e)
    case 0
    then show ?case by (auto intro: relpow_imp_rtrancl)
  next
    case (Suc d)
    show ?case
    proof (cases e)
      case 0
      with Suc.prems show ?thesis by (metis relpow_0_E relpow_imp_rtrancl)
    next
      case (Suc e')
      with Suc.prems Suc.IH sv show ?thesis
        by (metis relpow_Suc_D2 single_valuedD)
    qed
  qed
  have no: "(a, b) \<notin> (child_rel ch)\<^sup>*" if ab: "a \<in> set (ch i)" "b \<in> set (ch i)" "a \<noteq> b" for a b
  proof
    assume "(a, b) \<in> (child_rel ch)\<^sup>*"
    with ab(3) obtain x where "(a, x) \<in> child_rel ch" "(x, b) \<in> (child_rel ch)\<^sup>*"
      by (metis converse_rtranclE)
    moreover have "(a, i) \<in> child_rel ch" "(b, i) \<in> child_rel ch" using ab by (simp_all add: child_rel_def)
    ultimately have "(i, i) \<in> (child_rel ch)\<^sup>+" using sv by (metis rtrancl_into_trancl1 single_valuedD)
    with ac show False by (simp add: acyclic_def)
  qed
  with step assms(3-5) show ?thesis unfolding set_order by blast
qed

lemma distinct_order:
  assumes "single_valued (child_rel ch)" and "acyclic (child_rel ch)" and "\<And>i. distinct (ch i)"
  shows "distinct (order ch n i)"
proof (induction n arbitrary: i)
  case (Suc n)
  have "i \<notin> set (order ch n k)" if "k \<in> set (ch i)" for k
  proof
    assume "i \<in> set (order ch n k)"
    then have "(i, k) \<in> (child_rel ch)\<^sup>*" by (auto simp: set_order intro: relpow_imp_rtrancl)
    moreover have "(k, i) \<in> child_rel ch" using that by (simp add: child_rel_def)
    ultimately show False using assms(2) by (meson acyclic_def rtrancl_into_trancl1)
  qed
  moreover have "distinct (concat (map (order ch n) ks))" if "distinct ks" "set ks \<subseteq> set (ch i)" for ks
    using that
  proof (induction ks)
    case (Cons k ks)
    then have "set (order ch n k) \<inter> set (order ch n k') = {}" if "k' \<in> set ks" for k'
      using order_disjoint[OF assms(1,2), of k i k' n] that by auto
    with Cons Suc show ?case by auto
  qed simp
  ultimately show ?case using assms(3) by auto
qed simp

end
