(* ===== verification/PsRead.thy ===== *)
theory PsRead
  imports PsPrint
begin

text \<open>
  \<open>tree/pstree_source_code.c\<close>, reading the process table, in the Linux configuration of the
  file: the user-name cache \<open>uid2user\<close>, \<open>GetProcessesDirect\<close> over \<open>/proc\<close>,
  \<open>GetProcesses\<close> over the text of \<open>ps\<close> or of a file, \<open>FixZombies\<close> and \<open>GetRootPid\<close>.

  What the operating system answers is an argument: \<open>getpwuid\<close> maps a uid to an optional login
  name, \<open>alloc n\<close> says whether a block for \<open>n\<close> entries is available, an entry of \<open>/proc\<close>
  is the results of \<open>stat\<close> and of reading its two files, and an opened stream is its remaining
  text. The \<open>scanf\<close> conversions the code uses are defined below on lists of characters; numbers
  are taken to be in the range of \<open>long\<close>.
\<close>

section \<open>Scanning\<close>

definition is_space :: "char \<Rightarrow> bool" where
  "is_space c \<longleftrightarrow> c \<in> {CHR 0x20, CHR 0x09, CHR 0x0A, CHR 0x0B, CHR 0x0C, CHR 0x0D}"

definition is_digit :: "char \<Rightarrow> bool" where
  "is_digit c \<longleftrightarrow> 48 \<le> (of_char c :: nat) \<and> (of_char c :: nat) \<le> 57"

abbreviation NL :: char where
  "NL \<equiv> CHR 0x0A"

definition skip_space :: "string \<Rightarrow> string" where
  "skip_space s = dropWhile is_space s"

definition digits_value :: "string \<Rightarrow> int" where
  "digits_value ds = foldl (\<lambda>n c. 10 * n + (int (of_char c) - 48)) 0 ds"

text \<open>\<open>%ld\<close>: the value and the rest of the input, if there is a number.\<close>

definition scan_ld :: "string \<Rightarrow> (int \<times> string) option" where
  "scan_ld s0 =
     (let s = skip_space s0;
          neg = (s \<noteq> [] \<and> hd s = CHR ''-'');
          s1 = (if s \<noteq> [] \<and> hd s \<in> {CHR ''-'', CHR ''+''} then tl s else s);
          ds = takeWhile is_digit s1
      in if ds = [] then None
         else Some (if neg then - digits_value ds else digits_value ds, dropWhile is_digit s1))"

text \<open>\<open>%s\<close> and \<open>%[^NL]\<close>.\<close>

definition scan_word :: "string \<Rightarrow> (string \<times> string) option" where
  "scan_word s0 =
     (let s = skip_space s0; w = takeWhile (\<lambda>c. \<not> is_space c) s
      in if w = [] then None else Some (w, dropWhile (\<lambda>c. \<not> is_space c) s))"

definition scan_to_NL :: "string \<Rightarrow> (string \<times> string) option" where
  "scan_to_NL s =
     (let w = takeWhile (\<lambda>c. c \<noteq> NL) s
      in if w = [] then None else Some (w, dropWhile (\<lambda>c. c \<noteq> NL) s))"

section \<open>The user-name cache\<close>

definition NUMUN :: nat where
  "NUMUN = 128"

type_synonym un_cache = "(int \<times> string) list"

definition uid_text :: "int \<Rightarrow> string" where
  "uid_text u = snprintf 32 (''#'' @ fmt_ld (if 2 ^ 31 \<le> u then u - 2 ^ 32 else u))"

definition uid_name :: "(int \<Rightarrow> string option) \<Rightarrow> int \<Rightarrow> string" where
  "uid_name getpwuid u = (case getpwuid u of Some n \<Rightarrow> n | None \<Rightarrow> uid_text u)"

definition cached :: "un_cache \<Rightarrow> int \<Rightarrow> string option" where
  "cached un u = map_option snd (find (\<lambda>e. fst e = u) (rev un))"

definition uid2user :: "(int \<Rightarrow> string option) \<Rightarrow> nat \<Rightarrow> int \<Rightarrow> un_cache \<Rightarrow> string \<times> un_cache" where
  "uid2user getpwuid len uid un =
     (let u = uid mod 2 ^ 32 in
      case cached un u of
        Some found \<Rightarrow> (take (len - 1) found, un)
      | None \<Rightarrow>
          let found = uid_name getpwuid u in
          (take (len - 1) found, if length un < NUMUN then un @ [(u, take 8 found)] else un))"

section \<open>Reading /proc\<close>

record proc_dir =
  d_stat :: "int option"
  d_statfile :: "string option"
  d_cmdline :: "string option"

definition empty_proc :: proc where
  "empty_proc =
     \<lparr>p_uid = 0, p_pid = 0, p_ppid = 0, p_pgid = 0, p_name = [], p_cmd = [], p_print = False,
      p_parent = Some 0, p_child = Some 0, p_sister = Some 0, p_thcount = 0\<rparr>"

text \<open>The calls \<open>fscanf(tn, "%ld %s %*c %ld %ld", ...)\<close>: fields are assigned up to the first
  conversion that fails. A word that does not fit \<open>cmd\<close> is an access out of bounds.\<close>

definition scan_ids :: "string \<Rightarrow> proc \<Rightarrow> proc" where
  "scan_ids s p =
     (case skip_space s of
        [] \<Rightarrow> p
      | _ # s1 \<Rightarrow>
          (case scan_ld s1 of
             None \<Rightarrow> p
           | Some (ppid, s2) \<Rightarrow>
               (case scan_ld s2 of
                  None \<Rightarrow> p\<lparr>p_ppid := ppid\<rparr>
                | Some (pgid, _) \<Rightarrow> p\<lparr>p_ppid := ppid, p_pgid := pgid\<rparr>)))"

definition scan_stat :: "string \<Rightarrow> proc \<Rightarrow> proc res" where
  "scan_stat s p =
     (case scan_ld s of
        None \<Rightarrow> Inr p
      | Some (pid, s1) \<Rightarrow>
          (case scan_word s1 of
             None \<Rightarrow> Inr (p\<lparr>p_pid := pid\<rparr>)
           | Some (w, s2) \<Rightarrow>
               if MAXLINE \<le> length w then Inl OutOfBounds
               else Inr (scan_ids s2 (p\<lparr>p_pid := pid, p_cmd := w\<rparr>))))"

definition read_cmdline :: "string \<Rightarrow> proc \<Rightarrow> proc" where
  "read_cmdline s p =
     (let cs = map (\<lambda>c. if c = NUL then CHR '' '' else c) (take (MAXLINE - 1) s)
      in if cs = [] then p else p\<lparr>p_cmd := cs\<rparr>)"

definition unlink :: "proc \<Rightarrow> proc" where
  "unlink p = p\<lparr>p_parent := None, p_child := None, p_sister := None, p_print := False\<rparr>"

text \<open>
  One turn of the loop over the paths. The slot \<open>P[j]\<close> keeps what a vanished process left in
  it; the result is the slot and whether the process was entered.
\<close>

definition direct_entry ::
  "(int \<Rightarrow> string option) \<Rightarrow> proc_dir \<Rightarrow> proc \<Rightarrow> un_cache \<Rightarrow> ((proc \<times> bool) \<times> un_cache) res" where
  "direct_entry getpwuid d p un =
     (case d_stat d of
        None \<Rightarrow> Inr ((p, False), un)
      | Some uid \<Rightarrow>
          let (nm, un1) = uid2user getpwuid 32 uid un;
              p1 = p\<lparr>p_uid := uid, p_name := nm\<rparr>
          in (case d_statfile d of
                None \<Rightarrow> Inr ((p1, False), un1)
              | Some s \<Rightarrow>
                  rbind (scan_stat s p1) (\<lambda>p2.
                    let p3 = p2\<lparr>p_thcount := 1\<rparr> in
                    (case d_cmdline d of
                       None \<Rightarrow> Inr ((p3, False), un1)
                     | Some cs \<Rightarrow> Inr ((unlink (read_cmdline cs p3), True), un1)))))"

fun direct_loop ::
  "(int \<Rightarrow> string option) \<Rightarrow> proc_dir list \<Rightarrow> proc \<Rightarrow> un_cache \<Rightarrow> (proc list \<times> un_cache) res" where
  "direct_loop getpwuid [] p un = Inr ([], un)"
| "direct_loop getpwuid (d # ds) p un =
     rbind (direct_entry getpwuid d p un) (\<lambda>((q, entered), un1).
       if entered
       then rbind (direct_loop getpwuid ds empty_proc un1) (\<lambda>(P, un2). Inr (q # P, un2))
       else direct_loop getpwuid ds q un1)"

definition GetProcessesDirect ::
  "(int \<Rightarrow> string option) \<Rightarrow> (nat \<Rightarrow> bool) \<Rightarrow> proc_dir list \<Rightarrow> un_cache \<Rightarrow> (proc list \<times> un_cache) res" where
  "GetProcessesDirect getpwuid alloc paths un =
     (if \<not> alloc (length paths) then Inl (ExitCode 1)
      else direct_loop getpwuid (rev paths) empty_proc un)"

section \<open>Reading the text of ps\<close>

definition fgets :: "nat \<Rightarrow> string \<Rightarrow> (string \<times> string) option" where
  "fgets n s =
     (if s = [] then None
      else let k = length (takeWhile (\<lambda>c. c \<noteq> NL) s); m = min (n - 1) (Suc k)
           in Some (take m s, drop m s))"

text \<open>\<open>while (MAXLINE - 1 == strlen(fgets(tmp, MAXLINE, tn)));\<close> \<open>fgets\<close> returns a null pointer
  at the end of the input.\<close>

lemma fgets_shorter: "fgets MAXLINE s = Some (line, s') \<Longrightarrow> length s' < length s"
  by (auto simp: fgets_def MAXLINE_def Let_def split: if_splits)

function drop_rest :: "string \<Rightarrow> string res" where
  "drop_rest s =
     (case fgets MAXLINE s of
        None \<Rightarrow> Inl NullDeref
      | Some (tmp, s') \<Rightarrow> if strlen tmp = MAXLINE - 1 then drop_rest s' else Inr s')"
  by pat_completeness auto

termination
  by (relation "measure length") (auto dest: fgets_shorter)

declare drop_rest.simps [simp del]

lemma drop_rest_shorter: "drop_rest s = Inr s' \<Longrightarrow> length s' < length s"
proof (induction s rule: drop_rest.induct)
  case (1 s)
  from "1.prems" obtain tmp t where t: "fgets MAXLINE s = Some (tmp, t)"
    by (subst (asm) drop_rest.simps) (auto split: option.splits)
  show ?case
  proof (cases "strlen tmp = MAXLINE - 1")
    case True
    with "1.prems" t have "drop_rest t = Inr s'" by (subst (asm) drop_rest.simps) simp
    with "1.IH" t True have "length s' < length t" by blast
    with fgets_shorter[OF t] show ?thesis by simp
  next
    case False
    with "1.prems" t have "t = s'" by (subst (asm) drop_rest.simps) simp
    with fgets_shorter[OF t] show ?thesis by simp
  qed
qed

definition parse_ps_line :: "string \<Rightarrow> proc option" where
  "parse_ps_line line =
     Option.bind (scan_ld line) (\<lambda>(uid, s1).
     Option.bind (scan_ld s1) (\<lambda>(pid, s2).
     Option.bind (scan_ld s2) (\<lambda>(ppid, s3).
     Option.bind (scan_ld s3) (\<lambda>(pgid, s4).
     Option.bind (scan_to_NL (skip_space s4)) (\<lambda>(cmd, _).
       Some (empty_proc\<lparr>p_uid := uid, p_pid := pid, p_ppid := ppid, p_pgid := pgid, p_cmd := cmd\<rparr>))))))"

text \<open>The loop over the lines: \<open>i\<close> entries are read already.\<close>

function ps_lines ::
  "(int \<Rightarrow> string option) \<Rightarrow> (nat \<Rightarrow> bool) \<Rightarrow> nat \<Rightarrow> string \<Rightarrow> un_cache \<Rightarrow> (proc list \<times> un_cache) res" where
  "ps_lines getpwuid alloc i s un =
     (case fgets MAXLINE s of
        None \<Rightarrow> Inr ([], un)
      | Some (line, s1) \<Rightarrow>
          rbind (if strlen line = MAXLINE - 1 then drop_rest s1 else Inr s1) (\<lambda>s2.
            if \<not> alloc (i + 1) then Inl (ExitCode 1)
            else (case parse_ps_line (cstr line) of
                    None \<Rightarrow> ps_lines getpwuid alloc i s2 un
                  | Some p \<Rightarrow>
                      let (nm, un1) = uid2user getpwuid 32 (p_uid p) un in
                      rbind (ps_lines getpwuid alloc (i + 1) s2 un1)
                        (\<lambda>(P, un2). Inr (unlink (p\<lparr>p_name := nm\<rparr>) # P, un2)))))"
  by pat_completeness auto

termination
  by (relation "measure (\<lambda>(_, _, _, s, _). length s)")
    (auto dest!: fgets_shorter drop_rest_shorter split: if_splits)

declare ps_lines.simps [simp del]

definition GetProcesses ::
  "(int \<Rightarrow> string option) \<Rightarrow> (nat \<Rightarrow> bool) \<Rightarrow> string option \<Rightarrow> un_cache \<Rightarrow> (proc list \<times> un_cache) res" where
  "GetProcesses getpwuid alloc tn un =
     (case tn of
        None \<Rightarrow> Inl (ExitCode 1)
      | Some s \<Rightarrow>
          (case fgets MAXLINE s of
             None \<Rightarrow> Inl (ExitCode 1)
           | Some (_, s1) \<Rightarrow>
               if \<not> alloc 1 then Inl (ExitCode 1) else ps_lines getpwuid alloc 0 s1 un))"

section \<open>The root and the zombies\<close>

definition GetRootPid :: "proc list \<Rightarrow> int res" where
  "GetRootPid P =
     (case find (\<lambda>p. p_pid p = 1) P of
        Some p \<Rightarrow> Inr (p_pid p)
      | None \<Rightarrow>
     (case find (\<lambda>p. p_ppid p = 0) P of
        Some p \<Rightarrow> Inr (p_pid p)
      | None \<Rightarrow>
     (case find (\<lambda>p. p_ppid p = 1) P of
        Some p \<Rightarrow> Inr (p_pid p)
      | None \<Rightarrow>
     (case find (\<lambda>p. p_pid p = p_ppid p) P of
        Some p \<Rightarrow> Inr (p_pid p)
      | None \<Rightarrow> Inl (ExitCode 1)))))"

definition FixZombies :: "proc list \<Rightarrow> proc list" where
  "FixZombies P =
     (if 1 < length (filter (\<lambda>p. p_pid p = 0) P)
      then map (\<lambda>p. if p_pid p = 0 \<and> p_ppid p \<noteq> 0 \<and> p_ppid p \<noteq> -1 then p\<lparr>p_pid := -1\<rparr> else p) P
      else P)"

section \<open>Numbers and lines\<close>

lemma dec_nat_digits: "c \<in> set (dec_nat n) \<Longrightarrow> is_digit c"
proof (induction n rule: dec_nat.induct)
  case (1 n)
  have "is_digit (char_of (48 + k))" if "k < 10" for k :: nat
    using that by (simp add: is_digit_def)
  with 1 show ?case by (subst (asm) (2) dec_nat.simps) (auto split: if_splits)
qed

lemma dec_nat_nonempty [simp]: "dec_nat n \<noteq> []"
  by (subst dec_nat.simps) simp

lemma digits_value_snoc [simp]: "digits_value (ds @ [c]) = 10 * digits_value ds + (int (of_char c) - 48)"
  by (simp add: digits_value_def)

lemma digits_value_dec_nat: "digits_value (dec_nat n) = int n"
proof (induction n rule: dec_nat.induct)
  case (1 n)
  show ?case
  proof (cases "n < 10")
    case True
    then show ?thesis by (subst dec_nat.simps) (simp add: digits_value_def)
  next
    case False
    have "int (of_char (char_of (48 + n mod 10) :: char)) = 48 + int (n mod 10)"
      by (simp add: of_char_of)
    with False 1 show ?thesis by (subst dec_nat.simps) (simp, presburger)
  qed
qed

lemma not_space_digit: "is_digit c \<Longrightarrow> \<not> is_space c"
  by (auto simp: is_digit_def is_space_def)

lemma scan_ld_fmt:
  assumes "\<forall>c \<in> set sp. is_space c" and "rest = [] \<or> \<not> is_digit (hd rest)"
  shows "scan_ld (sp @ fmt_ld i @ rest) = Some (i, rest)"
proof -
  have sign: "\<not> is_space CHR ''-''" "\<not> is_digit CHR ''-''" "\<not> is_digit CHR ''+''"
    by (auto simp: is_space_def is_digit_def)
  have d: "takeWhile is_digit (dec_nat n @ rest) = dec_nat n" "dropWhile is_digit (dec_nat n @ rest) = rest" for n
    using assms(2) dec_nat_digits
    by (cases rest; simp add: takeWhile_append2 dropWhile_append2)+
  have h: "hd (dec_nat n @ rest) \<notin> {CHR ''-'', CHR ''+''}" "\<not> is_space (hd (dec_nat n @ rest))" for n
    using dec_nat_digits[of "hd (dec_nat n)" n] sign not_space_digit by (auto simp: hd_append)
  have "skip_space (sp @ t) = skip_space t" for t
    using assms(1) unfolding skip_space_def by (subst dropWhile_append2) auto
  moreover have "skip_space (fmt_ld i @ rest) = fmt_ld i @ rest"
    using sign(1) h(2)[of "nat i"] by (cases "dec_nat (nat i) @ rest") (auto simp: skip_space_def fmt_ld_def)
  ultimately show ?thesis
    using d[of "nat i"] d[of "nat (- i)"] h(1)[of "nat i"] by (auto simp: scan_ld_def fmt_ld_def digits_value_dec_nat Let_def)
qed

text \<open>The line \<open>ps\<close> prints for a process, with any white space between the columns.\<close>

definition ps_line :: "int \<Rightarrow> int \<Rightarrow> int \<Rightarrow> int \<Rightarrow> string \<Rightarrow> string" where
  "ps_line uid pid ppid pgid cmd =
     '' '' @ fmt_ld uid @ '' '' @ fmt_ld pid @ '' '' @ fmt_ld ppid @ '' '' @ fmt_ld pgid @ '' '' @ cmd @ [NL]"

lemma takeWhile_NL: "NL \<notin> set l \<Longrightarrow> takeWhile (\<lambda>c. c \<noteq> NL) (l @ NL # r) = l"
  by (induction l) auto

lemma dropWhile_NL: "NL \<notin> set l \<Longrightarrow> dropWhile (\<lambda>c. c \<noteq> NL) (l @ NL # r) = NL # r"
  by (induction l) auto

lemma is_space_blank [simp]: "is_space CHR '' ''" "\<not> is_digit CHR '' ''"
  by (auto simp: is_space_def is_digit_def)

lemma parse_ps_line_ok:
  assumes "cmd \<noteq> []" and "\<not> is_space (hd cmd)" and "NL \<notin> set cmd"
  shows "parse_ps_line (ps_line uid pid ppid pgid cmd) =
    Some (empty_proc\<lparr>p_uid := uid, p_pid := pid, p_ppid := ppid, p_pgid := pgid, p_cmd := cmd\<rparr>)"
proof -
  have sc: "scan_ld (CHR '' '' # fmt_ld i @ CHR '' '' # t) = Some (i, CHR '' '' # t)" for i t
    using scan_ld_fmt[of "'' ''" "CHR '' '' # t" i] by simp
  have "skip_space (CHR '' '' # cmd @ [NL]) = cmd @ [NL]"
    using assms(1,2) by (cases cmd) (auto simp: skip_space_def)
  moreover have "scan_to_NL (cmd @ [NL]) = Some (cmd, [NL])"
    unfolding scan_to_NL_def takeWhile_NL[OF assms(3)] dropWhile_NL[OF assms(3)] using assms(1) by simp
  ultimately show ?thesis by (simp add: parse_ps_line_def ps_line_def sc)
qed

section \<open>Lines of the input\<close>

definition lines_text :: "string list \<Rightarrow> string" where
  "lines_text ls = concat (map (\<lambda>l. l @ [NL]) ls)"

lemma fgets_line:
  assumes "NL \<notin> set l" and "length l < n - 1"
  shows "fgets n (l @ NL # s) = Some (l @ [NL], s)"
  using assms by (simp add: fgets_def takeWhile_NL Let_def)

lemma strlen_line: "NUL \<notin> set l \<Longrightarrow> strlen (l @ [NL]) = Suc (length l)"
  by (simp add: strlen_def)

text \<open>What a line determines of an entry, and the entry as the loop leaves it for \<open>MakeTree\<close>.\<close>

definition entry_of :: "proc \<Rightarrow> int \<times> int \<times> int \<times> int \<times> string" where
  "entry_of p = (p_uid p, p_pid p, p_ppid p, p_pgid p, p_cmd p)"

definition fresh :: "proc \<Rightarrow> bool" where
  "fresh p \<longleftrightarrow> p_parent p = None \<and> p_child p = None \<and> p_sister p = None \<and> \<not> p_print p"

lemma fresh_unlink [simp]: "fresh (unlink p)"
  by (simp add: fresh_def unlink_def)

lemma ps_lines_step:
  assumes "NL \<notin> set l" "NUL \<notin> set l" "length l < MAXLINE - 2" "\<And>n. alloc n"
  shows "ps_lines getpwuid alloc i (l @ NL # s) un =
    (case parse_ps_line (l @ [NL]) of
       None \<Rightarrow> ps_lines getpwuid alloc i s un
     | Some p \<Rightarrow>
         let (nm, un1) = uid2user getpwuid 32 (p_uid p) un in
         rbind (ps_lines getpwuid alloc (i + 1) s un1)
           (\<lambda>(P, un2). Inr (unlink (p\<lparr>p_name := nm\<rparr>) # P, un2)))"
proof -
  have f: "fgets MAXLINE (l @ NL # s) = Some (l @ [NL], s)" using assms(1,3) by (intro fgets_line) auto
  have len: "strlen (l @ [NL]) \<noteq> MAXLINE - 1" using assms(2,3) by (simp add: strlen_line)
  have c: "cstr (l @ [NL]) = l @ [NL]" using assms(2) by (intro cstr_id) simp
  show ?thesis using assms(4) by (subst ps_lines.simps) (simp only: f len c option.case prod.case if_False rbind_simps not_True_eq_False)
qed

lemma ps_lines_text:
  assumes "\<forall>l \<in> set ls. NL \<notin> set l \<and> NUL \<notin> set l \<and> length l < MAXLINE - 2" and "\<And>n. alloc n"
  shows "\<exists>P un'. ps_lines getpwuid alloc i (lines_text ls) un = Inr (P, un') \<and>
    map entry_of P = map entry_of (List.map_filter (\<lambda>l. parse_ps_line (l @ [NL])) ls) \<and>
    (\<forall>p \<in> set P. fresh p)"
  using assms(1)
proof (induction ls arbitrary: i un)
  case Nil
  then show ?case by (subst ps_lines.simps) (simp add: lines_text_def fgets_def List.map_filter_simps)
next
  case (Cons l ls)
  have t: "lines_text (l # ls) = l @ NL # lines_text ls" by (simp add: lines_text_def)
  from Cons.prems assms(2) have st: "NL \<notin> set l" "NUL \<notin> set l" "length l < MAXLINE - 2" "\<And>n. alloc n" by auto
  show ?case
  proof (cases "parse_ps_line (l @ [NL])")
    case None
    with Cons show ?thesis unfolding t ps_lines_step[OF st] by (simp add: List.map_filter_simps)
  next
    case (Some p)
    obtain nm un1 where u: "uid2user getpwuid 32 (p_uid p) un = (nm, un1)" by fastforce
    from Cons obtain P un' where P: "ps_lines getpwuid alloc (i + 1) (lines_text ls) un1 = Inr (P, un')"
      "map entry_of P = map entry_of (List.map_filter (\<lambda>l. parse_ps_line (l @ [NL])) ls)"
      "\<forall>p \<in> set P. fresh p" by (metis list.set_intros(2))
    have "entry_of (unlink (p\<lparr>p_name := nm\<rparr>)) = entry_of p" by (simp add: entry_of_def unlink_def)
    with Some u P show ?thesis unfolding t ps_lines_step[OF st]
      by (auto simp: List.map_filter_simps)
  qed
qed

section \<open>Entries of /proc\<close>

text \<open>A line of \<open>/proc/pid/stat\<close>, and a directory of which the process vanishes after \<open>k\<close> of
  the three accesses.\<close>

record stat_info =
  i_uid :: int
  i_pid :: int
  i_comm :: string
  i_state :: char
  i_ppid :: int
  i_pgid :: int
  i_more :: string
  i_cmdline :: string

definition stat_text :: "stat_info \<Rightarrow> string" where
  "stat_text e = fmt_ld (i_pid e) @ '' '' @ i_comm e @ '' '' @ i_state e # '' '' @ fmt_ld (i_ppid e) @
     '' '' @ fmt_ld (i_pgid e) @ '' '' @ i_more e"

definition dir_of :: "stat_info \<times> nat \<Rightarrow> proc_dir" where
  "dir_of = (\<lambda>(e, k). \<lparr>d_stat = (if 0 < k then Some (i_uid e) else None),
     d_statfile = (if 1 < k then Some (stat_text e) else None),
     d_cmdline = (if 2 < k then Some (i_cmdline e) else None)\<rparr>)"

definition info_ok :: "stat_info \<Rightarrow> bool" where
  "info_ok e \<longleftrightarrow> i_comm e \<noteq> [] \<and> (\<forall>c \<in> set (i_comm e). \<not> is_space c) \<and> length (i_comm e) < MAXLINE \<and>
     \<not> is_space (i_state e)"

definition info_entry :: "stat_info \<Rightarrow> int \<times> int \<times> int \<times> int \<times> string" where
  "info_entry e = (i_uid e, i_pid e, i_ppid e, i_pgid e,
     if i_cmdline e = [] then i_comm e
     else map (\<lambda>c. if c = NUL then CHR '' '' else c) (take (MAXLINE - 1) (i_cmdline e)))"

lemma scan_word_space:
  assumes "w \<noteq> []" and "\<forall>c \<in> set w. \<not> is_space c"
  shows "scan_word (CHR '' '' # w @ CHR '' '' # t) = Some (w, CHR '' '' # t)"
proof -
  have "takeWhile (\<lambda>c. \<not> is_space c) (w @ CHR '' '' # t) = w \<and> dropWhile (\<lambda>c. \<not> is_space c) (w @ CHR '' '' # t) = CHR '' '' # t"
    using assms(2) by (induction w) auto
  moreover have "skip_space (CHR '' '' # w @ CHR '' '' # t) = w @ CHR '' '' # t"
    using assms by (cases w) (auto simp: skip_space_def)
  ultimately show ?thesis using assms(1) by (simp add: scan_word_def Let_def)
qed

lemma scan_stat_ok:
  assumes "info_ok e"
  shows "scan_stat (stat_text e) p =
    Inr (p\<lparr>p_pid := i_pid e, p_cmd := i_comm e, p_ppid := i_ppid e, p_pgid := i_pgid e\<rparr>)"
proof -
  have sc: "scan_ld (CHR '' '' # fmt_ld i @ CHR '' '' # t) = Some (i, CHR '' '' # t)"
    "scan_ld (fmt_ld i @ CHR '' '' # t) = Some (i, CHR '' '' # t)" for i t
    using scan_ld_fmt[of "'' ''" "CHR '' '' # t" i] scan_ld_fmt[of "[]" "CHR '' '' # t" i] by simp_all
  have "skip_space (CHR '' '' # i_state e # t) = i_state e # t" for t
    using assms by (simp add: skip_space_def info_ok_def)
  with assms show ?thesis
    by (simp add: scan_stat_def stat_text_def sc scan_word_space info_ok_def scan_ids_def)
qed

lemma direct_loop_entries:
  assumes "\<forall>(e, k) \<in> set es. info_ok e"
  shows "\<exists>P un'. direct_loop getpwuid (map dir_of es) p un = Inr (P, un') \<and>
    map entry_of P = map (\<lambda>ek. info_entry (fst ek)) (filter (\<lambda>(e, k). 2 < k) es) \<and> (\<forall>q \<in> set P. fresh q)"
  using assms
proof (induction es arbitrary: p un)
  case (Cons ek es)
  obtain e k where ek: "ek = (e, k)" by fastforce
  with Cons.prems have ok: "info_ok e" by simp
  obtain nm un1 where u: "uid2user getpwuid 32 (i_uid e) un = (nm, un1)" by fastforce
  have IH: "\<exists>P un'. direct_loop getpwuid (map dir_of es) q v = Inr (P, un') \<and>
    map entry_of P = map (\<lambda>ek. info_entry (fst ek)) (filter (\<lambda>(e, k). 2 < k) es) \<and> (\<forall>q \<in> set P. fresh q)" for q v
    using Cons.prems by (intro Cons.IH) auto
  show ?case
  proof (cases "2 < k")
    case True
    let ?p = "p\<lparr>p_uid := i_uid e, p_name := nm, p_pid := i_pid e, p_cmd := i_comm e, p_ppid := i_ppid e,
      p_pgid := i_pgid e, p_thcount := 1\<rparr>"
    let ?q = "unlink (read_cmdline (i_cmdline e) ?p)"
    have d: "direct_entry getpwuid (dir_of ek) p un = Inr ((?q, True), un1)"
      using True u scan_stat_ok[OF ok] by (simp add: ek direct_entry_def dir_of_def)
    from IH[of empty_proc un1] obtain P un' where P: "direct_loop getpwuid (map dir_of es) empty_proc un1 = Inr (P, un')"
      "map entry_of P = map (\<lambda>ek. info_entry (fst ek)) (filter (\<lambda>(e, k). 2 < k) es)" "\<forall>q \<in> set P. fresh q" by blast
    have "entry_of ?q = info_entry e"
      by (auto simp: entry_of_def info_entry_def read_cmdline_def unlink_def Let_def MAXLINE_def)
    with d P True show ?thesis by (simp add: ek)
  next
    case False
    then obtain q v where "direct_entry getpwuid (dir_of ek) p un = Inr ((q, False), v)"
      using u scan_stat_ok[OF ok] by (cases "0 < k"; cases "1 < k") (auto simp: ek direct_entry_def dir_of_def)
    with IH[of q v] False show ?thesis by (simp add: ek)
  qed
qed simp

section \<open>Properties\<close>

text \<open>The cache holds the first eight characters of the name of each uid it knows, once.\<close>

definition cache_ok :: "(int \<Rightarrow> string option) \<Rightarrow> un_cache \<Rightarrow> bool" where
  "cache_ok getpwuid un \<longleftrightarrow> length un \<le> NUMUN \<and> distinct (map fst un) \<and>
     (\<forall>(u, n) \<in> set un. n = take 8 (uid_name getpwuid u))"

lemma cached_None: "cached un u = None \<longleftrightarrow> u \<notin> fst ` set un"
  by (force simp: cached_def find_None_iff)

lemma cached_Some: "cached un u = Some n \<Longrightarrow> (u, n) \<in> set un"
proof -
  have "find f xs = Some e \<Longrightarrow> e \<in> set xs \<and> f e" for f :: "int \<times> string \<Rightarrow> bool" and xs e
    by (induction xs) (auto split: if_splits)
  moreover assume "cached un u = Some n"
  ultimately show ?thesis by (fastforce simp: cached_def)
qed

text \<open>
  The user-name cache keeps its invariant, and \<open>uid2user\<close> answers with the login name (or the
  number, for a uid without one) cut to the buffer, as long as login names have at most eight
  characters.
\<close>

theorem uid2user_names_user:
  assumes "cache_ok getpwuid un" and "length (uid_name getpwuid (uid mod 2 ^ 32)) \<le> 8"
  shows "\<exists>un'. uid2user getpwuid len uid un = (take (len - 1) (uid_name getpwuid (uid mod 2 ^ 32)), un') \<and>
    cache_ok getpwuid un'"
proof (cases "cached un (uid mod 2 ^ 32)")
  case None
  then have "uid mod 2 ^ 32 \<notin> fst ` set un" by (simp add: cached_None)
  with None assms(1) show ?thesis by (auto simp: uid2user_def Let_def cache_ok_def)
next
  case (Some n)
  from cached_Some[OF this] assms have "n = uid_name getpwuid (uid mod 2 ^ 32)" by (auto simp: cache_ok_def)
  with Some assms(1) show ?thesis by (simp add: uid2user_def)
qed

theorem uid2user_names_user_witness:
  "cache_ok (\<lambda>u. if u = 0 then Some ''root'' else None) [] \<and>
   length (uid_name (\<lambda>u. if u = 0 then Some ''root'' else None) (0 mod 2 ^ 32)) \<le> 8 \<and>
   (\<exists>un'. uid2user (\<lambda>u. if u = 0 then Some ''root'' else None) 32 0 [] =
      (take (32 - 1) (uid_name (\<lambda>u. if u = 0 then Some ''root'' else None) (0 mod 2 ^ 32)), un') \<and>
      cache_ok (\<lambda>u. if u = 0 then Some ''root'' else None) un')"
proof -
  let ?g = "\<lambda>u :: int. if u = 0 then Some ''root'' else None"
  have "cache_ok ?g []" "length (uid_name ?g (0 mod 2 ^ 32)) \<le> 8"
    by (simp_all add: cache_ok_def uid_name_def)
  with uid2user_names_user[OF this, of 32] show ?thesis by blast
qed

text \<open>
  A login name of more than eight characters is returned differently the first and the second
  time: the entry kept for later calls is cut to eight characters. Only the first process of such
  a user carries the user's name.
\<close>

theorem uid2user_cuts_long_names:
  assumes "8 < length (uid_name getpwuid (uid mod 2 ^ 32))" and "cached un (uid mod 2 ^ 32) = None"
    and "length un < NUMUN" and "uid2user getpwuid 32 uid un = (first, un')"
    and "uid2user getpwuid 32 uid un' = (second, un'')"
  shows "first = take 31 (uid_name getpwuid (uid mod 2 ^ 32)) \<and> second = take 8 first \<and> first \<noteq> second"
proof -
  have u: "un' = un @ [(uid mod 2 ^ 32, take 8 (uid_name getpwuid (uid mod 2 ^ 32)))]"
    and f: "first = take 31 (uid_name getpwuid (uid mod 2 ^ 32))"
    using assms(2-4) by (auto simp: uid2user_def Let_def)
  have "cached un' (uid mod 2 ^ 32) = Some (take 8 (uid_name getpwuid (uid mod 2 ^ 32)))"
    by (simp add: u cached_def)
  with assms(5) have "second = take 8 (uid_name getpwuid (uid mod 2 ^ 32))" by (simp add: uid2user_def)
  then have s: "second = take 8 first" by (simp add: f min_def)
  moreover have "length (take 8 first) \<noteq> length first" using assms(1) by (simp add: f)
  ultimately show ?thesis using f by metis
qed

definition long_user :: "int \<Rightarrow> string option" where
  "long_user u = Some ''administrator''"

theorem uid2user_cuts_long_names_witness:
  "8 < length (uid_name long_user (1000 mod 2 ^ 32)) \<and> cached [] (1000 mod 2 ^ 32) = None \<and>
   (\<exists>first second un' un''. uid2user long_user 32 1000 [] = (first, un') \<and>
      uid2user long_user 32 1000 un' = (second, un'') \<and>
      first = take 31 (uid_name long_user (1000 mod 2 ^ 32)) \<and> second = take 8 first \<and> first \<noteq> second)"
proof -
  have h: "8 < length (uid_name long_user (1000 mod 2 ^ 32))" "cached [] (1000 mod 2 ^ 32) = None"
    "length ([] :: un_cache) < NUMUN"
    by (simp_all add: uid_name_def long_user_def cached_def NUMUN_def)
  obtain first un' where f: "uid2user long_user 32 1000 [] = (first, un')" by fastforce
  obtain second un'' where s: "uid2user long_user 32 1000 un' = (second, un'')" by fastforce
  from uid2user_cuts_long_names[OF h f s] h f s show ?thesis by blast
qed

text \<open>
  Reading what \<open>ps\<close> prints is the inverse of printing it: after the header line,
  \<open>GetProcesses\<close> has one entry per line, in order, with the numbers and the command of that
  line, and every entry is ready for \<open>MakeTree\<close>. Lines may have up to \<open>MAXLINE - 3\<close> characters.
\<close>

theorem GetProcesses_reads_ps:
  assumes "\<And>n. alloc n" and "NL \<notin> set header" and "length header < MAXLINE - 1"
    and "\<forall>(uid, pid, ppid, pgid, cmd) \<in> set es. cmd \<noteq> [] \<and> \<not> is_space (hd cmd) \<and> NL \<notin> set cmd \<and>
      NUL \<notin> set cmd \<and> length (ps_line uid pid ppid pgid cmd) < MAXLINE - 1"
  shows "\<exists>P un'. GetProcesses getpwuid alloc
      (Some (header @ [NL] @ concat (map (\<lambda>(uid, pid, ppid, pgid, cmd). ps_line uid pid ppid pgid cmd) es))) un =
      Inr (P, un') \<and> map entry_of P = es \<and> (\<forall>p \<in> set P. fresh p)"
proof -
  let ?line = "\<lambda>(uid, pid, ppid, pgid, cmd). ps_line uid pid ppid pgid cmd"
  let ?body = "\<lambda>e. butlast (?line e)"
  have snoc: "?body e @ [NL] = ?line e" for e by (cases e) (simp add: ps_line_def butlast_append)
  have ok: "NL \<notin> set (?body e) \<and> NUL \<notin> set (?body e) \<and> length (?body e) < MAXLINE - 2" if "e \<in> set es" for e
  proof -
    have "is_digit c \<Longrightarrow> c \<noteq> NL \<and> c \<noteq> NUL" for c by (auto simp: is_digit_def)
    then have "NL \<notin> set (fmt_ld i) \<and> NUL \<notin> set (fmt_ld i)" for i
      using dec_nat_digits[of _ "nat i"] dec_nat_digits[of _ "nat (- i)"] by (auto simp: fmt_ld_def)
    with that assms(4) show ?thesis by (cases e) (auto simp: ps_line_def butlast_append)
  qed
  have parse: "parse_ps_line (?body e @ [NL]) = Some (empty_proc\<lparr>p_uid := fst e, p_pid := fst (snd e),
      p_ppid := fst (snd (snd e)), p_pgid := fst (snd (snd (snd e))), p_cmd := snd (snd (snd (snd e)))\<rparr>)"
    if "e \<in> set es" for e
    unfolding snoc using that assms(4) by (cases e) (auto simp: parse_ps_line_ok)
  have whole: "concat (map ?line es) = lines_text (map ?body es)"
    unfolding lines_text_def map_map comp_def snoc by simp
  have "map entry_of (List.map_filter (\<lambda>l. parse_ps_line (l @ [NL])) (map ?body xs)) = xs"
    if "set xs \<subseteq> set es" for xs
    using that parse by (induction xs) (auto simp: List.map_filter_simps entry_of_def)
  then have entries: "map entry_of (List.map_filter (\<lambda>l. parse_ps_line (l @ [NL])) (map ?body es)) = es" by blast
  have "\<forall>l \<in> set (map ?body es). NL \<notin> set l \<and> NUL \<notin> set l \<and> length l < MAXLINE - 2" using ok by simp
  from ps_lines_text[OF this, of alloc getpwuid 0 un, OF assms(1)]
  obtain P un' where P: "ps_lines getpwuid alloc 0 (lines_text (map ?body es)) un = Inr (P, un')"
    "map entry_of P = es" "\<forall>p \<in> set P. fresh p" unfolding entries by blast
  have "fgets MAXLINE (header @ NL # lines_text (map ?body es)) = Some (header @ [NL], lines_text (map ?body es))"
    by (rule fgets_line[OF assms(2,3)])
  with P assms(1) show ?thesis by (simp add: GetProcesses_def whole)
qed

lemma MAXLINE_big: "100 < MAXLINE"
  by (simp add: MAXLINE_def)

theorem GetProcesses_reads_ps_witness:
  "\<exists>P un'. GetProcesses (\<lambda>u. None) (\<lambda>n. True)
     (Some (''UID'' @ [NL] @ concat (map (\<lambda>(uid, pid, ppid, pgid, cmd). ps_line uid pid ppid pgid cmd)
        [(0, 1, 0, 1, ''init''), (1000, 7, 1, 7, ''sh -i'')]))) [] = Inr (P, un') \<and>
   map entry_of P = [(0, 1, 0, 1, ''init''), (1000, 7, 1, 7, ''sh -i'')] \<and> (\<forall>p \<in> set P. fresh p)"
proof -
  have d: "length (dec_nat n) \<le> 4" if "n \<le> 1000" for n
    using that by (subst dec_nat.simps, subst dec_nat.simps, subst dec_nat.simps, subst dec_nat.simps) auto
  have len: "length (fmt_ld i) \<le> 4" if "0 \<le> i" "i \<le> 1000" for i
    using that d[of "nat i"] by (simp add: fmt_ld_def)
  have "length (ps_line 0 1 0 1 ''init'') < MAXLINE - 1" "length (ps_line 1000 7 1 7 ''sh -i'') < MAXLINE - 1"
    using len[of 0] len[of 1] len[of 7] len[of 1000] MAXLINE_big by (simp_all add: ps_line_def)
  then show ?thesis
    using MAXLINE_big by (intro GetProcesses_reads_ps) (auto simp: is_space_def)
qed

text \<open>
  \<open>GetProcessesDirect\<close> enters exactly the processes that live through all three accesses,
  in reverse order of the listing, each with its own numbers and command line (the short name when
  the command line is empty): nothing a vanished process left in a slot survives. This holds for
  short names without white space.
\<close>

theorem GetProcessesDirect_reads_proc:
  assumes "alloc (length es)" and "\<forall>(e, k) \<in> set es. info_ok e"
  shows "\<exists>P un'. GetProcessesDirect getpwuid alloc (map dir_of es) un = Inr (P, un') \<and>
    map entry_of P = map (\<lambda>ek. info_entry (fst ek)) (filter (\<lambda>(e, k). 2 < k) (rev es)) \<and>
    (\<forall>p \<in> set P. fresh p)"
  using direct_loop_entries[of "rev es" getpwuid empty_proc un] assms
  by (simp add: GetProcessesDirect_def rev_map)

definition sample_info :: "int \<Rightarrow> int \<Rightarrow> string \<Rightarrow> stat_info" where
  "sample_info pid ppid comm = \<lparr>i_uid = 0, i_pid = pid, i_comm = comm, i_state = CHR ''S'', i_ppid = ppid,
     i_pgid = pid, i_more = ''0 -1'', i_cmdline = []\<rparr>"

theorem GetProcessesDirect_reads_proc_witness:
  "\<exists>P un'. GetProcessesDirect (\<lambda>u. None) (\<lambda>n. True)
      (map dir_of [(sample_info 1 0 ''(init)'', 3), (sample_info 5 1 ''(sh)'', 2), (sample_info 7 1 ''(vi)'', 3)]) [] =
      Inr (P, un') \<and>
    map entry_of P = map (\<lambda>ek. info_entry (fst ek)) (filter (\<lambda>(e, k). 2 < k)
      (rev [(sample_info 1 0 ''(init)'', 3), (sample_info 5 1 ''(sh)'', 2 :: nat), (sample_info 7 1 ''(vi)'', 3)])) \<and>
    (\<forall>p \<in> set P. fresh p)"
  by (rule GetProcessesDirect_reads_proc) (auto simp: info_ok_def sample_info_def is_space_def MAXLINE_def)

text \<open>
  A short name with a blank derails the scan of \<open>/proc/pid/stat\<close>: the conversion \<open>%s\<close> stops
  at the blank, the character conversion takes the first letter of the second word, and the parent
  and group numbers keep what the slot held before.
\<close>

theorem stat_with_blank_loses_parent:
  assumes "a \<noteq> []" "\<forall>c \<in> set a. \<not> is_space c" "length a < MAXLINE"
    and "\<not> is_space b" "\<not> is_space c" "\<not> is_digit c" "c \<noteq> CHR ''-''" "c \<noteq> CHR ''+''"
  shows "scan_stat (fmt_ld pid @ '' '' @ a @ '' '' @ b # c # t) p = Inr (p\<lparr>p_pid := pid, p_cmd := a\<rparr>)"
proof -
  have "scan_ld (fmt_ld pid @ CHR '' '' # s) = Some (pid, CHR '' '' # s)" for s
    using scan_ld_fmt[of "[]" "CHR '' '' # s" pid] by simp
  moreover have "skip_space (CHR '' '' # b # c # t) = b # c # t" using assms(4) by (simp add: skip_space_def)
  moreover have "scan_ld (c # t) = None" using assms(5-) by (simp add: scan_ld_def skip_space_def Let_def)
  ultimately show ?thesis
    using assms(1-3) by (simp add: scan_stat_def scan_word_space scan_ids_def)
qed

theorem stat_with_blank_loses_parent_witness:
  "scan_stat (fmt_ld 70 @ '' '' @ ''(tmux:'' @ '' '' @ CHR ''s'' # CHR ''e'' # ''rver) S 1 70'') empty_proc =
     Inr (empty_proc\<lparr>p_pid := 70, p_cmd := ''(tmux:''\<rparr>)"
  by (rule stat_with_blank_loses_parent) (auto simp: is_space_def is_digit_def MAXLINE_def)

text \<open>
  A line of exactly \<open>MAXLINE - 1\<close> characters, its newline included, is taken for a line
  that is cut off: the line after it is thrown away whatever it says, and when there is none the
  null pointer of \<open>fgets\<close> is passed to \<open>strlen\<close>.
\<close>

theorem full_line_swallows_next:
  assumes "NL \<notin> set l" "NUL \<notin> set l" "length l = MAXLINE - 2"
    and "NL \<notin> set m" "length m < MAXLINE - 2" "NL \<notin> set m'" "length m' < MAXLINE - 2"
  shows "ps_lines getpwuid alloc i (l @ [NL]) un = Inl NullDeref \<and>
    ps_lines getpwuid alloc i (l @ NL # m @ NL # s) un = ps_lines getpwuid alloc i (l @ NL # m' @ NL # s) un"
proof -
  have f: "fgets MAXLINE (l @ NL # t) = Some (l @ [NL], t)" for t
    using assms(1,3) MAXLINE_big by (intro fgets_line) auto
  have n: "strlen (l @ [NL]) = MAXLINE - 1" using assms(2,3) MAXLINE_big by (simp add: strlen_line)
  have e: "drop_rest [] = Inl NullDeref" by (simp add: drop_rest.simps fgets_def)
  have d: "drop_rest (x @ NL # s) = Inr s" if "NL \<notin> set x" "length x < MAXLINE - 2" for x
  proof -
    have "fgets MAXLINE (x @ NL # s) = Some (x @ [NL], s)" using that by (intro fgets_line) auto
    moreover have "strlen (x @ [NL]) \<noteq> MAXLINE - 1" using strlen_le[of "x @ [NL]"] that by simp
    ultimately show ?thesis by (subst drop_rest.simps) simp
  qed
  show ?thesis
    unfolding ps_lines.simps[of _ _ _ "l @ [NL]"] ps_lines.simps[of _ _ _ "l @ NL # m @ NL # s"]
      ps_lines.simps[of _ _ _ "l @ NL # m' @ NL # s"] f
    by (simp add: n e d[OF assms(4,5)] d[OF assms(6,7)])
qed

theorem full_line_swallows_next_witness:
  "ps_lines (\<lambda>u. None) (\<lambda>n. True) 0 (replicate (MAXLINE - 2) CHR ''x'' @ [NL]) [] = Inl NullDeref \<and>
   ps_lines (\<lambda>u. None) (\<lambda>n. True) 0 (replicate (MAXLINE - 2) CHR ''x'' @ NL # ''0 7 1 7 sh'' @ NL # []) [] =
   ps_lines (\<lambda>u. None) (\<lambda>n. True) 0 (replicate (MAXLINE - 2) CHR ''x'' @ NL # [] @ NL # []) []"
  using MAXLINE_big by (intro full_line_swallows_next) auto

text \<open>
  \<open>GetRootPid\<close> returns the pid of a process of the table, so that printing starts at an
  existing entry; it gives up exactly when no process qualifies.
\<close>

theorem GetRootPid_finds_process:
  "case GetRootPid P of
     Inr r \<Rightarrow> \<exists>i. get_pid_index P r = Some i \<and> i < length P \<and> p_pid (P ! i) = r
   | Inl e \<Rightarrow> e = ExitCode 1 \<and>
       (\<forall>p \<in> set P. p_pid p \<noteq> 1 \<and> p_ppid p \<noteq> 0 \<and> p_ppid p \<noteq> 1 \<and> p_pid p \<noteq> p_ppid p)"
proof -
  have ex: "\<exists>i. get_pid_index P (p_pid p) = Some i \<and> i < length P \<and> p_pid (P ! i) = p_pid p" if "p \<in> set P" for p
  proof -
    from that have "get_pid_index P (p_pid p) \<noteq> None"
      unfolding get_pid_index_def pid_index_below_None by (auto simp: in_set_conv_nth)
    then obtain i where "get_pid_index P (p_pid p) = Some i" by blast
    with pid_index_below_Some show ?thesis by (auto simp: get_pid_index_def)
  qed
  have mem: "find f P = Some p \<Longrightarrow> p \<in> set P" for f p by (metis find_Some_iff nth_mem)
  show ?thesis
    using ex[OF mem] by (auto simp: GetRootPid_def find_None_iff split: option.splits)
qed

theorem GetRootPid_finds_process_witness:
  "GetRootPid ps_sample = Inr 1 \<and>
   (\<exists>i. get_pid_index ps_sample 1 = Some i \<and> i < length ps_sample \<and> p_pid (ps_sample ! i) = 1)"
proof -
  have r: "GetRootPid ps_sample = Inr 1" by (simp add: GetRootPid_def ps_sample_def ps_entry_def)
  from GetRootPid_finds_process[of ps_sample] r show ?thesis by simp
qed

end
