(* ===== verification/PsMain.thy ===== *)
theory PsMain
  imports PsRead
begin

text \<open>
  \<open>tree/pstree_source_code.c\<close>, \<open>main\<close>: the options, the window width, and the passes over the
  table in the order the program makes them. The pairs of an option letter and its argument that
  \<open>getopt\<close> delivers and the remaining arguments are parameters, and so is what the system
  answers (\<open>ps_env\<close>). The result is \<open>None\<close> when a pass runs forever, an exit status, or the
  initial string and the printed lines.
\<close>

section \<open>Definitions\<close>

record ps_env =
  e_getpwnam :: "string \<Rightarrow> bool"
  e_getpwuid :: "int \<Rightarrow> string option"
  e_alloc :: "nat \<Rightarrow> bool"
  e_fopen :: "string \<Rightarrow> string option"
  e_stdin :: string
  e_proc :: "proc_dir list"
  e_getpid :: int
  e_ws_col :: "nat option"

record ps_args =
  a_input :: "string option"
  a_graph :: int
  a_maxLdepth :: int
  a_wide :: bool
  a_compress :: bool
  a_opts :: ps_options

definition default_args :: ps_args where
  "default_args = \<lparr>a_input = None, a_graph = 0, a_maxLdepth = 100, a_wide = False, a_compress = False,
     a_opts = \<lparr>showall = True, soption = False, Uoption = False, opt_name = [], opt_str = [], ipid = -1, MyPid = 0\<rparr>\<rparr>"

definition atoi :: "string \<Rightarrow> int" where
  "atoi s = (case scan_ld s of None \<Rightarrow> 0 | Some (v, _) \<Rightarrow> v)"

definition parse_option :: "(string \<Rightarrow> bool) \<Rightarrow> char \<Rightarrow> string \<Rightarrow> ps_args \<Rightarrow> ps_args res" where
  "parse_option getpwnam ch optarg a =
     (if ch = CHR ''c'' then Inr (a\<lparr>a_compress := True\<rparr>)
      else if ch = CHR ''f'' then Inr (a\<lparr>a_input := Some optarg\<rparr>)
      else if ch = CHR ''g'' then
        (let graph = atoi optarg in
         if graph < 0 \<or> 4 \<le> graph then Inl (ExitCode 1) else Inr (a\<lparr>a_graph := graph\<rparr>))
      else if ch = CHR ''l'' then
        (let m = atoi optarg in Inr (a\<lparr>a_maxLdepth := if m < 1 then 1 else m\<rparr>))
      else if ch = CHR ''p'' then
        Inr (a\<lparr>a_opts := (a_opts a)\<lparr>showall := False, ipid := atoi optarg\<rparr>\<rparr>)
      else if ch = CHR ''s'' then
        Inr (a\<lparr>a_opts := (a_opts a)\<lparr>showall := False, soption := True, opt_str := optarg\<rparr>\<rparr>)
      else if ch = CHR ''u'' then
        (if getpwnam optarg
         then Inr (a\<lparr>a_opts := (a_opts a)\<lparr>showall := False, opt_name := optarg\<rparr>\<rparr>)
         else Inl (ExitCode 1))
      else if ch = CHR ''U'' then
        Inr (a\<lparr>a_opts := (a_opts a)\<lparr>showall := False, Uoption := True\<rparr>\<rparr>)
      else if ch = CHR ''w'' then Inr (a\<lparr>a_wide := True\<rparr>)
      else Inl (ExitCode 1))"

fun parse_options :: "(string \<Rightarrow> bool) \<Rightarrow> (char \<times> string) list \<Rightarrow> ps_args \<Rightarrow> ps_args res" where
  "parse_options getpwnam [] a = Inr a"
| "parse_options getpwnam ((ch, optarg) # os) a =
     rbind (parse_option getpwnam ch optarg a) (parse_options getpwnam os)"

definition read_table :: "ps_env \<Rightarrow> ps_args \<Rightarrow> (proc list \<times> un_cache) res" where
  "read_table env a =
     (case a_input a of
        None \<Rightarrow> GetProcessesDirect (e_getpwuid env) (e_alloc env) (e_proc env) []
      | Some input \<Rightarrow>
          GetProcesses (e_getpwuid env) (e_alloc env)
            (if input = ''-'' then Some (e_stdin env) else e_fopen env input) [])"

definition columns :: "ps_env \<Rightarrow> ps_args \<Rightarrow> tree_chars \<Rightarrow> nat" where
  "columns env a C =
     (let c0 = (if a_wide a then MAXLINE - 1 else case e_ws_col env of Some w \<Rightarrow> w | None \<Rightarrow> 0);
          c1 = (if c0 = 0 then MAXLINE - 1 else c0);
          c2 = c1 + length (tc_sg C) + length (tc_eg C)
      in if MAXLINE \<le> c2 then MAXLINE - 1 else c2)"

definition build_tree :: "ps_options \<Rightarrow> proc list \<Rightarrow> proc list option" where
  "build_tree opt P = Option.bind (MakeTree P) (\<lambda>P1. Option.bind (MarkProcs opt P1) DropProcs)"

fun print_roots :: "print_cfg \<Rightarrow> proc list \<Rightarrow> nat option list \<Rightarrow> pstate \<Rightarrow> pstate option" where
  "print_roots cfg P [] st = Some st"
| "print_roots cfg P (None # is) st = print_roots cfg P is st"
| "print_roots cfg P (Some i # is) st = Option.bind (PrintTree cfg P i [] st) (print_roots cfg P is)"

definition main_cfg :: "ps_env \<Rightarrow> ps_args \<Rightarrow> print_cfg" where
  "main_cfg env a =
     (let C = TreeChars ! nat (a_graph a)
      in \<lparr>cfg_chars = C, cfg_columns = columns env a C, cfg_maxLdepth = a_maxLdepth a\<rparr>)"

definition main_opts :: "ps_env \<Rightarrow> ps_args \<Rightarrow> ps_options" where
  "main_opts env a = (a_opts a)\<lparr>MyPid := e_getpid env\<rparr>"

definition roots :: "string list \<Rightarrow> int \<Rightarrow> proc list \<Rightarrow> nat option list" where
  "roots operands RootPid P =
     (if operands = [] then [get_pid_index P RootPid]
      else map (\<lambda>arg. get_pid_index P (atoi arg)) operands)"

definition run_tree ::
  "ps_env \<Rightarrow> ps_args \<Rightarrow> string list \<Rightarrow> proc list \<Rightarrow> int \<Rightarrow> (string \<times> string list) option" where
  "run_tree env a operands P RootPid =
     Option.bind (build_tree (main_opts env a) P) (\<lambda>Q.
       map_option (\<lambda>st. (tc_init (cfg_chars (main_cfg env a)), snd st))
         (print_roots (main_cfg env a) Q (roots operands RootPid Q) (0, [])))"

definition ps_main ::
  "ps_env \<Rightarrow> (char \<times> string) list \<Rightarrow> string list \<Rightarrow> (string \<times> string list) res option" where
  "ps_main env opts operands =
     (case rbind (parse_options (e_getpwnam env) opts default_args) (\<lambda>a.
            rbind (read_table env a) (\<lambda>(P, _).
            if P = [] then Inl (ExitCode 1)
            else rbind (GetRootPid P) (\<lambda>RootPid. Inr (a, P, RootPid)))) of
        Inl e \<Rightarrow> Some (Inl e)
      | Inr (a, P, RootPid) \<Rightarrow> map_option Inr (run_tree env a operands P RootPid))"

section \<open>What main relies on\<close>

lemma direct_loop_fresh: "direct_loop getpwuid ds p un = Inr (P, un') \<Longrightarrow> q \<in> set P \<Longrightarrow> fresh q"
proof (induction ds arbitrary: p un P un')
  case (Cons d ds)
  then obtain r b un1 where d: "direct_entry getpwuid d p un = Inr ((r, b), un1)" by auto
  moreover have "b \<Longrightarrow> fresh r"
    using d by (auto simp: direct_entry_def Let_def split: option.splits prod.splits)
  ultimately show ?case using Cons by (cases b) auto
qed simp

lemma ps_lines_fresh: "ps_lines getpwuid alloc i s un = Inr (P, un') \<Longrightarrow> q \<in> set P \<Longrightarrow> fresh q"
proof (induction getpwuid alloc i s un arbitrary: P un' rule: ps_lines.induct)
  case (1 getpwuid alloc i s un)
  show ?case
  proof (cases "fgets MAXLINE s")
    case None
    with "1.prems" show ?thesis by (subst (asm) ps_lines.simps) simp
  next
    case (Some ls)
    obtain line s1 where ls: "ls = (line, s1)" by fastforce
    from "1.prems"(1) Some ls obtain s2 where s2: "(if strlen line = MAXLINE - 1 then drop_rest s1 else Inr s1) = Inr s2"
      and al: "alloc (i + 1)"
      by (subst (asm) ps_lines.simps) (auto split: if_splits)
    have nal: "\<not> \<not> alloc (i + 1)" using al by simp
    note IH = "1.IH"(1)[OF Some ls[symmetric] s2 nal] "1.IH"(2)[OF Some ls[symmetric] s2 nal]
    show ?thesis
    proof (cases "parse_ps_line (cstr line)")
      case None
      with "1.prems" Some ls s2 al have "ps_lines getpwuid alloc i s2 un = Inr (P, un')"
        by (subst (asm) ps_lines.simps) simp
      with IH(1) None "1.prems"(2) show ?thesis by simp
    next
      case (Some p)
      obtain nm un1 where u: "uid2user getpwuid 32 (p_uid p) un = (nm, un1)" by fastforce
      from "1.prems"(1) Some \<open>fgets MAXLINE s = Some ls\<close> ls s2 al u obtain P' un2
        where "ps_lines getpwuid alloc (i + 1) s2 un1 = Inr (P', un2)" "P = unlink (p\<lparr>p_name := nm\<rparr>) # P'"
        by (subst (asm) ps_lines.simps) auto
      with IH(2)[OF Some u[symmetric] refl] "1.prems"(2) show ?thesis by auto
    qed
  qed
qed

lemma read_table_fresh: "read_table env a = Inr (P, un) \<Longrightarrow> p \<in> set P \<Longrightarrow> fresh p"
  by (auto simp: read_table_def GetProcessesDirect_def GetProcesses_def
      split: option.splits if_splits dest: direct_loop_fresh ps_lines_fresh)

lemma map_upd: "(\<And>p. f (g p) = f p) \<Longrightarrow> map f (upd i g P) = map f P"
  by (cases "i < length P") (auto simp: upd_def map_update list_update_beyond
      intro!: nth_equalityI simp: nth_list_update)

lemma make_node_print: "make_node k P = Some Q \<Longrightarrow> map p_print Q = map p_print P"
  by (auto simp: make_node_def Let_def map_upd split: option.splits if_splits)

lemma for_each_keeps:
  assumes "\<And>k P Q. body k P = Some Q \<Longrightarrow> f Q = f P" and "for_each body ms P = Some Q"
  shows "f Q = f P"
  using assms(2) by (induction ms arbitrary: P) (auto simp: bind_eq_Some_conv dest: assms(1))

lemma same_ids_family:
  assumes "same_ids Q P"
  shows "family opt Q (length Q) = family opt P (length P)"
proof -
  have len: "length Q = length P" using assms by (simp add: same_ids_def)
  have "selected opt (Q ! m) = selected opt (P ! m)" if "m < length P" for m
  proof -
    have "ident (Q ! m) = ident (P ! m)" using assms that by (simp add: same_ids_def)
    then show ?thesis using ident_fields[of "Q ! m" "P ! m"] by (simp add: selected_def)
  qed
  then show ?thesis unfolding family_def len same_ids_up[OF assms] by auto
qed

abbreviation visible :: "ps_options \<Rightarrow> proc list \<Rightarrow> nat set" where
  "visible opt P \<equiv> family opt P (length P)"

definition shown_kids :: "ps_options \<Rightarrow> proc list \<Rightarrow> nat \<Rightarrow> nat list" where
  "shown_kids opt P i = filter (\<lambda>k. k \<in> visible opt P) (kids P i)"

lemma build_tree_ok:
  assumes fr: "\<forall>p \<in> set P. fresh p" and fo: "grounded opt P"
  shows "\<exists>Q. build_tree opt P = Some Q \<and> same_ids Q P \<and>
    (\<forall>i < length P. p_print (Q ! i) \<longleftrightarrow> i \<in> visible opt P) \<and>
    links_list (\<lambda>i. i \<in> visible opt P) Q (shown_kids opt P)"
proof -
  have "unlinked P" using fr by (auto simp: unlinked_def fresh_def)
  from MakeTree_ok[OF this] obtain P1 where P1: "MakeTree P = Some P1" "tree_ok P1" "same_ids P1 P" by blast
  have len: "length P1 = length P" using P1(3) by (simp add: same_ids_def)
  have "map p_print P1 = map p_print P"
    using for_each_keeps[of make_node "map p_print", OF make_node_print] P1(1) by (auto simp: MakeTree_def)
  then have pr: "\<not> p_print (P1 ! i)" if "i < length P" for i
    using that fr len by (metis fresh_def nth_map nth_mem)
  have fo1: "grounded opt P1" using same_ids_grounded[OF P1(3)] fo by simp
  let ?P2 = "mark_set (visible opt P1) P1"
  have fam: "visible opt P1 = visible opt P" by (rule same_ids_family[OF P1(3)])
  have M: "MarkProcs opt P1 = Some ?P2" by (rule MarkProcs_marks[OF fo1 P1(2)])
  have t2: "tree_ok ?P2" using tree_ok_mark_set[OF P1(2)] by simp
  have ids2: "same_ids ?P2 P" by (rule same_ids_trans[OF same_ids_mark_set P1(3)])
  have sh2: "p_print (?P2 ! i) \<longleftrightarrow> i \<in> visible opt P" if "i < length P" for i
    using that pr len fam by simp
  let ?Q = "dropped (length P) ?P2"
  have D: "DropProcs ?P2 = Some ?Q" using DropProcs_dropped[OF t2] len by simp
  have idsQ: "same_ids ?Q P"
    by (rule same_ids_trans[OF _ ids2]) (auto simp: same_ids_def dropped_def ident_def)
  have "filter (shown ?P2) (kids ?P2 i) = shown_kids opt P i" for i
    unfolding shown_kids_def same_ids_kids[OF ids2]
    by (rule filter_cong[OF refl]) (use sh2 kids_less in blast)
  then have "links_list (\<lambda>i. i \<in> visible opt P) ?Q (shown_kids opt P)"
    using dropped_chain[of _ ?P2] sh2 len by (auto simp: links_list_def shown_kids_def family_def)
  moreover have "p_print (?Q ! i) \<longleftrightarrow> i \<in> visible opt P" if "i < length P" for i
    using sh2[OF that] shown_dropped[of i ?P2 "length P"] that len by simp
  ultimately show ?thesis using P1(1) M D idsQ by (auto simp: build_tree_def)
qed

lemma build_tree_hangs:
  assumes "\<forall>p \<in> set P. fresh p" and "\<not> grounded opt P"
  shows "build_tree opt P = None"
proof -
  have "unlinked P" using assms(1) by (auto simp: unlinked_def fresh_def)
  from MakeTree_ok[OF this] obtain P1 where "MakeTree P = Some P1" "tree_ok P1" "same_ids P1 P" by blast
  moreover from this(3) assms(2) same_ids_grounded have "\<not> grounded opt P1" by blast
  ultimately show ?thesis using MarkProcs_hangs by (simp add: build_tree_def)
qed

lemma parse_options_bounds:
  assumes "parse_options getpwnam os a = Inr b" and "1 \<le> a_maxLdepth a" and "0 \<le> a_graph a \<and> a_graph a < 4"
  shows "1 \<le> a_maxLdepth b \<and> 0 \<le> a_graph b \<and> a_graph b < 4"
  using assms
proof (induction os arbitrary: a)
  case (Cons o' os)
  obtain ch arg where o': "o' = (ch, arg)" by fastforce
  from Cons.prems(1) obtain c where c: "parse_option getpwnam ch arg a = Inr c" "parse_options getpwnam os c = Inr b"
    by (auto simp: o')
  from c(1) Cons.prems(2,3) have "1 \<le> a_maxLdepth c \<and> 0 \<le> a_graph c \<and> a_graph c < 4"
    by (auto simp: parse_option_def Let_def split: if_splits)
  with Cons.IH c(2) show ?case by blast
qed simp

lemma print_roots_rows:
  assumes "links_list V Q ch" and "\<And>i. i < length Q \<Longrightarrow> p_print (Q ! i) \<longleftrightarrow> V i"
    and "0 \<le> cfg_maxLdepth cfg" and "\<forall>i. Some i \<in> set is \<longrightarrow> i < length Q"
  shows "print_roots cfg Q is (0, ls) = Some (0, ls @ concat (map (\<lambda>r. case r of None \<Rightarrow> []
      | Some i \<Rightarrow> if V i then rows cfg Q ch (nat (cfg_maxLdepth cfg)) [] i else []) is))"
  using assms(4)
proof (induction "is" arbitrary: ls)
  case (Cons r "is")
  show ?case
  proof (cases r)
    case None
    with Cons show ?thesis by simp
  next
    case (Some i)
    then have i: "i < length Q" using Cons.prems by auto
    have "PrintTree cfg Q i [] (0, ls) =
        Some (0, ls @ (if V i then rows cfg Q ch (nat (cfg_maxLdepth cfg)) [] i else []))"
    proof (cases "V i")
      case True
      with assms(2)[OF i] print_body_rows[OF assms(1), of i "[]" 0 "nat (cfg_maxLdepth cfg)" cfg ls] assms(3)
      show ?thesis by (simp add: PrintTree_def)
    next
      case False
      with assms(2)[OF i] show ?thesis by (simp add: PrintTree_def print_body_def)
    qed
    with Cons Some show ?thesis by simp
  qed
qed simp

lemma roots_cong: "same_ids Q P \<Longrightarrow> roots operands r Q = roots operands r P"
  by (simp add: roots_def same_ids_get_pid_index)

lemma roots_less: "Some i \<in> set (roots operands r P) \<Longrightarrow> i < length P"
  by (auto simp: roots_def split: if_splits dest: get_pid_index_less sym)

section \<open>Properties\<close>

text \<open>From a freshly read table to the printed lines.\<close>

lemma run_tree_rows:
  assumes "parse_options (e_getpwnam env) opts default_args = Inr a" "\<forall>p \<in> set P. fresh p"
    "grounded (main_opts env a) P"
  shows "\<exists>Q. same_ids Q P \<and> links_list (\<lambda>i. i \<in> visible (main_opts env a) P) Q (shown_kids (main_opts env a) P) \<and>
    run_tree env a operands P r = Some (tc_init (cfg_chars (main_cfg env a)),
      concat (map (\<lambda>i. case i of None \<Rightarrow> []
        | Some i \<Rightarrow> if i \<in> visible (main_opts env a) P
            then rows (main_cfg env a) Q (shown_kids (main_opts env a) P) (nat (a_maxLdepth a)) [] i else [])
        (roots operands r P)))"
proof -
  from build_tree_ok[OF assms(2,3)] obtain Q where
    Q: "build_tree (main_opts env a) P = Some Q" "same_ids Q P"
      "\<forall>i < length P. p_print (Q ! i) \<longleftrightarrow> i \<in> visible (main_opts env a) P"
      "links_list (\<lambda>i. i \<in> visible (main_opts env a) P) Q (shown_kids (main_opts env a) P)" by blast
  have len: "length Q = length P" using Q(2) by (simp add: same_ids_def)
  have ml: "cfg_maxLdepth (main_cfg env a) = a_maxLdepth a" by (simp add: main_cfg_def Let_def)
  have d: "0 \<le> a_maxLdepth a" using parse_options_bounds[OF assms(1)] by (simp add: default_args_def)
  have "\<forall>i. Some i \<in> set (roots operands r P) \<longrightarrow> i < length Q" using roots_less len by metis
  from print_roots_rows[OF Q(4) _ _ this, of "main_cfg env a" "[]"] Q(3) d
  have "print_roots (main_cfg env a) Q (roots operands r P) (0, []) = Some (0, concat (map (\<lambda>i. case i of None \<Rightarrow> []
        | Some i \<Rightarrow> if i \<in> visible (main_opts env a) P
            then rows (main_cfg env a) Q (shown_kids (main_opts env a) P) (nat (a_maxLdepth a)) [] i else [])
        (roots operands r P)))"
    unfolding ml by (simp add: len)
  then show ?thesis
    using Q(1,2,4) by (auto simp: run_tree_def roots_cong[OF Q(2)])
qed


definition sample_env :: ps_env where
  "sample_env = \<lparr>e_getpwnam = (\<lambda>n. n = ''root''), e_getpwuid = (\<lambda>u. None), e_alloc = (\<lambda>n. True),
     e_fopen = (\<lambda>n. None), e_stdin = [],
     e_proc = map dir_of [(sample_info 7 1 ''(sh)'', 3), (sample_info 1 0 ''(init)'', 3)],
     e_getpid = 7, e_ws_col = Some 80\<rparr>"

lemma sample_table:
  "\<exists>p q un. read_table sample_env default_args = Inr ([p, q], un) \<and> p_pid p = 1 \<and> p_ppid p = 0 \<and> p_pid q = 7 \<and>
     p_ppid q = 1 \<and> fresh p \<and> fresh q"
proof -
  let ?es = "[(sample_info 1 0 ''(init)'', 3), (sample_info 7 1 ''(sh)'', 3 :: nat)]"
  have "\<forall>(e, k) \<in> set ?es. info_ok e" by (simp add: info_ok_def sample_info_def is_space_def MAXLINE_def)
  from direct_loop_entries[OF this, of "\<lambda>u. None" empty_proc "[]"] obtain P un where
    P: "direct_loop (\<lambda>u. None) (map dir_of ?es) empty_proc [] = Inr (P, un)"
      "map entry_of P = map (\<lambda>ek. info_entry (fst ek)) (filter (\<lambda>(e, k). 2 < k) ?es)" "\<forall>q \<in> set P. fresh q"
    by blast
  from P(2) obtain p q where pq: "P = [p, q]" "p_pid p = 1" "p_ppid p = 0" "p_pid q = 7" "p_ppid q = 1"
    by (auto simp: map_eq_Cons_conv entry_of_def info_entry_def sample_info_def)
  have "read_table sample_env default_args = Inr (P, un)"
    using P(1) by (simp add: read_table_def GetProcessesDirect_def sample_env_def default_args_def del: direct_loop.simps)
  with pq P(3) show ?thesis by auto
qed

lemma pair_forest:
  assumes "p_pid p = 1" "p_ppid p = 0" "p_pid q = 7" "p_ppid q = 1"
  shows "forest [p, q]"
proof -
  have pa: "parent_of [p, q] 0 = None" "parent_of [p, q] (Suc 0) = Some 0"
    using assms by (simp_all add: parent_of_def get_pid_index_def)
  have "chain (parent_of [p, q]) (parent_of [p, q] 0) []" "chain (parent_of [p, q]) (parent_of [p, q] (Suc 0)) [0]"
    by (simp_all add: pa)
  then show ?thesis unfolding forest_def by (metis One_nat_def length_Cons less_Suc_eq less_one list.size(3) not_less_eq)
qed


text \<open>Ancestors of shown processes are shown.\<close>

lemma visible_up:
  assumes "(m, p) \<in> up P" and "m \<in> visible opt P"
  shows "p \<in> visible opt P"
proof (cases "showall opt")
  case True
  with up_less[OF assms(1)] show ?thesis by (simp add: family_def)
next
  case False
  with assms(2) obtain s where s: "s < length P" "selected opt (P ! s)" "(s, m) \<in> (up P)\<^sup>* \<or> (m, s) \<in> (up P)\<^sup>*"
    by (auto simp: family_def)
  have "(s, p) \<in> (up P)\<^sup>* \<or> (p, s) \<in> (up P)\<^sup>*"
  proof (cases "(s, m) \<in> (up P)\<^sup>*")
    case True
    with assms(1) show ?thesis by auto
  next
    case False
    with s(3) have "(m, s) \<in> (up P)\<^sup>+" by (metis rtranclD rtrancl.rtrancl_refl)
    then obtain x where "(m, x) \<in> up P" "(x, s) \<in> (up P)\<^sup>*" by (metis tranclD)
    with assms(1) show ?thesis by (auto simp: up_def)
  qed
  with False s up_less[OF assms(1)] show ?thesis by (auto simp: family_def)
qed

lemma child_rel_shown: "child_rel (shown_kids opt P) = {(m, p) \<in> up P. m \<in> visible opt P}"
  by (auto simp: child_rel_def shown_kids_def kids_def up_def)

lemma child_rel_pow:
  "(m, i) \<in> child_rel (shown_kids opt P) ^^ d \<longleftrightarrow> (m, i) \<in> up P ^^ d \<and> (d = 0 \<or> m \<in> visible opt P)"
proof (induction d arbitrary: m)
  case (Suc d)
  show ?case
  proof
    assume "(m, i) \<in> child_rel (shown_kids opt P) ^^ Suc d"
    then obtain x where "(m, x) \<in> child_rel (shown_kids opt P)" "(x, i) \<in> child_rel (shown_kids opt P) ^^ d"
      by (meson relpow_Suc_D2)
    with Suc show "(m, i) \<in> up P ^^ Suc d \<and> (Suc d = 0 \<or> m \<in> visible opt P)"
      by (auto simp: child_rel_shown intro: relpow_Suc_I2 simp del: relpow.simps(2))
  next
    assume a: "(m, i) \<in> up P ^^ Suc d \<and> (Suc d = 0 \<or> m \<in> visible opt P)"
    then obtain x where x: "(m, x) \<in> up P" "(x, i) \<in> up P ^^ d" by (meson relpow_Suc_D2)
    with a visible_up[OF x(1)] Suc show "(m, i) \<in> child_rel (shown_kids opt P) ^^ Suc d"
      by (auto simp: child_rel_shown intro: relpow_Suc_I2 simp del: relpow.simps(2))
  qed
qed simp

lemma rows_order:
  "list_all2 (\<lambda>row m. \<exists>head. row = out_line cfg head (p_child (Q ! m)) (p_sister (Q ! m)) (Q ! m))
     (rows cfg Q ch n head i) (order ch n i)"
proof (induction n arbitrary: head i)
  case (Suc n)
  have "list_all2 (\<lambda>row m. \<exists>head. row = out_line cfg head (p_child (Q ! m)) (p_sister (Q ! m)) (Q ! m))
      (concat (map (rows cfg Q ch n h) ks)) (concat (map (order ch n) ks))" for h ks
    by (induction ks) (simp_all add: Suc list_all2_appendI)
  then show ?case by auto
qed simp



end
