(* ===== verification/PsFormat.thy ===== *)
theory PsFormat
  imports PsRead
begin

text \<open>
  \<open>tree/pstree_source_code.c\<close>, the configurable part and the reader it configures. Each system has
  a \<open>ps\<close> command, a \<open>sscanf\<close> format \<open>PSFORMAT\<close>, the variables \<open>PSVARS\<close> its conversions store
  into and their number \<open>PSVARSN\<close>; \<open>GetProcesses\<close> is compiled with them. Here a format is parsed
  into directives, \<open>sscanf\<close> runs the directives on a line, and the reader is a function of the
  configuration.

  A conversion that is applied to a variable of another type, or that has no variable, is undefined
  in C and the value \<open>BadArgument\<close> here; the use of a buffer nothing was stored into is
  \<open>Indeterminate\<close>. A \<open>sscanf\<close> that meets the end of its input before the first conversion returns
  0 here and \<open>-1\<close> in C; the caller only compares the result with \<open>PSVARSN\<close>. The floating-point
  conversion, used by one system, accepts decimal notation.
\<close>

section \<open>Formats\<close>

datatype conversion =
    ConvLd
  | ConvD
  | ConvX
  | ConvG
  | ConvS
  | ConvLine
  | ConvC nat

text \<open>\<open>Conv True\<close> is a conversion with an asterisk, which stores nothing.\<close>

datatype directive =
    White
  | Conv bool conversion

definition take_width :: "string \<Rightarrow> nat \<times> string" where
  "take_width s =
     (let ds = takeWhile is_digit s
      in (if ds = [] then 1 else nat (digits_value ds), dropWhile is_digit s))"

definition conversions :: "nat \<Rightarrow> (string \<times> conversion) list" where
  "conversions w =
     [(''ld'', ConvLd), (''d'', ConvD), (''x'', ConvX), (''g'', ConvG), (''s'', ConvS), (''c'', ConvC w),
      ([CHR ''['', CHR ''^'', NL, CHR '']''], ConvLine)]"

definition parse_conv :: "nat \<Rightarrow> string \<Rightarrow> (conversion \<times> string) option" where
  "parse_conv w s =
     map_option (\<lambda>(t, cv). (cv, drop (length t) s)) (find (\<lambda>(t, _). take (length t) s = t) (conversions w))"

lemma parse_conv_shorter: "parse_conv w s = Some (cv, s') \<Longrightarrow> length s' < length s"
  by (cases s) (auto simp: parse_conv_def conversions_def split: if_splits)

lemma take_width_le: "take_width s = (w, s') \<Longrightarrow> length s' \<le> length s"
  by (auto simp: take_width_def Let_def length_dropWhile_le)

lemma skip_space_le: "length (skip_space s) \<le> length s"
  by (simp add: skip_space_def length_dropWhile_le)

text \<open>The formats of the file consist of blanks and conversions.\<close>

function parse_format :: "string \<Rightarrow> directive list option" where
  "parse_format [] = Some []"
| "parse_format (c # s) =
     (if is_space c then map_option (Cons White) (parse_format (skip_space s))
      else if c = CHR ''%'' then
        (let star = (s \<noteq> [] \<and> hd s = CHR ''*'');
             (w, s2) = take_width (if star then tl s else s)
         in case parse_conv w s2 of
              None \<Rightarrow> None
            | Some (cv, s3) \<Rightarrow> map_option (Cons (Conv star cv)) (parse_format s3))
      else None)"
  by pat_completeness auto

termination
proof (relation "measure length")
  fix c s x y w s2 and cv_s3 :: "conversion \<times> string" and cv s3
  assume "x = (s \<noteq> [] \<and> hd s = CHR ''*'')" "y = take_width (if x then tl s else s)" "(w, s2) = y"
    "parse_conv w s2 = Some cv_s3" "(cv, s3) = cv_s3"
  then have "length s3 < length s2" "length s2 \<le> length (if x then tl s else s)"
    using parse_conv_shorter[of w s2 cv s3] take_width_le[of "if x then tl s else s" w s2] by auto
  then have "length s3 < length (c # s)" by (auto split: if_splits)
  then show "(s3, c # s) \<in> measure length" by simp
qed (auto simp: le_imp_less_Suc skip_space_le)

section \<open>sscanf\<close>

datatype scanned =
    SLong int
  | SInt int
  | SText string
  | SOther

definition is_xdigit :: "char \<Rightarrow> bool" where
  "is_xdigit c \<longleftrightarrow> is_digit c \<or> c \<in> set ''abcdefABCDEF''"

definition skip_sign :: "string \<Rightarrow> string" where
  "skip_sign s = (if s \<noteq> [] \<and> hd s \<in> {CHR ''-'', CHR ''+''} then tl s else s)"

definition scan_x :: "string \<Rightarrow> string option" where
  "scan_x s0 =
     (let s = skip_sign (skip_space s0);
          s1 = (if 2 \<le> length s \<and> hd s = CHR ''0'' \<and> s ! 1 \<in> {CHR ''x'', CHR ''X''} then drop 2 s else s)
      in if takeWhile is_xdigit s1 = [] then None else Some (dropWhile is_xdigit s1))"

definition scan_g :: "string \<Rightarrow> string option" where
  "scan_g s0 =
     (let s = skip_sign (skip_space s0);
          a = takeWhile is_digit s;
          s1 = dropWhile is_digit s;
          point = (s1 \<noteq> [] \<and> hd s1 = CHR ''.'');
          b = (if point then takeWhile is_digit (tl s1) else []);
          s2 = (if point then dropWhile is_digit (tl s1) else s1)
      in if a = [] \<and> b = [] then None
         else if s2 \<noteq> [] \<and> hd s2 \<in> {CHR ''e'', CHR ''E''} then
           (let s3 = skip_sign (tl s2)
            in if takeWhile is_digit s3 = [] then None else Some (dropWhile is_digit s3))
         else Some s2)"

fun scan_conv :: "conversion \<Rightarrow> string \<Rightarrow> (scanned \<times> string) option" where
  "scan_conv ConvLd s = map_option (apfst SLong) (scan_ld s)"
| "scan_conv ConvD s = map_option (apfst SInt) (scan_ld s)"
| "scan_conv ConvX s = map_option (Pair SOther) (scan_x s)"
| "scan_conv ConvG s = map_option (Pair SOther) (scan_g s)"
| "scan_conv ConvS s = map_option (apfst SText) (scan_word s)"
| "scan_conv ConvLine s = map_option (apfst SText) (scan_to_NL s)"
| "scan_conv (ConvC n) s = (if n \<le> length s then Some (SText (take n s), drop n s) else None)"

text \<open>The variables of \<open>PSVARS\<close>: fields of \<open>P[i]\<close>. The arrays are \<open>name[32]\<close> and \<open>cmd[MAXLINE]\<close>,
  and a string is stored with its terminator.\<close>

datatype ps_var = VUid | VPid | VPpid | VPgid | VThcount | VName | VCmd

fun store_var :: "ps_var \<Rightarrow> scanned \<Rightarrow> proc \<Rightarrow> proc res" where
  "store_var VUid (SLong i) p = Inr (p\<lparr>p_uid := i\<rparr>)"
| "store_var VPid (SLong i) p = Inr (p\<lparr>p_pid := i\<rparr>)"
| "store_var VPpid (SLong i) p = Inr (p\<lparr>p_ppid := i\<rparr>)"
| "store_var VPgid (SLong i) p = Inr (p\<lparr>p_pgid := i\<rparr>)"
| "store_var VThcount (SLong i) p = Inr (p\<lparr>p_thcount := nat (i mod 2 ^ 64)\<rparr>)"
| "store_var VName (SText t) p = (if length t < 32 then Inr (p\<lparr>p_name := t\<rparr>) else Inl OutOfBounds)"
| "store_var VCmd (SText t) p = (if length t < MAXLINE then Inr (p\<lparr>p_cmd := t\<rparr>) else Inl OutOfBounds)"
| "store_var _ _ p = Inl BadArgument"

fun sscanf :: "directive list \<Rightarrow> ps_var list \<Rightarrow> string \<Rightarrow> nat \<Rightarrow> proc \<Rightarrow> (nat \<times> proc) res" where
  "sscanf [] vs s n p = Inr (n, p)"
| "sscanf (White # ds) vs s n p = sscanf ds vs (skip_space s) n p"
| "sscanf (Conv star cv # ds) vs s n p =
     (case scan_conv cv s of
        None \<Rightarrow> Inr (n, p)
      | Some (x, s') \<Rightarrow>
          if star then sscanf ds vs s' n p
          else (case vs of
                  [] \<Rightarrow> Inl BadArgument
                | v # vs' \<Rightarrow> rbind (store_var v x p) (sscanf ds vs' s' (n + 1))))"

section \<open>Configurations\<close>

record ps_config =
  PSCMD :: string
  PSFORMAT :: string
  PSVARS :: "ps_var list"
  PSVARSN :: nat
  UID2USER :: bool
  solaris1x :: bool
  ZOMBIES_HAVE_PID_0 :: bool

text \<open>The variables of a system that names none.\<close>

definition default_vars :: "bool \<Rightarrow> ps_var list" where
  "default_vars u = (if u then [VUid, VPid, VPpid, VCmd] else [VName, VPid, VPpid, VCmd])"

definition default_config :: "string \<Rightarrow> string \<Rightarrow> bool \<Rightarrow> ps_config" where
  "default_config cmd fmt u =
     \<lparr>PSCMD = cmd, PSFORMAT = fmt, PSVARS = default_vars u, PSVARSN = 4, UID2USER = u,
      solaris1x = False, ZOMBIES_HAVE_PID_0 = False\<rparr>"

definition to_NL :: string where
  "to_NL = [CHR ''%'', CHR ''['', CHR ''^'', NL, CHR '']'']"

definition aix_config :: ps_config where
  "aix_config =
     \<lparr>PSCMD = ''ps -eko uid,pid,ppid,pgid,thcount,args'', PSFORMAT = ''%ld %ld %ld %ld %ld '' @ to_NL,
      PSVARS = [VUid, VPid, VPpid, VPgid, VThcount, VCmd], PSVARSN = 6, UID2USER = True,
      solaris1x = False, ZOMBIES_HAVE_PID_0 = False\<rparr>"

definition linux_config :: ps_config where
  "linux_config =
     \<lparr>PSCMD = ''ps -eo uid,pid,ppid,pgid,args'', PSFORMAT = ''%ld %ld %ld %ld '' @ to_NL,
      PSVARS = [VUid, VPid, VPpid, VPgid, VCmd], PSVARSN = 5, UID2USER = True,
      solaris1x = False, ZOMBIES_HAVE_PID_0 = False\<rparr>"

definition bsd_config :: ps_config where
  "bsd_config =
     \<lparr>PSCMD = ''ps -axwwo user,pid,ppid,pgid,command'', PSFORMAT = ''%s %ld %ld %ld '' @ to_NL,
      PSVARS = [VName, VPid, VPpid, VPgid, VCmd], PSVARSN = 5, UID2USER = False,
      solaris1x = False, ZOMBIES_HAVE_PID_0 = True\<rparr>"

definition sunos_m68k_config :: ps_config where
  "sunos_m68k_config =
     (default_config ''ps laxw'' (''%*7c%ld %ld %ld %*d %*d %*d %*x %*d %*d %*x %*14c '' @ to_NL) True)
     \<lparr>solaris1x := True\<rparr>"

definition sunos_config :: ps_config where
  "sunos_config =
     \<lparr>PSCMD = ''ps jaxw'', PSFORMAT = ''%ld %ld %*d %*d %*s %*d %*s %ld %*s '' @ to_NL,
      PSVARS = [VPpid, VPid, VUid, VCmd], PSVARSN = 4, UID2USER = True,
      solaris1x = True, ZOMBIES_HAVE_PID_0 = False\<rparr>"

definition solaris2_config :: ps_config where
  "solaris2_config = default_config ''ps -ef'' (''%s %ld %ld %*d %*s %*s %*s '' @ to_NL) False"

definition bsdi_config :: ps_config where
  "bsdi_config =
     default_config ''ps laxw'' (''%ld %ld %ld %*d %*d %*d %*d %*d %*s %*s %*s %*s '' @ to_NL) True"

definition old_bsd_config :: ps_config where
  "old_bsd_config =
     default_config ''ps laxw'' (''%*d %*c %ld %ld %ld %*d %*d %*d %*x %*d %d %*15c %*s '' @ to_NL) True"

definition convex_config :: ps_config where
  "convex_config =
     default_config ''ps laxw'' (''%*s %ld %ld %ld %*d %*g %*d %*d %*21c %*s '' @ to_NL) True"

definition hpux_config :: ps_config where
  "hpux_config = default_config ''ps -ef'' (''%s %ld %ld %*20c %*s '' @ to_NL) False"

section \<open>The reader\<close>

text \<open>SunOS lets columns run together: the code puts a blank after the first 44 characters. Both
  buffers are set only if the line goes on beyond them.\<close>

definition split_columns :: "string \<Rightarrow> string res" where
  "split_columns line =
     (if length line < 44 then Inl Indeterminate
      else case scan_to_NL (drop 44 line) of
        None \<Rightarrow> Inl Indeterminate
      | Some (buf2, _) \<Rightarrow> Inr (snprintf MAXLINE (take 44 line @ '' '' @ buf2)))"

definition read_line :: "ps_config \<Rightarrow> string \<Rightarrow> (nat \<times> proc) res" where
  "read_line cf line =
     rbind (if solaris1x cf then split_columns line else Inr line) (\<lambda>l.
       case parse_format (PSFORMAT cf) of
         None \<Rightarrow> Inl BadArgument
       | Some ds \<Rightarrow> sscanf ds (PSVARS cf) l 0 empty_proc)"

definition enter_user :: "ps_config \<Rightarrow> (int \<Rightarrow> string option) \<Rightarrow> proc \<Rightarrow> un_cache \<Rightarrow> proc \<times> un_cache" where
  "enter_user cf getpwuid p un =
     (if UID2USER cf then
        (let (nm, un1) = uid2user getpwuid 32 (p_uid p) un in (p\<lparr>p_name := nm\<rparr>, un1))
      else (p, un))"

function cfg_lines ::
  "ps_config \<Rightarrow> (int \<Rightarrow> string option) \<Rightarrow> (nat \<Rightarrow> bool) \<Rightarrow> nat \<Rightarrow> string \<Rightarrow> un_cache \<Rightarrow>
   (proc list \<times> un_cache) res" where
  "cfg_lines cf getpwuid alloc i s un =
     (case fgets MAXLINE s of
        None \<Rightarrow> Inr ([], un)
      | Some (line, s1) \<Rightarrow>
          rbind (if strlen line = MAXLINE - 1 then drop_rest s1 else Inr s1) (\<lambda>s2.
            if \<not> alloc (i + 1) then Inl (ExitCode 1)
            else rbind (read_line cf (cstr line)) (\<lambda>(num, p).
              if num \<noteq> PSVARSN cf then cfg_lines cf getpwuid alloc i s2 un
              else
                (let (q, un1) = enter_user cf getpwuid p un in
                 rbind (cfg_lines cf getpwuid alloc (i + 1) s2 un1)
                   (\<lambda>(P, un2). Inr (unlink q # P, un2))))))"
  by pat_completeness auto

termination
  by (relation "measure (\<lambda>(_, _, _, _, s, _). length s)")
    (auto dest!: fgets_shorter drop_rest_shorter split: if_splits)

declare cfg_lines.simps [simp del]

text \<open>\<open>GetProcesses\<close>, and the correction of zombies \<open>main\<close> applies to its result.\<close>

definition cfg_GetProcesses ::
  "ps_config \<Rightarrow> (int \<Rightarrow> string option) \<Rightarrow> (nat \<Rightarrow> bool) \<Rightarrow> string option \<Rightarrow> un_cache \<Rightarrow>
   (proc list \<times> un_cache) res" where
  "cfg_GetProcesses cf getpwuid alloc tn un =
     (case tn of
        None \<Rightarrow> Inl (ExitCode 1)
      | Some s \<Rightarrow>
          (case fgets MAXLINE s of
             None \<Rightarrow> Inl (ExitCode 1)
           | Some (_, s1) \<Rightarrow>
               if \<not> alloc 1 then Inl (ExitCode 1) else cfg_lines cf getpwuid alloc 0 s1 un))"

definition cfg_table ::
  "ps_config \<Rightarrow> (int \<Rightarrow> string option) \<Rightarrow> (nat \<Rightarrow> bool) \<Rightarrow> string option \<Rightarrow> un_cache \<Rightarrow>
   (proc list \<times> un_cache) res" where
  "cfg_table cf getpwuid alloc tn un =
     rbind (cfg_GetProcesses cf getpwuid alloc tn un)
       (\<lambda>(P, un1). Inr (if ZOMBIES_HAVE_PID_0 cf then FixZombies P else P, un1))"

section \<open>Types of formats\<close>

fun accepts :: "conversion \<Rightarrow> ps_var \<Rightarrow> bool" where
  "accepts ConvLd v \<longleftrightarrow> v \<in> {VUid, VPid, VPpid, VPgid, VThcount}"
| "accepts ConvS v \<longleftrightarrow> v \<in> {VName, VCmd}"
| "accepts ConvLine v \<longleftrightarrow> v \<in> {VName, VCmd}"
| "accepts _ v \<longleftrightarrow> False"

fun typed :: "directive list \<Rightarrow> ps_var list \<Rightarrow> bool" where
  "typed [] vs \<longleftrightarrow> vs = []"
| "typed (White # ds) vs \<longleftrightarrow> typed ds vs"
| "typed (Conv True cv # ds) vs \<longleftrightarrow> typed ds vs"
| "typed (Conv False cv # ds) [] \<longleftrightarrow> False"
| "typed (Conv False cv # ds) (v # vs) \<longleftrightarrow> accepts cv v \<and> typed ds vs"

definition config_ok :: "ps_config \<Rightarrow> bool" where
  "config_ok cf \<longleftrightarrow>
     (case parse_format (PSFORMAT cf) of None \<Rightarrow> False | Some ds \<Rightarrow> typed ds (PSVARS cf)) \<and>
     PSVARSN cf = length (PSVARS cf) \<and> distinct (PSVARS cf) \<and>
     {VPid, VPpid, VCmd} \<subseteq> set (PSVARS cf) \<and>
     (if UID2USER cf then VUid \<in> set (PSVARS cf) \<and> VName \<notin> set (PSVARS cf) else VName \<in> set (PSVARS cf))"

definition ps_systems :: "ps_config list" where
  "ps_systems = [aix_config, linux_config, bsd_config, sunos_m68k_config, sunos_config, solaris2_config,
     bsdi_config, convex_config, hpux_config]"

lemmas format_defs = default_config_def default_vars_def to_NL_def take_width_def parse_conv_def
  conversions_def is_space_def is_digit_def digits_value_def skip_space_def

lemma linux_directives:
  "parse_format (PSFORMAT linux_config) =
     Some [Conv False ConvLd, White, Conv False ConvLd, White, Conv False ConvLd, White, Conv False ConvLd,
       White, Conv False ConvLine]"
  by (simp add: linux_config_def format_defs)

lemma old_bsd_directives:
  "parse_format (PSFORMAT old_bsd_config) =
     Some [Conv True ConvD, White, Conv True (ConvC 1), White, Conv False ConvLd, White, Conv False ConvLd,
       White, Conv False ConvLd, White, Conv True ConvD, White, Conv True ConvD, White, Conv True ConvD,
       White, Conv True ConvX, White, Conv True ConvD, White, Conv False ConvD, White, Conv True (ConvC 15),
       White, Conv True ConvS, White, Conv False ConvLine]"
  by (simp add: old_bsd_config_def format_defs)

lemma systems_ok: "\<forall>cf \<in> set ps_systems. config_ok cf"
proof -
  have "config_ok aix_config" by (simp add: config_ok_def aix_config_def format_defs)
  moreover have "config_ok linux_config"
    unfolding config_ok_def linux_directives by (simp add: linux_config_def)
  moreover have "config_ok bsd_config" by (simp add: config_ok_def bsd_config_def format_defs)
  moreover have "config_ok sunos_m68k_config"
    by (simp add: config_ok_def sunos_m68k_config_def format_defs)
  moreover have "config_ok sunos_config" by (simp add: config_ok_def sunos_config_def format_defs)
  moreover have "config_ok solaris2_config" by (simp add: config_ok_def solaris2_config_def format_defs)
  moreover have "config_ok bsdi_config" by (simp add: config_ok_def bsdi_config_def format_defs)
  moreover have "config_ok convex_config" by (simp add: config_ok_def convex_config_def format_defs)
  moreover have "config_ok hpux_config" by (simp add: config_ok_def hpux_config_def format_defs)
  ultimately show ?thesis by (simp add: ps_systems_def)
qed

text \<open>A conversion leaves a suffix of its input; this bounds what is stored.\<close>

named_theorems suffix_intros \<open>functions that return a suffix of their argument\<close>

lemma suffix_dropWhile_trans [suffix_intros]: "suffix s t \<Longrightarrow> suffix (dropWhile P s) t"
  by (metis suffix_dropWhile suffix_order.trans)

lemma suffix_tl_trans [suffix_intros]: "suffix s t \<Longrightarrow> suffix (tl s) t"
  by (metis suffix_tl suffix_order.trans)

lemma suffix_drop_trans [suffix_intros]: "suffix s t \<Longrightarrow> suffix (drop n s) t"
  by (metis suffix_drop suffix_order.trans)

lemma suffix_skip_space [suffix_intros]: "suffix s t \<Longrightarrow> suffix (skip_space s) t"
  by (simp add: skip_space_def suffix_dropWhile_trans)

lemma suffix_skip_sign [suffix_intros]: "suffix s t \<Longrightarrow> suffix (skip_sign s) t"
  by (simp add: skip_sign_def suffix_tl_trans)

lemma scan_ld_suffix: "scan_ld s = Some (i, s') \<Longrightarrow> suffix s' s"
  by (auto simp: scan_ld_def Let_def split: if_splits intro!: suffix_intros)

lemma scan_word_suffix: "scan_word s = Some (w, s') \<Longrightarrow> suffix s' s \<and> length w \<le> length s"
  using length_takeWhile_le[of "\<lambda>c. \<not> is_space c" "skip_space s"] skip_space_le[of s]
  by (auto simp: scan_word_def Let_def split: if_splits intro!: suffix_intros)

lemma scan_to_NL_suffix: "scan_to_NL s = Some (w, s') \<Longrightarrow> suffix s' s \<and> length w \<le> length s"
  using length_takeWhile_le[of _ s]
  by (auto simp: scan_to_NL_def Let_def split: if_splits intro!: suffix_intros)

lemma scan_x_suffix: "scan_x s = Some s' \<Longrightarrow> suffix s' s"
  by (auto simp: scan_x_def Let_def split: if_splits intro!: suffix_intros)

lemma scan_g_suffix: "scan_g s = Some s' \<Longrightarrow> suffix s' s"
  by (auto simp: scan_g_def Let_def split: if_splits intro!: suffix_intros)

lemma scan_conv_le:
  assumes "scan_conv cv s = Some (x, s')"
  shows "length s' \<le> length s \<and> (\<forall>t. x = SText t \<longrightarrow> length t \<le> length s)"
proof -
  have "suffix s' s"
    using assms by (cases cv) (auto dest: scan_ld_suffix scan_word_suffix scan_to_NL_suffix scan_x_suffix
        scan_g_suffix split: if_splits intro!: suffix_intros)
  moreover have "length t \<le> length s" if "x = SText t" for t
    using assms that by (cases cv) (auto dest: scan_word_suffix scan_to_NL_suffix split: if_splits)
  ultimately show ?thesis by (auto dest: suffix_length_le)
qed

section \<open>Failures of the reader\<close>

lemma store_fails:
  assumes "scan_conv cv s = Some (x, s')" "accepts cv v" "length s < MAXLINE" "store_var v x p = Inl e"
  shows "e = OutOfBounds \<and> v = VName"
  using assms scan_conv_le[OF assms(1)] by (cases cv) (auto split: if_splits)

lemma sscanf_fails:
  "typed ds vs \<Longrightarrow> length s < MAXLINE \<Longrightarrow> sscanf ds vs s n p = Inl e \<Longrightarrow> e = OutOfBounds \<and> VName \<in> set vs"
proof (induction ds vs arbitrary: s n p rule: typed.induct)
  case (2 ds vs)
  then show ?case using skip_space_le[of s] by (auto intro: le_less_trans)
next
  case (3 cv ds vs)
  then show ?case by (auto dest!: scan_conv_le split: option.splits intro: le_less_trans)
next
  case (5 cv ds v vs)
  then obtain x s' where x: "scan_conv cv s = Some (x, s')" by (auto split: option.splits)
  with scan_conv_le[OF x] "5.prems" have len: "length s' < MAXLINE" by simp
  show ?case
  proof (cases "store_var v x p")
    case (Inl e')
    with x "5.prems" store_fails[OF x, of v p e'] show ?thesis by auto
  next
    case (Inr q)
    with x "5.prems" "5.IH"[OF _ len, of "n + 1" q] show ?thesis by auto
  qed
qed auto

lemma split_columns_cases:
  obtains "split_columns line = Inl Indeterminate" | l where "split_columns line = Inr l" "length l < MAXLINE"
proof (cases "split_columns line")
  case (Inl e)
  then show ?thesis using that(1) by (auto simp: split_columns_def split: if_splits option.splits)
next
  case (Inr l)
  then have "length l < MAXLINE"
    by (auto simp: split_columns_def snprintf_def MAXLINE_def split: if_splits option.splits)
  with Inr that(2) show ?thesis by blast
qed

lemma read_line_fails:
  assumes "config_ok cf" "length line < MAXLINE" "read_line cf line = Inl e"
  shows "e = OutOfBounds \<and> VName \<in> set (PSVARS cf) \<or> e = Indeterminate \<and> solaris1x cf"
proof -
  obtain ds where ds: "parse_format (PSFORMAT cf) = Some ds" "typed ds (PSVARS cf)"
    using assms by (auto simp: config_ok_def split: option.splits)
  note s = sscanf_fails[OF ds(2)]
  show ?thesis
  proof (cases "solaris1x cf")
    case True
    then show ?thesis
      using assms(3) ds(1) s by (cases rule: split_columns_cases[of line]) (auto simp: read_line_def)
  next
    case False
    with s[OF assms(2)] assms(3) ds(1) show ?thesis by (auto simp: read_line_def)
  qed
qed

lemma drop_rest_fails: "drop_rest s = Inl e \<Longrightarrow> e = NullDeref"
proof (induction s rule: drop_rest.induct)
  case (1 s)
  from "1.prems" "1.IH" show ?case
    by (subst (asm) drop_rest.simps) (auto split: option.splits if_splits)
qed

lemma fgets_length: "fgets MAXLINE s = Some (line, s') \<Longrightarrow> length (cstr line) < MAXLINE"
  using strlen_le[of line] by (auto simp: fgets_def strlen_def MAXLINE_def Let_def split: if_splits)

definition allowed_failure :: "ps_config \<Rightarrow> c_fail \<Rightarrow> bool" where
  "allowed_failure cf e \<longleftrightarrow> e = ExitCode 1 \<or> e = NullDeref \<or> e = OutOfBounds \<and> \<not> UID2USER cf \<or>
     e = Indeterminate \<and> solaris1x cf"

lemma cfg_lines_fails:
  assumes "config_ok cf"
  shows "cfg_lines cf getpwuid alloc i s un = Inl e \<Longrightarrow> allowed_failure cf e"
proof (induction "length s" arbitrary: i s un rule: less_induct)
  case less
  then obtain line s1 where f: "fgets MAXLINE s = Some (line, s1)"
    by (subst (asm) cfg_lines.simps) (auto split: option.splits)
  define r where "r = (if strlen line = MAXLINE - 1 then drop_rest s1 else Inr s1)"
  note prem = less.prems[unfolded cfg_lines.simps[of cf _ _ _ s] f option.case prod.case r_def[symmetric]]
  show ?case
  proof (cases r)
    case (Inl e')
    with prem show ?thesis
      by (auto simp: r_def allowed_failure_def dest: drop_rest_fails split: if_splits)
  next
    case (Inr s2)
    then have shorter: "length s2 < length s"
      using fgets_shorter[OF f] drop_rest_shorter[of s1 s2] by (auto simp: r_def split: if_splits)
    show ?thesis
    proof (cases "read_line cf (cstr line)")
      case (Inl e')
      with read_line_fails[OF assms fgets_length[OF f] Inl] prem \<open>r = Inr s2\<close> assms show ?thesis
        by (auto simp: allowed_failure_def config_ok_def split: if_splits)
    next
      case (Inr np)
      obtain num p where np: "np = (num, p)" by fastforce
      obtain q un1 where u: "enter_user cf getpwuid p un = (q, un1)" by fastforce
      have "cfg_lines cf getpwuid alloc (i + 1) s2 un1 = Inl e \<or> cfg_lines cf getpwuid alloc i s2 un = Inl e \<or>
          e = ExitCode 1"
        using prem \<open>r = Inr s2\<close> Inr np u
        by (cases "cfg_lines cf getpwuid alloc (i + 1) s2 un1") (auto split: if_splits)
      with less.hyps[OF shorter] show ?thesis by (auto simp: allowed_failure_def)
    qed
  qed
qed

section \<open>The Linux configuration\<close>

text \<open>The conversions spelled out in \<open>parse_ps_line\<close> are what the format of the file says.\<close>

lemma linux_read_line:
  assumes "length line < MAXLINE"
  shows "case parse_ps_line line of
      Some p \<Rightarrow> read_line linux_config line = Inr (5, p)
    | None \<Rightarrow> \<exists>n p. read_line linux_config line = Inr (n, p) \<and> n < 5"
proof -
  have v: "PSVARS linux_config = [VUid, VPid, VPpid, VPgid, VCmd]" "\<not> solaris1x linux_config"
    by (simp_all add: linux_config_def)
  have sp: "scan_ld (skip_space s) = scan_ld s" for s
    by (simp add: scan_ld_def skip_space_def)
  have c: "length t < MAXLINE" if "scan_to_NL (skip_space s) = Some (t, r)" "suffix s line" for s t r
    using scan_to_NL_suffix[OF that(1)] suffix_length_le[OF suffix_skip_space[OF that(2)]] assms by simp
  show ?thesis
    by (auto simp: read_line_def v linux_directives parse_ps_line_def sp
        split: option.splits dest!: c scan_ld_suffix intro: suffix_order.trans)
qed

lemma linux_lines: "cfg_lines linux_config getpwuid alloc i s un = ps_lines getpwuid alloc i s un"
proof (induction "length s" arbitrary: i s un rule: less_induct)
  case less
  show ?case
  proof (cases "fgets MAXLINE s")
    case None
    then show ?thesis by (simp add: cfg_lines.simps[of _ _ _ _ s] ps_lines.simps[of _ _ _ s])
  next
    case (Some a)
    obtain line s1 where a: "a = (line, s1)" by fastforce
    define r where "r = (if strlen line = MAXLINE - 1 then drop_rest s1 else Inr s1)"
    have IH: "cfg_lines linux_config getpwuid alloc j s2 v = ps_lines getpwuid alloc j s2 v" if "r = Inr s2" for s2 j v
      using that fgets_shorter[of s line s1] Some a drop_rest_shorter[of s1 s2]
      by (intro less) (auto simp: r_def split: if_splits)
    have n: "PSVARSN linux_config = 5" "UID2USER linux_config" by (simp_all add: linux_config_def)
    note l = linux_read_line[OF fgets_length[OF Some[unfolded a]]]
    show ?thesis
      unfolding cfg_lines.simps[of _ _ _ _ s] ps_lines.simps[of _ _ _ s] Some a option.case prod.case r_def[symmetric]
      using l IH
      by (cases r; cases "parse_ps_line (cstr line)") (auto simp: n enter_user_def split: prod.splits)
  qed
qed

section \<open>Rows of a listing\<close>

text \<open>
  The text a conversion reads as one cell, possibly after blanks, and its value; and a row: the
  cells of a line for a format, with the values of the conversions that store.
\<close>

definition blank :: "string \<Rightarrow> bool" where
  "blank s \<longleftrightarrow> (\<forall>c \<in> set s. is_space c)"

inductive cell :: "conversion \<Rightarrow> string \<Rightarrow> scanned \<Rightarrow> bool" where
  cell_ld: "blank b \<Longrightarrow> cell ConvLd (b @ fmt_ld i) (SLong i)"
| cell_d: "blank b \<Longrightarrow> cell ConvD (b @ fmt_ld i) (SInt i)"
| cell_x: "blank b \<Longrightarrow> h \<noteq> [] \<Longrightarrow> \<forall>c \<in> set h. is_xdigit c \<Longrightarrow> cell ConvX (b @ h) SOther"
| cell_g: "blank b \<Longrightarrow> d \<noteq> [] \<Longrightarrow> \<forall>c \<in> set (d @ f). is_digit c \<Longrightarrow> cell ConvG (b @ d @ ''.'' @ f) SOther"
| cell_s: "blank b \<Longrightarrow> w \<noteq> [] \<Longrightarrow> \<forall>c \<in> set w. \<not> is_space c \<Longrightarrow> cell ConvS (b @ w) (SText w)"
| cell_line: "t \<noteq> [] \<Longrightarrow> NL \<notin> set t \<Longrightarrow> cell ConvLine t (SText t)"
| cell_c: "length t = n \<Longrightarrow> cell (ConvC n) t (SText t)"

fun ends_cell :: "conversion \<Rightarrow> string \<Rightarrow> bool" where
  "ends_cell (ConvC n) r \<longleftrightarrow> True"
| "ends_cell ConvLine r \<longleftrightarrow> r = [] \<or> hd r = NL"
| "ends_cell cv r \<longleftrightarrow> r = [] \<or> is_space (hd r)"

inductive row :: "directive list \<Rightarrow> string \<Rightarrow> scanned list \<Rightarrow> bool" where
  row_end: "row [] r []"
| row_white: "row ds r xs \<Longrightarrow> blank b \<Longrightarrow> r = [] \<or> \<not> is_space (hd r) \<Longrightarrow> row (White # ds) (b @ r) xs"
| row_skip: "row ds r xs \<Longrightarrow> cell cv t x \<Longrightarrow> ends_cell cv r \<Longrightarrow> row (Conv True cv # ds) (t @ r) xs"
| row_store: "row ds r xs \<Longrightarrow> cell cv t x \<Longrightarrow> ends_cell cv r \<Longrightarrow> row (Conv False cv # ds) (t @ r) (x # xs)"

lemma takeWhile_run: "\<forall>c \<in> set t. P c \<Longrightarrow> r = [] \<or> \<not> P (hd r) \<Longrightarrow> takeWhile P (t @ r) = t"
  by (induction t) (cases r; auto)+

lemma dropWhile_run: "\<forall>c \<in> set t. P c \<Longrightarrow> r = [] \<or> \<not> P (hd r) \<Longrightarrow> dropWhile P (t @ r) = r"
  by (induction t) (cases r; auto)+

lemma skip_blank: "blank b \<Longrightarrow> r = [] \<or> \<not> is_space (hd r) \<Longrightarrow> skip_space (b @ r) = r"
  unfolding skip_space_def blank_def by (rule dropWhile_run)

lemma scan_cell: "cell cv t x \<Longrightarrow> ends_cell cv r \<Longrightarrow> scan_conv cv (t @ r) = Some (x, r)"
proof (induction rule: cell.induct)
  case (cell_ld b i)
  then have "scan_ld (b @ fmt_ld i @ r) = Some (i, r)"
    using not_space_digit by (intro scan_ld_fmt) (auto simp: blank_def)
  then show ?case by simp
next
  case (cell_d b i)
  then have "scan_ld (b @ fmt_ld i @ r) = Some (i, r)"
    using not_space_digit by (intro scan_ld_fmt) (auto simp: blank_def)
  then show ?case by simp
next
  case (cell_x b h)
  have x: "\<not> is_space c" "c \<noteq> CHR ''-''" "c \<noteq> CHR ''+''" "c \<noteq> CHR ''x''" "c \<noteq> CHR ''X''" if "is_xdigit c" for c
    using that by (auto simp: is_xdigit_def is_digit_def is_space_def)
  obtain a h' where h: "h = a # h'" using cell_x by (cases h) auto
  have r: "r = [] \<or> \<not> is_xdigit (hd r)" using cell_x x(1) by auto
  have "skip_space (b @ h @ r) = h @ r" using cell_x x h by (intro skip_blank) auto
  moreover have "skip_sign (h @ r) = h @ r" using cell_x x by (auto simp: skip_sign_def h)
  moreover have "\<not> (2 \<le> length (h @ r) \<and> (h @ r) ! 1 \<in> {CHR ''x'', CHR ''X''})"
  proof (cases h')
    case Nil
    then show ?thesis using cell_x by (cases r) (auto simp: h is_space_def)
  next
    case (Cons a' t)
    then show ?thesis using cell_x x(4,5)[of a'] by (auto simp: h)
  qed
  ultimately show ?case
    using takeWhile_run[of h is_xdigit r] dropWhile_run[of h is_xdigit r] cell_x r
    by (auto simp: scan_x_def Let_def)
next
  case (cell_g b d f)
  have dot: "\<not> is_digit CHR ''.''" by (simp add: is_digit_def)
  have e: "\<not> is_space CHR ''e''" "\<not> is_space CHR ''E''" by (simp_all add: is_space_def)
  have x: "\<not> is_space c" "c \<noteq> CHR ''-''" "c \<noteq> CHR ''+''" if "is_digit c" for c
    using that by (auto simp: is_digit_def is_space_def)
  obtain a d' where d: "d = a # d'" using cell_g by (cases d) auto
  have r: "r = [] \<or> \<not> is_digit (hd r)" "r = [] \<or> hd r \<notin> {CHR ''e'', CHR ''E''}"
    using cell_g.prems x(1) e by auto
  have "skip_space (b @ d @ CHR ''.'' # f @ r) = d @ CHR ''.'' # f @ r"
    using cell_g x d by (intro skip_blank) auto
  moreover have "skip_sign (d @ CHR ''.'' # f @ r) = d @ CHR ''.'' # f @ r"
    using cell_g x by (auto simp: skip_sign_def d)
  moreover have "takeWhile is_digit (d @ CHR ''.'' # f @ r) = d" "dropWhile is_digit (d @ CHR ''.'' # f @ r) = CHR ''.'' # f @ r"
    using cell_g dot takeWhile_run[of d is_digit "CHR ''.'' # f @ r"] dropWhile_run[of d is_digit "CHR ''.'' # f @ r"] by auto
  moreover have "dropWhile is_digit (f @ r) = r" using cell_g r(1) by (intro dropWhile_run) auto
  ultimately show ?case using cell_g r(2) by (auto simp: scan_g_def Let_def)
next
  case (cell_s b w)
  have "skip_space (b @ w @ r) = w @ r" using cell_s by (intro skip_blank) (auto simp: hd_append)
  then show ?case
    using cell_s takeWhile_run[of w "\<lambda>c. \<not> is_space c" r] dropWhile_run[of w "\<lambda>c. \<not> is_space c" r]
    by (auto simp: scan_word_def Let_def)
next
  case (cell_line t)
  then have "\<forall>c \<in> set t. c \<noteq> NL" "r = [] \<or> \<not> hd r \<noteq> NL" by auto
  from takeWhile_run[OF this] dropWhile_run[OF this] cell_line show ?case
    by (simp add: scan_to_NL_def Let_def)
qed auto

text \<open>The value of a variable, and the values it can hold.\<close>

fun read_var :: "ps_var \<Rightarrow> proc \<Rightarrow> scanned" where
  "read_var VUid p = SLong (p_uid p)"
| "read_var VPid p = SLong (p_pid p)"
| "read_var VPpid p = SLong (p_ppid p)"
| "read_var VPgid p = SLong (p_pgid p)"
| "read_var VThcount p = SLong (int (p_thcount p))"
| "read_var VName p = SText (p_name p)"
| "read_var VCmd p = SText (p_cmd p)"

fun fits :: "ps_var \<Rightarrow> scanned \<Rightarrow> bool" where
  "fits VName (SText t) \<longleftrightarrow> length t < 32"
| "fits VCmd (SText t) \<longleftrightarrow> length t < MAXLINE"
| "fits VThcount (SLong i) \<longleftrightarrow> 0 \<le> i \<and> i < 2 ^ 64"
| "fits _ _ \<longleftrightarrow> True"

inductive_cases cell_ldE: "cell ConvLd t x"
inductive_cases cell_sE: "cell ConvS t x"
inductive_cases cell_lineE: "cell ConvLine t x"

lemma store_cell:
  assumes "cell cv t x" "accepts cv v" "fits v x"
  shows "\<exists>q. store_var v x p = Inr q \<and> read_var v q = x \<and> (\<forall>w. w \<noteq> v \<longrightarrow> read_var w q = read_var w p)"
proof -
  have other: "(\<forall>w. w \<noteq> v \<longrightarrow> read_var w q = read_var w p) \<longleftrightarrow>
    (\<forall>w \<in> {VUid, VPid, VPpid, VPgid, VThcount, VName, VCmd} - {v}. read_var w q = read_var w p)" for q
    using ps_var.exhaust by blast
  show ?thesis
    unfolding other
  proof (cases cv)
    case ConvLd
    with assms show "\<exists>q. store_var v x p = Inr q \<and> read_var v q = x \<and>
        (\<forall>w \<in> {VUid, VPid, VPpid, VPgid, VThcount, VName, VCmd} - {v}. read_var w q = read_var w p)"
      by (auto elim!: cell_ldE)
  next
    case ConvS
    with assms show "\<exists>q. store_var v x p = Inr q \<and> read_var v q = x \<and>
        (\<forall>w \<in> {VUid, VPid, VPpid, VPgid, VThcount, VName, VCmd} - {v}. read_var w q = read_var w p)"
      by (auto elim!: cell_sE)
  next
    case ConvLine
    with assms show "\<exists>q. store_var v x p = Inr q \<and> read_var v q = x \<and>
        (\<forall>w \<in> {VUid, VPid, VPpid, VPgid, VThcount, VName, VCmd} - {v}. read_var w q = read_var w p)"
      by (auto elim!: cell_lineE)
  qed (use assms(2) in auto)
qed

lemma sscanf_row:
  assumes "row ds s xs" "typed ds vs" "distinct vs" "list_all2 fits vs xs"
  shows "\<exists>q. sscanf ds vs s n p = Inr (n + length xs, q) \<and> map (\<lambda>v. read_var v q) vs = xs \<and>
    (\<forall>w. w \<notin> set vs \<longrightarrow> read_var w q = read_var w p)"
  using assms
proof (induction arbitrary: vs n p rule: row.induct)
  case (row_white ds r xs b)
  then show ?case by (simp add: skip_blank)
next
  case (row_skip ds r xs cv t x)
  then show ?case by (simp add: scan_cell)
next
  case (row_store ds r xs cv t x)
  then obtain v vs' where vs: "vs = v # vs'" and ty: "accepts cv v" "typed ds vs'"
    by (cases vs) auto
  have fit: "fits v x" "list_all2 fits vs' xs" and di: "distinct vs'" "v \<notin> set vs'"
    using row_store.prems vs by auto
  obtain p1 where p1: "store_var v x p = Inr p1" "read_var v p1 = x" "\<forall>w. w \<noteq> v \<longrightarrow> read_var w p1 = read_var w p"
    using store_cell[OF row_store.hyps(2) ty(1) fit(1)] by blast
  from row_store.IH[OF ty(2) di(1) fit(2), of "n + 1" p1] obtain q where
    "sscanf ds vs' r (n + 1) p1 = Inr (n + 1 + length xs, q)" "map (\<lambda>v. read_var v q) vs' = xs"
    "\<forall>w. w \<notin> set vs' \<longrightarrow> read_var w q = read_var w p1" by blast
  with p1 di row_store.hyps show ?case by (auto simp: vs scan_cell)
qed auto

section \<open>Listings\<close>

text \<open>A line of a listing, without its newline: what \<open>sscanf\<close> sees of it, and that its cells are
  the values \<open>xs\<close>.\<close>

definition seen :: "ps_config \<Rightarrow> string \<Rightarrow> string" where
  "seen cf l = (if solaris1x cf then take 44 l @ '' '' @ drop 44 l else l @ [NL])"

definition listed :: "ps_config \<Rightarrow> string \<Rightarrow> scanned list \<Rightarrow> bool" where
  "listed cf l xs \<longleftrightarrow>
     NL \<notin> set l \<and> NUL \<notin> set l \<and> length l < MAXLINE - 2 \<and> (solaris1x cf \<longrightarrow> 44 < length l) \<and>
     row (the (parse_format (PSFORMAT cf))) (seen cf l) xs \<and> list_all2 fits (PSVARS cf) xs"

lemma split_columns_line:
  assumes "NL \<notin> set l" "44 < length l" "length l < MAXLINE - 2"
  shows "split_columns (l @ [NL]) = Inr (take 44 l @ '' '' @ drop 44 l)"
proof -
  have "NL \<notin> set (drop 44 l)" using assms(1) by (meson in_set_dropD)
  from takeWhile_NL[OF this, of "[]"] dropWhile_NL[OF this, of "[]"]
  have "scan_to_NL (drop 44 (l @ [NL])) = Some (drop 44 l, [NL])"
    using assms(2) by (simp add: scan_to_NL_def)
  then show ?thesis using assms by (simp add: split_columns_def snprintf_def)
qed

lemma read_listed:
  assumes "config_ok cf" "listed cf l xs"
  shows "\<exists>p. read_line cf (l @ [NL]) = Inr (PSVARSN cf, p) \<and> map (\<lambda>v. read_var v p) (PSVARS cf) = xs"
proof -
  obtain ds where ds: "parse_format (PSFORMAT cf) = Some ds" "typed ds (PSVARS cf)" "distinct (PSVARS cf)"
    "PSVARSN cf = length (PSVARS cf)"
    using assms(1) by (auto simp: config_ok_def split: option.splits)
  have "row ds (seen cf l) xs" "list_all2 fits (PSVARS cf) xs" using assms(2) ds by (auto simp: listed_def)
  from sscanf_row[OF this(1) ds(2,3) this(2), of 0 empty_proc] obtain p where
    "sscanf ds (PSVARS cf) (seen cf l) 0 empty_proc = Inr (length xs, p)"
    "map (\<lambda>v. read_var v p) (PSVARS cf) = xs" by auto
  moreover have "(if solaris1x cf then split_columns (l @ [NL]) else Inr (l @ [NL])) = Inr (seen cf l)"
    using assms(2) split_columns_line[of l] by (auto simp: listed_def seen_def)
  ultimately show ?thesis
    using ds by (intro exI[of _ p]) (auto simp: read_line_def)
qed

lemma enter_user_vars:
  assumes "config_ok cf" "enter_user cf getpwuid p un = (q, un1)"
  shows "map (\<lambda>v. read_var v (unlink q)) (PSVARS cf) = map (\<lambda>v. read_var v p) (PSVARS cf)"
proof -
  have "read_var v (unlink q) = read_var v p" if "v \<in> set (PSVARS cf)" for v
    by (cases v; use that assms in \<open>auto simp: enter_user_def config_ok_def unlink_def split: if_splits prod.splits\<close>)
  then show ?thesis by simp
qed

lemma cfg_lines_listed:
  assumes "config_ok cf" "\<And>n. alloc n" "\<forall>(l, xs) \<in> set es. listed cf l xs"
  shows "\<exists>P un'. cfg_lines cf getpwuid alloc i (lines_text (map fst es)) un = Inr (P, un') \<and>
    map (\<lambda>p. map (\<lambda>v. read_var v p) (PSVARS cf)) P = map snd es \<and> (\<forall>p \<in> set P. fresh p)"
  using assms(3)
proof (induction es arbitrary: i un)
  case Nil
  then show ?case by (subst cfg_lines.simps) (simp add: lines_text_def fgets_def)
next
  case (Cons e es)
  obtain l xs where e: "e = (l, xs)" by fastforce
  with Cons.prems have ls: "listed cf l xs" by simp
  then have l: "NL \<notin> set l" "NUL \<notin> set l" "length l < MAXLINE - 2" by (auto simp: listed_def)
  from read_listed[OF assms(1) ls] obtain p where p: "read_line cf (l @ [NL]) = Inr (PSVARSN cf, p)"
    "map (\<lambda>v. read_var v p) (PSVARS cf) = xs" by blast
  obtain q un1 where u: "enter_user cf getpwuid p un = (q, un1)" by fastforce
  from Cons obtain P un' where P: "cfg_lines cf getpwuid alloc (i + 1) (lines_text (map fst es)) un1 = Inr (P, un')"
    "map (\<lambda>p. map (\<lambda>v. read_var v p) (PSVARS cf)) P = map snd es" "\<forall>p \<in> set P. fresh p"
    by (metis list.set_intros(2))
  have t: "lines_text (map fst (e # es)) = l @ NL # lines_text (map fst es)" by (simp add: lines_text_def e)
  have f: "fgets MAXLINE (l @ NL # s) = Some (l @ [NL], s)" for s using l by (intro fgets_line) auto
  have len: "strlen (l @ [NL]) \<noteq> MAXLINE - 1" using l by (simp add: strlen_line)
  have c: "cstr (l @ [NL]) = l @ [NL]" using l(2) by (intro cstr_id) simp
  have "cfg_lines cf getpwuid alloc i (l @ NL # lines_text (map fst es)) un = Inr (unlink q # P, un')"
    using len P(1) by (subst cfg_lines.simps) (simp add: f c assms(2) p(1) u)
  with P(2,3) enter_user_vars[OF assms(1) u] p(2) show ?case unfolding t by (simp add: e)
qed

section \<open>Properties\<close>



text \<open>
  C8. On every such system, reading a listing inverts printing it: after the header, \<open>GetProcesses\<close>
  has one entry per line, in order, in which each variable of \<open>PSVARS\<close> has the value of its column,
  whatever the blanks between the columns and the text of the columns that are skipped, and every
  entry is ready for \<open>MakeTree\<close>.
\<close>

theorem cfg_GetProcesses_reads_listing:
  assumes "cf \<in> set ps_systems" and "\<And>n. alloc n" and "NL \<notin> set header" "length header < MAXLINE - 1"
    and "\<forall>(l, xs) \<in> set es. listed cf l xs"
  shows "\<exists>P un'. cfg_GetProcesses cf getpwuid alloc (Some (header @ NL # lines_text (map fst es))) un = Inr (P, un') \<and>
    map (\<lambda>p. map (\<lambda>v. read_var v p) (PSVARS cf)) P = map snd es \<and> (\<forall>p \<in> set P. fresh p)"
proof -
  have "config_ok cf" using assms(1) systems_ok by blast
  from cfg_lines_listed[OF this, of alloc es getpwuid 0 un] assms(2,5) obtain P un' where
    "cfg_lines cf getpwuid alloc 0 (lines_text (map fst es)) un = Inr (P, un')"
    "map (\<lambda>p. map (\<lambda>v. read_var v p) (PSVARS cf)) P = map snd es" "\<forall>p \<in> set P. fresh p" by blast
  with fgets_line[OF assms(3,4)] assms(2) show ?thesis by (auto simp: cfg_GetProcesses_def)
qed

definition bsd_line :: "string \<Rightarrow> int \<Rightarrow> int \<Rightarrow> int \<Rightarrow> string \<Rightarrow> string" where
  "bsd_line user pid ppid pgid cmd =
     user @ '' '' @ fmt_ld pid @ '' '' @ fmt_ld ppid @ '' '' @ fmt_ld pgid @ '' '' @ cmd"

lemma fmt_ld_start [simp]: "fmt_ld i \<noteq> []" "\<not> is_space (hd (fmt_ld i))"
proof -
  have "\<not> is_space (hd (dec_nat n))" for n
    using dec_nat_digits[of "hd (dec_nat n)" n] not_space_digit by simp
  then show "fmt_ld i \<noteq> []" "\<not> is_space (hd (fmt_ld i))" by (auto simp: fmt_ld_def is_space_def)
qed

lemma bsd_row:
  assumes "user \<noteq> []" "\<forall>c \<in> set user. \<not> is_space c" "cmd \<noteq> []" "\<not> is_space (hd cmd)" "NL \<notin> set cmd"
  shows "row (the (parse_format (PSFORMAT bsd_config))) (bsd_line user pid ppid pgid cmd @ [NL])
    [SText user, SLong pid, SLong ppid, SLong pgid, SText cmd]"
proof -
  have ds: "parse_format (PSFORMAT bsd_config) = Some [Conv False ConvS, White, Conv False ConvLd, White,
      Conv False ConvLd, White, Conv False ConvLd, White, Conv False ConvLine]"
    by (simp add: bsd_config_def format_defs)
  have ld: "cell ConvLd (fmt_ld i) (SLong i)" for i using cell_ld[of "[]" i] by (simp add: blank_def)
  have s: "cell ConvS user (SText user)" using cell_s[of "[]" user] assms by (simp add: blank_def)
  have b: "blank '' ''" by (simp add: blank_def)
  have f: "fmt_ld i @ r = [] \<or> \<not> is_space (hd (fmt_ld i @ r))" for i r by simp
  have "row [White, Conv False ConvLine] ('' '' @ cmd @ [NL]) [SText cmd]"
    using assms by (intro row_white[OF row_store[OF row_end cell_line] b]) (auto simp: hd_append)
  note r1 = row_white[OF row_store[OF this ld[of pgid]] b f]
  note r2 = row_white[OF row_store[OF r1 ld[of ppid]] b f]
  note r3 = row_white[OF row_store[OF r2 ld[of pid]] b f]
  from row_store[OF r3 s] show ?thesis unfolding ds bsd_line_def by simp
qed

lemma bsd_sample_listed:
  "listed bsd_config (bsd_line ''root'' 1 0 1 ''init -s'') [SText ''root'', SLong 1, SLong 0, SLong 1, SText ''init -s'']"
proof -
  have "dec_nat (Suc 0) = ''1''" "dec_nat 0 = ''0''"
    by (simp_all add: dec_nat.simps char_of_def bit_Suc_0_iff)
  then have bl: "bsd_line ''root'' 1 0 1 ''init -s'' = ''root 1 0 1 init -s''"
    by (simp add: bsd_line_def fmt_ld_def)
  have c: "\<not> solaris1x bsd_config" "PSVARS bsd_config = [VName, VPid, VPpid, VPgid, VCmd]"
    by (simp_all add: bsd_config_def)
  have r: "row (the (parse_format (PSFORMAT bsd_config))) (bsd_line ''root'' 1 0 1 ''init -s'' @ [NL])
      [SText ''root'', SLong 1, SLong 0, SLong 1, SText ''init -s'']"
    by (rule bsd_row) (auto simp: is_space_def)
  then show ?thesis unfolding listed_def seen_def bl by (simp add: c MAXLINE_def)
qed

theorem cfg_GetProcesses_reads_listing_witness:
  "listed bsd_config (bsd_line ''root'' 1 0 1 ''init -s'') [SText ''root'', SLong 1, SLong 0, SLong 1, SText ''init -s''] \<and>
   (\<exists>P un'. cfg_GetProcesses bsd_config (\<lambda>u. None) (\<lambda>n. True)
      (Some (''USER'' @ NL # lines_text (map fst
        [(bsd_line ''root'' 1 0 1 ''init -s'', [SText ''root'', SLong 1, SLong 0, SLong 1, SText ''init -s''])]))) [] = Inr (P, un') \<and>
    map (\<lambda>p. map (\<lambda>v. read_var v p) (PSVARS bsd_config)) P =
      map snd [(bsd_line ''root'' 1 0 1 ''init -s'', [SText ''root'', SLong 1, SLong 0, SLong 1, SText ''init -s''])] \<and>
    (\<forall>p \<in> set P. fresh p))"
  using bsd_sample_listed
  by (intro conjI cfg_GetProcesses_reads_listing) (auto simp: ps_systems_def MAXLINE_def)

text \<open>
  For Linux the reader compiled from the configuration is the one that spells the conversions
  out, on every input.
\<close>

theorem cfg_GetProcesses_linux:
  "cfg_GetProcesses linux_config getpwuid alloc tn un = GetProcesses getpwuid alloc tn un"
  by (simp add: cfg_GetProcesses_def GetProcesses_def linux_lines split: option.splits)

text \<open>
  The configuration of one system is wrong: its format has a fifth conversion that stores, between
  the parent and the command, for which there is no variable. Every complete line of the listing
  makes \<open>sscanf\<close> store an \<open>int\<close> into \<open>cmd\<close>, and the line as a string through an argument
  that was not passed.
\<close>

definition old_bsd_line :: "int list \<Rightarrow> char \<Rightarrow> int \<Rightarrow> int \<Rightarrow> int \<Rightarrow> string \<Rightarrow> string" where
  "old_bsd_line skipped c uid pid ppid rest =
     fmt_ld (skipped ! 0) @ '' '' @ c # '' '' @ fmt_ld uid @ '' '' @ fmt_ld pid @ '' '' @ fmt_ld ppid @ '' '' @
     fmt_ld (skipped ! 1) @ '' '' @ fmt_ld (skipped ! 2) @ '' '' @ fmt_ld (skipped ! 3) @ '' '' @ ''f0'' @ '' '' @
     fmt_ld (skipped ! 4) @ '' '' @ fmt_ld (skipped ! 5) @ '' '' @ rest"

theorem old_bsd_format_ill_typed:
  assumes "\<not> is_space c"
  shows "read_line old_bsd_config (old_bsd_line skipped c uid pid ppid rest) = Inl BadArgument"
proof -
  have sc: "scan_ld (fmt_ld i @ CHR '' '' # t) = Some (i, CHR '' '' # t)" for i t
    using scan_ld_fmt[of "[]" "CHR '' '' # t" i] by simp
  have sk: "skip_space (CHR '' '' # fmt_ld i @ t) = fmt_ld i @ t" for i t
    using skip_blank[of "'' ''" "fmt_ld i @ t"] by (simp add: blank_def)
  have x: "scan_x (''f0'' @ CHR '' '' # t) = Some (CHR '' '' # t)" for t
    using scan_cell[OF cell_x[of "[]" "''f0''"], of "CHR '' '' # t"]
    by (simp add: blank_def is_xdigit_def is_digit_def)
  have xs: "skip_space (CHR '' '' # CHR ''f'' # t) = CHR ''f'' # t" "skip_space (CHR '' '' # c # t) = c # t" for t
    using assms by (simp_all add: skip_space_def is_space_def)
  have v: "PSVARS old_bsd_config = [VUid, VPid, VPpid, VCmd]" "\<not> solaris1x old_bsd_config"
    by (simp_all add: old_bsd_config_def default_config_def default_vars_def)
  show ?thesis
    unfolding read_line_def old_bsd_directives v
    using x by (simp add: v old_bsd_line_def sc sk xs)
qed

theorem old_bsd_format_ill_typed_witness:
  "read_line old_bsd_config (old_bsd_line [1, 0, 0, 0, 12, 4] CHR ''S'' 0 5 1 ''p0 0:00 init'') = Inl BadArgument"
  by (rule old_bsd_format_ill_typed) (simp add: is_space_def)

end
