(* ===== verification/PsSystems.thy ===== *)
theory PsSystems
  imports PsMain PsFormat
begin

text \<open>
  \<open>tree/pstree_source_code.c\<close> as it is compiled on systems other than Linux: \<open>main\<close> reads what the
  \<open>ps\<close> command of the system prints, or a file, with the format of the system, corrects zombies where
  they are listed with the pid 0, and goes on as in theory PsMain. \<open>popen\<close> is a parameter: the
  text a command prints, if it can be run.
\<close>

section \<open>Definitions\<close>

definition sys_read_table ::
  "ps_config \<Rightarrow> (string \<Rightarrow> string option) \<Rightarrow> ps_env \<Rightarrow> ps_args \<Rightarrow> (proc list \<times> un_cache) res" where
  "sys_read_table cf popen env a =
     cfg_table cf (e_getpwuid env) (e_alloc env)
       (case a_input a of
          None \<Rightarrow> popen (PSCMD cf)
        | Some input \<Rightarrow> if input = ''-'' then Some (e_stdin env) else e_fopen env input) []"

definition sys_main ::
  "ps_config \<Rightarrow> (string \<Rightarrow> string option) \<Rightarrow> ps_env \<Rightarrow> (char \<times> string) list \<Rightarrow> string list \<Rightarrow>
   (string \<times> string list) res option" where
  "sys_main cf popen env opts operands =
     (case rbind (parse_options (e_getpwnam env) opts default_args) (\<lambda>a.
            rbind (sys_read_table cf popen env a) (\<lambda>(P, _).
            if P = [] then Inl (ExitCode 1)
            else rbind (GetRootPid P) (\<lambda>RootPid. Inr (a, P, RootPid)))) of
        Inl e \<Rightarrow> Some (Inl e)
      | Inr (a, P, RootPid) \<Rightarrow> map_option Inr (run_tree env a operands P RootPid))"

section \<open>Zombies\<close>

text \<open>With more than one entry of pid 0, only the one that is its own parent, or has no parent, keeps
  it; nothing else of any entry changes.\<close>

lemma FixZombies_entries:
  "list_all2 (\<lambda>q p. q = p \<or> p_pid p = 0 \<and> p_ppid p \<noteq> 0 \<and> p_ppid p \<noteq> -1 \<and> q = p\<lparr>p_pid := -1\<rparr>) (FixZombies P) P"
  by (auto simp: FixZombies_def list_all2_map1 intro!: list_all2_refl list_all2_same[THEN iffD2] split: if_splits)

lemma FixZombies_fresh: "\<forall>p \<in> set P. fresh p \<Longrightarrow> p \<in> set (FixZombies P) \<Longrightarrow> fresh p"
  by (auto simp: FixZombies_def fresh_def split: if_splits)

lemma FixZombies_zero:
  assumes "1 < length (filter (\<lambda>p. p_pid p = 0) P)" "q \<in> set (FixZombies P)" "p_pid q = 0"
  shows "p_ppid q = 0 \<or> p_ppid q = -1"
  using assms by (auto simp: FixZombies_def split: if_splits)

definition corrected :: "ps_config \<Rightarrow> proc list \<Rightarrow> proc list" where
  "corrected cf P = (if ZOMBIES_HAVE_PID_0 cf then FixZombies P else P)"

section \<open>Properties\<close>


definition sample_listing :: "(string \<times> scanned list) list" where
  "sample_listing =
     [(bsd_line ''root'' 1 0 1 ''init -s'', [SText ''root'', SLong 1, SLong 0, SLong 1, SText ''init -s''])]"

definition sample_popen :: "string \<Rightarrow> string option" where
  "sample_popen cmd =
     (if cmd = PSCMD bsd_config then Some (''USER'' @ NL # lines_text (map fst sample_listing)) else None)"

lemma single_forest: "p_pid p \<noteq> p_ppid p \<Longrightarrow> forest [p]"
proof -
  assume "p_pid p \<noteq> p_ppid p"
  then have "parent_of [p] 0 = None" by (simp add: parent_of_def get_pid_index_def)
  then have "chain (parent_of [p]) (parent_of [p] 0) []" by simp
  then show ?thesis unfolding forest_def by (metis length_Cons less_one list.size(3) One_nat_def)
qed


end
