(* ===== verification/PsAix.thy ===== *)
theory PsAix
  imports PsRead
begin

text \<open>
  \<open>tree/pstree_source_code.c\<close> on AIX, with \<open>getprocs\<close>: \<open>GetProcessesDirect\<close> reads the process
  table of the kernel into a buffer that is doubled until it is large enough, and builds the
  command line of each process from the arguments. Also the two functions the file
  brings along for systems without them: \<open>strstr\<close> and \<open>snprintf\<close>.

  The system calls are parameters: \<open>getprocs k n\<close> is what the \<open>k\<close>-th call with room for \<open>n\<close>
  entries returns (\<open>None\<close> for \<open>-1\<close>), \<open>alloc\<close> tells whether \<open>malloc\<close> succeeds, and \<open>pi_args\<close>
  is what \<open>getargs\<close> stores. \<open>junk\<close> is what a fresh \<open>cmd\<close> array holds.
\<close>

section \<open>Definitions\<close>

record procsinfo =
  pi_uid :: int
  pi_pid :: int
  pi_ppid :: int
  pi_pgrp :: int
  pi_thcount :: nat
  pi_zombie :: bool
  pi_comm :: string
  pi_args :: string

text \<open>\<open>maxnproc\<close> is \<open>1024\<close> in the first call and doubles.\<close>

definition maxnproc :: "nat \<Rightarrow> nat" where
  "maxnproc k = 1024 * 2 ^ k"

function get_table :: "(nat \<Rightarrow> bool) \<Rightarrow> (nat \<Rightarrow> nat \<Rightarrow> procsinfo list option) \<Rightarrow> nat \<Rightarrow> procsinfo list res" where
  "get_table alloc getprocs k =
     (if \<not> alloc (maxnproc k) then Inl (ExitCode 1)
      else case getprocs k (maxnproc k) of
        None \<Rightarrow> Inl (ExitCode 1)
      | Some ps \<Rightarrow>
          if length ps = maxnproc k
          then (if 20 \<le> k then Inl SignedOverflow else get_table alloc getprocs (k + 1))
          else Inr ps)"
  by pat_completeness auto

termination
  by (relation "measure (\<lambda>(_, _, k). 20 - k)") auto

declare get_table.simps [simp del]

function collect_args :: "nat \<Rightarrow> string \<Rightarrow> string res" where
  "collect_args ci c =
     (if length c \<le> ci then Inl OutOfBounds
      else if c ! ci = NUL then Inr c
      else let ci' = ci + strlen (drop ci c) in
        if ci' < MAXLINE - 2 then collect_args (ci' + 1) (c[ci' := CHR '' ''])
        else Inr c)"
  by pat_completeness auto

termination
  by (relation "measure (\<lambda>(ci, _). MAXLINE - ci)") auto

declare collect_args.simps [simp del]

primrec trim :: "string \<Rightarrow> nat \<Rightarrow> nat" where
  "trim c 0 = 0"
| "trim c (Suc ci) = (if c ! ci = CHR '' '' then trim c ci else Suc ci)"

definition printable :: "char \<Rightarrow> char" where
  "printable ch = (if ch = CHR 0x0A \<or> ch = CHR 0x09 then CHR ''?'' else ch)"

fun mask_unprintables :: "string \<Rightarrow> string" where
  "mask_unprintables [] = []"
| "mask_unprintables (ch # c) = (if ch = NUL then ch # c else printable ch # mask_unprintables c)"

definition aix_cmd :: "string \<Rightarrow> procsinfo \<Rightarrow> string res" where
  "aix_cmd junk p =
     (if pi_zombie p then strcpy junk ''<defunct>''
      else
        let c0 = (pi_args p @ drop (length (pi_args p)) junk)[MAXLINE - 2 := NUL, MAXLINE - 1 := NUL] in
        rbind (collect_args 0 c0) (\<lambda>c1.
          let c2 = mask_unprintables (c1[trim c1 (strlen c1) := NUL]) in
          if c2 ! 0 \<noteq> NUL then Inr c2
          else
            let l = strlen (pi_comm p); c3 = c2[0 := CHR ''[''] in
            rbind (strcpy (drop 1 c3) (pi_comm p)) (\<lambda>t. Inr ((take 1 c3 @ t)[l + 1 := CHR '']'', l + 2 := NUL]))))"

definition aix_entry :: "(int \<Rightarrow> string option) \<Rightarrow> string \<Rightarrow> procsinfo \<Rightarrow> un_cache \<Rightarrow> (proc \<times> un_cache) res" where
  "aix_entry getpwuid junk p un =
     (let (nm, un1) = uid2user getpwuid 32 (pi_uid p) un in
      rbind (aix_cmd junk p) (\<lambda>c.
        Inr (\<lparr>p_uid = pi_uid p, p_pid = pi_pid p, p_ppid = pi_ppid p, p_pgid = pi_pgrp p, p_name = nm, p_cmd = cstr c,
              p_print = False, p_parent = None, p_child = None, p_sister = None, p_thcount = pi_thcount p\<rparr>, un1)))"

fun aix_loop :: "(int \<Rightarrow> string option) \<Rightarrow> (nat \<Rightarrow> string) \<Rightarrow> nat \<Rightarrow> procsinfo list \<Rightarrow> un_cache \<Rightarrow> (proc list \<times> un_cache) res" where
  "aix_loop getpwuid junk i [] un = Inr ([], un)"
| "aix_loop getpwuid junk i (p # ps) un =
     rbind (aix_entry getpwuid (junk i) p un) (\<lambda>(q, un1).
     rbind (aix_loop getpwuid junk (i + 1) ps un1) (\<lambda>(qs, un2). Inr (q # qs, un2)))"

definition aix_GetProcessesDirect ::
  "(int \<Rightarrow> string option) \<Rightarrow> (nat \<Rightarrow> bool) \<Rightarrow> (nat \<Rightarrow> nat \<Rightarrow> procsinfo list option) \<Rightarrow> (nat \<Rightarrow> string) \<Rightarrow> un_cache \<Rightarrow>
     (proc list \<times> un_cache) res" where
  "aix_GetProcessesDirect getpwuid alloc getprocs junk un =
     rbind (get_table alloc getprocs 0) (\<lambda>ps.
       if \<not> alloc (length ps + 1) then Inl (ExitCode 1) else aix_loop getpwuid junk 0 ps un)"

text \<open>The portable \<open>strstr\<close>: the position found, \<open>None\<close> for the null pointer.\<close>

function strstr_loop :: "string \<Rightarrow> string \<Rightarrow> nat \<Rightarrow> nat option" where
  "strstr_loop s1 s2 pos =
     (if length s2 \<le> length s1
      then (if take (length s2) s1 = s2 then Some pos else strstr_loop (tl s1) s2 (pos + 1))
      else None)"
  by pat_completeness auto

termination
  by (relation "measure (\<lambda>(s1, _, _). length s1)") (auto, metis diff_less length_greater_0_conv take_Nil list.size(3) zero_less_one le_zero_eq One_nat_def)

declare strstr_loop.simps [simp del]

definition portable_strstr :: "string \<Rightarrow> string \<Rightarrow> nat option" where
  "portable_strstr s1 s2 = (if length s2 \<noteq> 0 then strstr_loop s1 s2 0 else None)"

text \<open>The portable \<open>snprintf\<close>; the text is what the format and its arguments give.\<close>

definition portable_snprintf :: "string \<Rightarrow> int \<Rightarrow> string \<Rightarrow> (nat \<times> string) res" where
  "portable_snprintf s namesiz txt =
     (let chars_needed = length txt in
      if 1024 \<le> chars_needed then Inl OutOfBounds
      else if namesiz \<le> 0 then Inr (chars_needed, s)
      else let n = (if int chars_needed \<ge> namesiz then nat namesiz - 1 else chars_needed) in
        if length s \<le> n then Inl OutOfBounds
        else Inr (chars_needed, take n txt @ NUL # drop (n + 1) s))"

section \<open>Command lines\<close>

definition join_args :: "string list \<Rightarrow> string" where
  "join_args as = concat (map (\<lambda>a. a @ '' '') as)"

definition args_layout :: "string list \<Rightarrow> string" where
  "args_layout as = concat (map (\<lambda>a. a @ [NUL]) as)"

definition rtrim :: "string \<Rightarrow> string" where
  "rtrim s = rev (dropWhile (\<lambda>c. c = CHR '' '') (rev s))"

lemma collect_args_ok:
  assumes "\<forall>a \<in> set as. a \<noteq> [] \<and> NUL \<notin> set a" and "length (pre @ args_layout as) \<le> MAXLINE - 2"
  shows "collect_args (length pre) (pre @ args_layout as @ NUL # r) = Inr (pre @ join_args as @ NUL # r)"
  using assms
proof (induction as arbitrary: pre)
  case Nil
  then show ?case by (subst collect_args.simps) (simp add: args_layout_def join_args_def)
next
  case (Cons a as)
  define c where "c = pre @ args_layout (a # as) @ NUL # r"
  have a: "a \<noteq> []" "NUL \<notin> set a" using Cons.prems(1) by auto
  have lay: "c = pre @ a @ NUL # args_layout as @ NUL # r" by (simp add: args_layout_def c_def)
  have sl: "strlen (drop (length pre) c) = length a" unfolding lay using a(2) by (simp add: strlen_def)
  have bound: "length pre + length a < MAXLINE - 2" using Cons.prems(2) by (simp add: args_layout_def)
  have upd: "c[length pre + length a := CHR '' ''] = (pre @ a @ '' '') @ args_layout as @ NUL # r"
    unfolding lay by (simp add: list_update_append)
  have hd: "c ! length pre \<noteq> NUL" "length pre < length c" unfolding lay using a by (cases a; auto simp: nth_append)+
  have "collect_args (length pre) c = collect_args (length pre + length a + 1) (c[length pre + length a := CHR '' ''])"
    using hd bound sl by (subst collect_args.simps) (simp add: Let_def)
  also have "\<dots> = collect_args (length (pre @ a @ '' '')) ((pre @ a @ '' '') @ args_layout as @ NUL # r)" unfolding upd by simp
  also have "\<dots> = Inr ((pre @ a @ '' '') @ join_args as @ NUL # r)"
    using Cons.prems by (intro Cons.IH) (simp_all add: args_layout_def)
  finally show ?case by (simp add: join_args_def c_def)
qed

lemma trim_rtrim: "trim (s @ r) (length s) = length (rtrim s)"
proof (induction s arbitrary: r rule: rev_induct)
  case (snoc x s)
  then show ?case using snoc[of "x # r"] by (auto simp: rtrim_def)
qed (simp add: rtrim_def)

lemma rtrim_prefix: "take (length (rtrim s)) s = rtrim s"
proof (induction s rule: rev_induct)
  case (snoc x s)
  then show ?case using length_dropWhile_le[of "\<lambda>c. c = CHR '' ''" "rev s"] by (auto simp: rtrim_def)
qed (simp add: rtrim_def)

lemma mask_unprintables_NUL: "NUL \<notin> set s \<Longrightarrow> mask_unprintables (s @ NUL # r) = map printable s @ NUL # r"
  by (induction s) auto

lemma strstr_loop_find:
  "s2 \<noteq> [] \<Longrightarrow> strstr_loop s1 s2 pos = map_option (\<lambda>k. pos + k) (find (\<lambda>k. prefix s2 (drop k s1)) [0..<length s1])"
proof (induction s1 arbitrary: pos)
  case Nil
  then show ?case by (subst strstr_loop.simps) simp
next
  case (Cons c s1)
  have u: "[0..<length (c # s1)] = 0 # map Suc [0..<length s1]" by (simp add: map_Suc_upt upt_conv_Cons del: upt_Suc)
  have f: "find P (map Suc xs) = map_option Suc (find (\<lambda>k. P (Suc k)) xs)" for P xs by (induction xs) auto
  have p: "prefix s2 w \<longleftrightarrow> length s2 \<le> length w \<and> take (length s2) w = s2" for w
    by (metis prefix_length_le append_eq_conv_conj prefix_def take_is_prefix)
  have ff: "find (\<lambda>k. prefix s2 (drop k (c # s1))) [0..<length (c # s1)] =
      (if prefix s2 (c # s1) then Some 0 else map_option Suc (find (\<lambda>k. prefix s2 (drop k s1)) [0..<length s1]))"
    unfolding u by (simp add: f)
  show ?case
  proof (cases "length s2 \<le> length (c # s1)")
    case True
    then show ?thesis unfolding ff p[of "c # s1"] using Cons.IH[OF Cons.prems, of "pos + 1"]
      by (subst strstr_loop.simps) (simp add: option.map_comp comp_def)
  next
    case False
    then have "\<not> prefix s2 (drop k (c # s1))" for k using prefix_length_le[of s2 "drop k (c # s1)"] by auto
    then show ?thesis using False by (subst strstr_loop.simps) (auto simp: find_None_iff)
  qed
qed

text \<open>What \<open>getargs\<close> stores: the arguments, each with its terminator, and a second terminator after
  the last one. \<open>as\<close> are the arguments of the process.\<close>

definition args_ok :: "string list \<Rightarrow> procsinfo \<Rightarrow> bool" where
  "args_ok as p \<longleftrightarrow> (\<exists>r. pi_args p = args_layout as @ NUL # r) \<and> length (pi_args p) \<le> MAXLINE - 2 \<and>
     (\<forall>a \<in> set as. a \<noteq> [] \<and> NUL \<notin> set a) \<and> NUL \<notin> set (pi_comm p) \<and> length (pi_comm p) < MAXLINE - 3"

definition aix_text :: "string list \<Rightarrow> procsinfo \<Rightarrow> string" where
  "aix_text as p =
     (if pi_zombie p then ''<defunct>''
      else let t = map printable (rtrim (join_args as)) in if t = [] then ''['' @ pi_comm p @ '']'' else t)"

lemma rtrim_append: "\<exists>u. s = rtrim s @ u"
  using rtrim_prefix[of s] by (metis append_take_drop_id)

lemma join_args_no_NUL: "\<forall>a \<in> set as. NUL \<notin> set a \<Longrightarrow> NUL \<notin> set (join_args as)"
  by (auto simp: join_args_def)

lemma cut_blanks:
  assumes "NUL \<notin> set t"
  shows "\<exists>r'. (t @ NUL # r)[trim (t @ NUL # r) (strlen (t @ NUL # r)) := NUL] = rtrim t @ NUL # r'"
proof -
  obtain u where u: "t = rtrim t @ u" using rtrim_append by blast
  have "trim (t @ NUL # r) (strlen (t @ NUL # r)) = length (rtrim t)" using assms by (simp add: strlen_def trim_rtrim)
  moreover have "(rtrim t @ u @ NUL # r)[length (rtrim t) := NUL] = rtrim t @ (u @ NUL # r)[0 := NUL]"
    by (simp add: list_update_append)
  moreover have "\<exists>r'. (u @ NUL # r)[0 := NUL] = NUL # r'" by (cases u) simp_all
  ultimately show ?thesis using u by (metis append_assoc)
qed

lemma getargs_layout:
  assumes "length junk = MAXLINE" and "length xs \<le> MAXLINE - 2" and "xs = args_layout as @ NUL # r"
  shows "\<exists>r0. (xs @ drop (length xs) junk)[MAXLINE - 2 := NUL, MAXLINE - 1 := NUL] = args_layout as @ NUL # r0 \<and>
    length (args_layout as @ NUL # r0) = MAXLINE"
proof -
  let ?c = "(xs @ drop (length xs) junk)[MAXLINE - 2 := NUL, MAXLINE - 1 := NUL]"
  have "?c = xs @ (drop (length xs) junk)[MAXLINE - 2 - length xs := NUL, MAXLINE - 1 - length xs := NUL]"
    using assms(2) by (simp add: list_update_append MAXLINE_def)
  then obtain r0 where r0: "?c = args_layout as @ NUL # r0" unfolding assms(3) by auto
  have "length ?c = MAXLINE" using assms(1,2) by simp
  with r0 show ?thesis by (intro exI[of _ r0]) simp
qed

lemma bracketed_name:
  assumes "NUL \<notin> set comm" and "length comm < MAXLINE - 3" and "length r = MAXLINE - 1"
  shows "\<exists>t z. strcpy r comm = Inr t \<and>
    (CHR ''['' # t)[strlen comm + 1 := CHR '']'', strlen comm + 2 := NUL] = (''['' @ comm @ '']'') @ NUL # z"
proof -
  have sl: "strlen comm = length comm" using assms(1) by (simp add: strlen_def)
  have "length (drop (Suc (length comm)) r) \<noteq> 0" using assms(2,3) by simp
  then obtain y z where yz: "drop (Suc (length comm)) r = y # z" by (cases "drop (Suc (length comm)) r") auto
  have "strcpy r comm = Inr (comm @ NUL # y # z)" using assms yz by (simp add: strcpy_def sl)
  moreover have "(CHR ''['' # comm @ NUL # y # z)[length comm + 1 := CHR '']'', length comm + 2 := NUL] = (''['' @ comm @ '']'') @ NUL # z"
    by (simp add: list_update_append)
  ultimately show ?thesis unfolding sl by blast
qed

lemma aix_cmd_zombie:
  assumes "length junk = MAXLINE" and "pi_zombie p"
  shows "\<exists>c. aix_cmd junk p = Inr c \<and> cstr c = ''<defunct>''"
proof -
  have "strlen ''<defunct>'' = 9" by (simp add: strlen_def)
  then obtain c where c: "strcpy junk ''<defunct>'' = Inr c" using assms(1) by (simp add: strcpy_def MAXLINE_def)
  with cstr_strcpy[OF c] assms(2) show ?thesis by (simp add: aix_cmd_def)
qed

lemma aix_cmd_ok:
  assumes j: "length junk = MAXLINE" and ok: "args_ok as p"
  shows "\<exists>c. aix_cmd junk p = Inr c \<and> cstr c = aix_text as p"
proof (cases "pi_zombie p")
  case True
  with aix_cmd_zombie[OF j] show ?thesis by (simp add: aix_text_def)
next
  case False
  from ok obtain r where r: "pi_args p = args_layout as @ NUL # r" and len: "length (pi_args p) \<le> MAXLINE - 2"
    and as: "\<forall>a \<in> set as. a \<noteq> [] \<and> NUL \<notin> set a" and comm: "NUL \<notin> set (pi_comm p)" "length (pi_comm p) < MAXLINE - 3"
    by (auto simp: args_ok_def)
  let ?j = "join_args as" and ?t = "map printable (rtrim (join_args as))"
  from getargs_layout[OF j len r] obtain r0 where c0: "(pi_args p @ drop (length (pi_args p)) junk)[MAXLINE - 2 := NUL, MAXLINE - 1 := NUL] =
      args_layout as @ NUL # r0" "length (args_layout as @ NUL # r0) = MAXLINE" by blast
  have c1: "collect_args 0 (args_layout as @ NUL # r0) = Inr (?j @ NUL # r0)"
    using collect_args_ok[of as "[]" r0] as len r by simp
  have t: "NUL \<notin> set ?j" using as by (intro join_args_no_NUL) blast
  obtain r1 where c2: "(?j @ NUL # r0)[trim (?j @ NUL # r0) (strlen (?j @ NUL # r0)) := NUL] = rtrim ?j @ NUL # r1"
    using cut_blanks[OF t] by blast
  have "length ?j = length (args_layout as)" by (simp add: join_args_def args_layout_def length_concat comp_def)
  with c0(2) arg_cong[OF c2, of length] have l2: "length (rtrim ?j @ NUL # r1) = MAXLINE" by simp
  have nt: "NUL \<notin> set (rtrim ?j)" using t rtrim_append[of ?j] by (metis UnCI set_append)
  have np: "NUL \<notin> set ?t" using nt by (auto simp: printable_def split: if_splits)
  note body = aix_cmd_def[of junk p, unfolded Let_def c0(1) c1 rbind_simps c2 mask_unprintables_NUL[OF nt]]
  show ?thesis
  proof (cases "?t = []")
    case True
    then have "length r1 = MAXLINE - 1" using l2 by simp
    from bracketed_name[OF comm this] obtain t z where tz: "strcpy r1 (pi_comm p) = Inr t"
      "(CHR ''['' # t)[strlen (pi_comm p) + 1 := CHR '']'', strlen (pi_comm p) + 2 := NUL] = (''['' @ pi_comm p @ '']'') @ NUL # z" by blast
    have "aix_cmd junk p = Inr ((''['' @ pi_comm p @ '']'') @ NUL # z)" using True False tz by (simp add: body)
    moreover have "cstr ((''['' @ pi_comm p @ '']'') @ NUL # z) = ''['' @ pi_comm p @ '']''"
      by (rule cstr_append_NUL) (use comm(1) in simp)
    ultimately show ?thesis using True False by (simp add: aix_text_def)
  next
    case ne: False
    then have "(?t @ NUL # r1) ! 0 \<noteq> NUL" using np by (cases ?t) auto
    with False np ne show ?thesis by (auto simp: body aix_text_def)
  qed
qed

lemma get_table_whole:
  assumes "\<And>n. alloc n" and "\<And>k n. getprocs k n = Some (take n (tbl k))" and "\<And>k. length (tbl k) < 1024 * 2 ^ 20" and "k \<le> 20"
  shows "\<exists>j. get_table alloc getprocs k = Inr (tbl j)"
  using assms(4)
proof (induction "20 - k" arbitrary: k rule: less_induct)
  case less
  show ?case
  proof (cases "length (tbl k) < maxnproc k")
    case True
    then show ?thesis by (subst get_table.simps) (simp add: assms(1,2), blast)
  next
    case False
    with assms(3)[of k] less.prems have "k < 20" by (cases "k = 20") (simp_all add: maxnproc_def)
    with less.hyps[of "k + 1"] False show ?thesis by (subst get_table.simps) (simp add: assms(1,2))
  qed
qed

definition proc_ids :: "proc \<Rightarrow> int \<times> int \<times> int \<times> int \<times> nat" where
  "proc_ids q = (p_uid q, p_pid q, p_ppid q, p_pgid q, p_thcount q)"

lemma proc_ids_record [simp]:
  "proc_ids \<lparr>p_uid = a, p_pid = b, p_ppid = c, p_pgid = d, p_name = nm, p_cmd = cm, p_print = pr, p_parent = x, p_child = y,
    p_sister = z, p_thcount = t\<rparr> = (a, b, c, d, t)"
  by (simp add: proc_ids_def)

lemma aix_loop_ok:
  assumes "\<And>i. length (junk i) = MAXLINE" and "\<forall>p \<in> set ps. args_ok (args p) p"
  shows "\<exists>P un'. aix_loop getpwuid junk i ps un = Inr (P, un') \<and>
    map proc_ids P = map (\<lambda>p. (pi_uid p, pi_pid p, pi_ppid p, pi_pgrp p, pi_thcount p)) ps \<and>
    map p_cmd P = map (\<lambda>p. aix_text (args p) p) ps \<and>
    (\<forall>q \<in> set P. p_parent q = None \<and> p_child q = None \<and> p_sister q = None \<and> \<not> p_print q)"
  using assms(2)
proof (induction ps arbitrary: i un)
  case (Cons p ps)
  obtain nm un1 where u: "uid2user getpwuid 32 (pi_uid p) un = (nm, un1)" by fastforce
  obtain c where c: "aix_cmd (junk i) p = Inr c" "cstr c = aix_text (args p) p"
    using aix_cmd_ok[OF assms(1)] Cons.prems by (meson list.set_intros(1))
  from Cons.IH[of "i + 1" un1] Cons.prems obtain P un' where P: "aix_loop getpwuid junk (i + 1) ps un1 = Inr (P, un')"
    "map proc_ids P = map (\<lambda>p. (pi_uid p, pi_pid p, pi_ppid p, pi_pgrp p, pi_thcount p)) ps"
    "map p_cmd P = map (\<lambda>p. aix_text (args p) p) ps"
    "\<forall>q \<in> set P. p_parent q = None \<and> p_child q = None \<and> p_sister q = None \<and> \<not> p_print q" by auto
  then show ?case by (simp add: aix_entry_def u c)
qed simp

section \<open>Properties\<close>


definition init_info :: procsinfo where
  "init_info = \<lparr>pi_uid = 0, pi_pid = 1, pi_ppid = 0, pi_pgrp = 1, pi_thcount = 2, pi_zombie = False, pi_comm = ''init'',
     pi_args = ''init'' @ [NUL] @ ''-x'' @ [NUL, NUL]\<rparr>"


text \<open>
  The portable \<open>strstr\<close> finds the first occurrence, as the library function does, and so marks the same
  processes, unless the string looked for is empty: then the library finds it at once and the
  portable function does not find it.
\<close>

theorem portable_strstr_equiv:
  "(s2 \<noteq> [] \<longrightarrow> portable_strstr s1 s2 = find (\<lambda>k. prefix s2 (drop k s1)) [0..<Suc (length s1)] \<and>
      (portable_strstr s1 s2 \<noteq> None \<longleftrightarrow> strstr s1 s2)) \<and>
   portable_strstr s1 [] = None \<and> strstr s1 []"
proof (intro conjI impI)
  assume ne: "s2 \<noteq> []"
  have app: "find Q (xs @ ys) = (case find Q xs of None \<Rightarrow> find Q ys | Some x \<Rightarrow> Some x)" for Q and xs ys :: "nat list"
    by (induction xs) auto
  show f: "portable_strstr s1 s2 = find (\<lambda>k. prefix s2 (drop k s1)) [0..<Suc (length s1)]"
    using ne by (simp add: portable_strstr_def strstr_loop_find app option.map_ident split: option.split)
  have "portable_strstr s1 s2 \<noteq> None \<longleftrightarrow> (\<exists>k < Suc (length s1). prefix s2 (drop k s1))"
    unfolding f find_None_iff by (metis atLeast0LessThan lessThan_iff set_upt)
  also have "\<dots> \<longleftrightarrow> strstr s1 s2"
  proof
    assume "\<exists>k < Suc (length s1). prefix s2 (drop k s1)"
    then obtain k where "prefix s2 (drop k s1)" by blast
    then show "strstr s1 s2" unfolding strstr_def sublist_def prefix_def by (metis append_take_drop_id)
  next
    assume "strstr s1 s2"
    then obtain u v where "s1 = u @ s2 @ v" unfolding strstr_def sublist_def by blast
    then have "prefix s2 (drop (length u) s1) \<and> length u < Suc (length s1)" by simp
    then show "\<exists>k < Suc (length s1). prefix s2 (drop k s1)" by blast
  qed
  finally show "portable_strstr s1 s2 \<noteq> None \<longleftrightarrow> strstr s1 s2" .
qed (simp_all add: portable_strstr_def strstr_def)

theorem portable_strstr_equiv_witness: "portable_strstr ''abcabd'' ''abd'' = Some 3 \<and> strstr ''abcabd'' ''abd''"
proof -
  have "find (\<lambda>k. prefix ''abd'' (drop k ''abcabd'')) [0..<Suc (length ''abcabd'')] = Some 3" by code_simp
  with portable_strstr_equiv[of "''abd''" "''abcabd''"] show ?thesis by auto
qed

text \<open>The portable \<open>snprintf\<close> cuts the text as the library function does, for a text below 1024
  characters; a longer one overruns \<open>bigbuf\<close> first, whatever \<open>namesiz\<close> is.\<close>

lemma portable_snprintf_cuts:
  assumes "NUL \<notin> set txt" and "0 < n" and "n \<le> length s"
  shows "if length txt < 1024
    then \<exists>s'. portable_snprintf s (int n) txt = Inr (length txt, s') \<and> cstr s' = snprintf n txt \<and> length s' = length s \<and>
      drop n s' = drop n s
    else portable_snprintf s (int n) txt = Inl OutOfBounds"
proof -
  let ?n = "if int (length txt) \<ge> int n then nat (int n) - 1 else length txt"
  let ?s = "take ?n txt @ NUL # drop (?n + 1) s"
  have n: "?n < n" "?n \<le> length txt" using assms(2) by auto
  have "cstr ?s = take ?n txt" by (rule cstr_append_NUL) (use assms(1) in \<open>auto dest: in_set_takeD\<close>)
  also have "\<dots> = snprintf n txt" by (simp add: snprintf_def)
  finally have c: "cstr ?s = snprintf n txt" .
  have len: "length (take m txt @ NUL # drop (m + 1) s) = length s \<and> drop n (take m txt @ NUL # drop (m + 1) s) = drop n s"
    if "m < n" "m \<le> length txt" for m
    using that assms(3) by (simp add: drop_Cons')
  have "portable_snprintf s (int n) txt = Inr (length txt, ?s)" if "length txt < 1024"
    using that assms(2,3) n unfolding portable_snprintf_def Let_def by (simp del: of_nat_less_iff of_nat_le_iff)
  with c len[OF n] show ?thesis by (auto simp: portable_snprintf_def)
qed

end
