(* ===== verification/PsDirect.thy ===== *)
theory PsDirect
  imports PsSystems PsAix
begin

text \<open>
  \<open>tree/pstree_source_code.c\<close> from the kernel's process table to the printed tree: the program as it is
  compiled on Linux, where \<open>GetProcessesDirect\<close> reads \<open>/proc\<close>, and on AIX, where it asks
  \<open>getprocs\<close>. \<open>main\<close> is the same on all systems but for the function that reads the table. The
  locale \<open>table_source\<close> is what \<open>main\<close> relies on: an entry that was read carries no link and no
  mark. The readers of Linux, of AIX and of the other systems are its instances.
\<close>

section \<open>Definitions\<close>

definition main_from ::
  "(ps_args \<Rightarrow> (proc list \<times> un_cache) res) \<Rightarrow> ps_env \<Rightarrow> (char \<times> string) list \<Rightarrow> string list \<Rightarrow>
   (string \<times> string list) res option" where
  "main_from src env opts operands =
     (case rbind (parse_options (e_getpwnam env) opts default_args) (\<lambda>a.
            rbind (src a) (\<lambda>(P, _).
            if P = [] then Inl (ExitCode 1)
            else rbind (GetRootPid P) (\<lambda>RootPid. Inr (a, P, RootPid)))) of
        Inl e \<Rightarrow> Some (Inl e)
      | Inr (a, P, RootPid) \<Rightarrow> map_option Inr (run_tree env a operands P RootPid))"

text \<open>On AIX; with \<open>-f\<close> the file is read with the format of that system.\<close>

definition aix_read_table ::
  "ps_config \<Rightarrow> (nat \<Rightarrow> nat \<Rightarrow> procsinfo list option) \<Rightarrow> (nat \<Rightarrow> string) \<Rightarrow> ps_env \<Rightarrow> ps_args \<Rightarrow>
   (proc list \<times> un_cache) res" where
  "aix_read_table cf getprocs junk env a =
     (case a_input a of
        None \<Rightarrow> aix_GetProcessesDirect (e_getpwuid env) (e_alloc env) getprocs junk []
      | Some input \<Rightarrow> sys_read_table cf (\<lambda>_. None) env a)"

definition aix_main where
  "aix_main cf getprocs junk env = main_from (aix_read_table cf getprocs junk env) env"

lemma ps_main_from: "ps_main env = main_from (read_table env) env"
  by (simp add: fun_eq_iff ps_main_def main_from_def)

lemma sys_main_from: "sys_main cf popen env = main_from (sys_read_table cf popen env) env"
  by (simp add: fun_eq_iff sys_main_def main_from_def)

text \<open>The lines of a table, from the starting processes.\<close>

definition tree_lines :: "ps_env \<Rightarrow> ps_args \<Rightarrow> string list \<Rightarrow> int \<Rightarrow> proc list \<Rightarrow> proc list \<Rightarrow> string list" where
  "tree_lines env a operands r P Q =
     concat (map (\<lambda>i. case i of None \<Rightarrow> []
       | Some i \<Rightarrow> if i \<in> visible (main_opts env a) P
           then rows (main_cfg env a) Q (shown_kids (main_opts env a) P) (nat (a_maxLdepth a)) [] i else [])
       (roots operands r P))"

definition tree_of :: "ps_env \<Rightarrow> ps_args \<Rightarrow> proc list \<Rightarrow> proc list \<Rightarrow> bool" where
  "tree_of env a P Q \<longleftrightarrow> same_ids Q P \<and>
     links_list (\<lambda>i. i \<in> visible (main_opts env a) P) Q (shown_kids (main_opts env a) P)"

text \<open>What \<open>main\<close> does with a table \<open>P\<close>.\<close>

definition shows_table :: "ps_env \<Rightarrow> ps_args \<Rightarrow> string list \<Rightarrow> proc list \<Rightarrow> (string \<times> string list) res option \<Rightarrow> bool" where
  "shows_table env a operands P x \<longleftrightarrow>
     (if P = [] then x = Some (Inl (ExitCode 1))
      else case GetRootPid P of
        Inl e \<Rightarrow> x = Some (Inl e)
      | Inr r \<Rightarrow>
          if grounded (main_opts env a) P
          then \<exists>Q. tree_of env a P Q \<and>
            x = Some (Inr (tc_init (cfg_chars (main_cfg env a)), tree_lines env a operands r P Q))
          else x = None)"

section \<open>The contract of a reader\<close>

locale table_source =
  fixes src :: "ps_args \<Rightarrow> (proc list \<times> un_cache) res"
  assumes src_fresh: "src a = Inr (P, un) \<Longrightarrow> p \<in> set P \<Longrightarrow> fresh p"
begin

lemma main_from_shows:
  assumes o: "parse_options (e_getpwnam env) opts default_args = Inr a" and t: "src a = Inr (P, un)"
  shows "shows_table env a operands P (main_from src env opts operands)"
proof -
  have fr: "\<forall>p \<in> set P. fresh p" using src_fresh[OF t] by blast
  show ?thesis
  proof (cases "P = [] \<or> (\<exists>e. GetRootPid P = Inl e)")
    case True
    then show ?thesis by (auto simp: shows_table_def main_from_def o t)
  next
    case False
    then obtain r where r: "P \<noteq> []" "GetRootPid P = Inr r" by (cases "GetRootPid P") auto
    have m: "main_from src env opts operands = map_option Inr (run_tree env a operands P r)"
      using r by (simp add: main_from_def o t)
    show ?thesis
    proof (cases "grounded (main_opts env a) P")
      case True
      from run_tree_rows[OF o fr True, of operands r] True r m show ?thesis
        by (auto simp: shows_table_def tree_of_def tree_lines_def)
    next
      case ng: False
      with build_tree_hangs[OF fr ng] r m show ?thesis by (simp add: shows_table_def run_tree_def)
    qed
  qed
qed

lemma main_from_fails:
  "parse_options (e_getpwnam env) opts default_args = Inr a \<Longrightarrow> src a = Inl e \<Longrightarrow>
    main_from src env opts operands = Some (Inl e)"
  by (simp add: main_from_def)

end

interpretation linux: table_source "read_table env" for env
  by unfold_locales (rule read_table_fresh)

section \<open>The readers of the other systems\<close>

lemma unlink_fresh: "fresh (unlink q)"
  by (simp add: fresh_def unlink_def)

lemma cfg_lines_fresh: "cfg_lines cf getpwuid alloc i s un = Inr (P, un') \<Longrightarrow> q \<in> set P \<Longrightarrow> fresh q"
proof (induction "length s" arbitrary: i s un P un' rule: less_induct)
  case less
  show ?case
  proof (cases "fgets MAXLINE s")
    case None
    with less.prems show ?thesis by (simp add: cfg_lines.simps[of cf getpwuid alloc i s un])
  next
    case (Some ls)
    obtain line s1 where ls: "ls = (line, s1)" by fastforce
    note prem = less.prems(1)[unfolded cfg_lines.simps[of cf getpwuid alloc i s un] Some ls option.case prod.case]
    then obtain s2 where s2: "(if strlen line = MAXLINE - 1 then drop_rest s1 else Inr s1) = Inr s2" by auto
    with Some ls have len: "length s2 < length s"
      by (auto dest!: fgets_shorter drop_rest_shorter split: if_splits)
    from prem s2 obtain num p where r: "alloc (i + 1)" "read_line cf (cstr line) = Inr (num, p)"
      by (auto split: if_splits)
    obtain e un1 where e: "enter_user cf getpwuid p un = (e, un1)" by fastforce
    show ?thesis
    proof (cases "num = PSVARSN cf")
      case True
      with prem s2 r e obtain P' un2 where "cfg_lines cf getpwuid alloc (i + 1) s2 un1 = Inr (P', un2)"
        "P = unlink e # P'" by (auto simp: Let_def)
      with less.hyps[OF len] less.prems(2) unlink_fresh show ?thesis by auto
    next
      case False
      with prem s2 r have "cfg_lines cf getpwuid alloc i s2 un = Inr (P, un')" by simp
      with less.hyps[OF len] less.prems(2) show ?thesis by blast
    qed
  qed
qed

lemma sys_read_table_fresh: "sys_read_table cf popen env a = Inr (P, un) \<Longrightarrow> q \<in> set P \<Longrightarrow> fresh q"
  using cfg_lines_fresh FixZombies_fresh
  by (fastforce simp: sys_read_table_def cfg_table_def cfg_GetProcesses_def split: option.splits if_splits prod.splits)

lemma aix_loop_fresh: "aix_loop getpwuid junk i ps un = Inr (P, un') \<Longrightarrow> q \<in> set P \<Longrightarrow> fresh q"
  by (induction ps arbitrary: i un P un') (auto simp: aix_entry_def fresh_def Let_def split: prod.splits)

lemma aix_read_table_fresh: "aix_read_table cf getprocs junk env a = Inr (P, un) \<Longrightarrow> q \<in> set P \<Longrightarrow> fresh q"
  using sys_read_table_fresh aix_loop_fresh
  by (fastforce simp: aix_read_table_def aix_GetProcessesDirect_def split: option.splits if_splits)

interpretation other: table_source "sys_read_table cf popen env" for cf popen env
  by unfold_locales (rule sys_read_table_fresh)

interpretation aix: table_source "aix_read_table cf getprocs junk env" for cf getprocs junk env
  by unfold_locales (rule aix_read_table_fresh)

section \<open>Properties\<close>



text \<open>
  The same on AIX, from a process table that may change between the calls of \<open>getprocs\<close>.
\<close>

lemma aix_main_shows_table:
  assumes "\<And>n. e_alloc env n" and "\<And>k n. getprocs k n = Some (take n (tbl k))" and "\<And>k. length (tbl k) < 1024 * 2 ^ 20"
    and "\<And>i. length (junk i) = MAXLINE" and "\<And>k p. p \<in> set (tbl k) \<Longrightarrow> args_ok (args p) p"
    and "parse_options (e_getpwnam env) opts default_args = Inr a" and "a_input a = None"
  shows "\<exists>k P. map proc_ids P = map (\<lambda>p. (pi_uid p, pi_pid p, pi_ppid p, pi_pgrp p, pi_thcount p)) (tbl k) \<and>
    map p_cmd P = map (\<lambda>p. aix_text (args p) p) (tbl k) \<and>
    shows_table env a operands P (aix_main cf getprocs junk env opts operands)"
proof -
  obtain k where k: "get_table (e_alloc env) getprocs 0 = Inr (tbl k)"
    using get_table_whole[of "e_alloc env" getprocs tbl 0] assms(1-3) by auto
  obtain P un where P: "aix_loop (e_getpwuid env) junk 0 (tbl k) [] = Inr (P, un)"
    "map proc_ids P = map (\<lambda>p. (pi_uid p, pi_pid p, pi_ppid p, pi_pgrp p, pi_thcount p)) (tbl k)"
    "map p_cmd P = map (\<lambda>p. aix_text (args p) p) (tbl k)"
    using aix_loop_ok[of junk "tbl k" args "e_getpwuid env" 0 "[]"] assms(4,5) by blast
  have "aix_read_table cf getprocs junk env a = Inr (P, un)"
    using k P(1) assms(1,7) by (simp add: aix_read_table_def aix_GetProcessesDirect_def)
  from aix.main_from_shows[OF assms(6) this] P show ?thesis unfolding aix_main_def by blast
qed

end
