(* ===== verification/Spin.thy ===== *)
theory Spin
  imports Prelude
begin

text \<open>
  Spin locks and the counting programs that use them: \<open>lock\<close>/\<open>unlock\<close> of
  \<open>multi-threads/threads.h\<close>, \<open>lock\<close>/\<open>unlock\<close> of \<open>multi-threads/thread-os-mp.c\<close>, the
  compare-and-swap lock of \<open>multi-threads/spinlock.c\<close> with its \<open>do_sum1\<close>, and the counters of
  \<open>sum.c\<close> and \<open>sum-atomic.c\<close>.

  One atomic access to the lock word is one step. \<open>turn\<close> is one turn of the spinning loop: it
  gives whether the loop is left, and the new lock word. The locale \<open>spin_lock\<close> states what makes
  such a pair a lock, and proves once that a counter incremented under it loses no update. The
  two exchange locks are instances; the compare-and-swap lock is not, and a run shows why.
\<close>

section \<open>Definitions\<close>

text \<open>\<open>atomic_xchg\<close>: the old value and the new one; \<open>compare_and_swap\<close>: the flag of \<open>sete\<close>.\<close>

definition atomic_xchg :: "int \<Rightarrow> int \<Rightarrow> int \<times> int" where
  "atomic_xchg addr newval = (addr, newval)"

definition compare_and_swap :: "int \<Rightarrow> int \<Rightarrow> int \<Rightarrow> int \<times> int" where
  "compare_and_swap ptr old new = (if ptr = old then (1, new) else (0, ptr))"

definition lock_turn :: "int \<Rightarrow> bool \<times> int" where
  "lock_turn locked = (let (v, w) = atomic_xchg locked 1 in (v = 0, w))"

definition unlock :: "int \<Rightarrow> int" where
  "unlock locked = snd (atomic_xchg locked 0)"

definition mp_lock_turn :: "int \<Rightarrow> bool \<times> int" where
  "mp_lock_turn locked = (let (v, w) = atomic_xchg locked 1 in (\<not> v \<noteq> 0, w))"

definition mp_unlock :: "int \<Rightarrow> int" where
  "mp_unlock locked = snd (atomic_xchg locked 0)"

definition spin_lock_turn :: "int \<Rightarrow> bool \<times> int" where
  "spin_lock_turn locked = (let (ret, w) = compare_and_swap locked 0 1 in (\<not> ret \<noteq> 0, w))"

definition spin_unlock :: "int \<Rightarrow> int" where
  "spin_unlock locked = snd (compare_and_swap locked 1 0)"

text \<open>
  The loop of \<open>do_sum1\<close>: take the lock, load \<open>sum\<close>, store the value loaded plus one, release
  the lock. \<open>sum++\<close> on a \<open>volatile\<close> variable is the load and the store.
\<close>

datatype worker_pc = Want | In | Loaded int | Out

record 'l workers =
  w_lock :: 'l
  w_sum :: int
  w_pc :: "nat \<Rightarrow> worker_pc"
  w_left :: "nat \<Rightarrow> nat"

definition worker_step :: "('l \<Rightarrow> bool \<times> 'l) \<Rightarrow> ('l \<Rightarrow> 'l) \<Rightarrow> nat \<Rightarrow> 'l workers \<Rightarrow> 'l workers" where
  "worker_step turn release i s =
     (case w_pc s i of
        Want \<Rightarrow>
          if w_left s i = 0 then s
          else let (ok, l) = turn (w_lock s) in
               s\<lparr>w_lock := l, w_pc := (w_pc s)(i := if ok then In else Want)\<rparr>
      | In \<Rightarrow> s\<lparr>w_pc := (w_pc s)(i := Loaded (w_sum s))\<rparr>
      | Loaded v \<Rightarrow> s\<lparr>w_sum := v + 1, w_pc := (w_pc s)(i := Out)\<rparr>
      | Out \<Rightarrow> s\<lparr>w_lock := release (w_lock s), w_pc := (w_pc s)(i := Want), w_left := (w_left s)(i := w_left s i - 1)\<rparr>)"

definition workers_init :: "'l \<Rightarrow> nat \<Rightarrow> 'l workers" where
  "workers_init l k = \<lparr>w_lock = l, w_sum = 0, w_pc = (\<lambda>_. Want), w_left = (\<lambda>_. k)\<rparr>"

text \<open>A run is a sequence of thread numbers, each the next thread to take a step.\<close>

definition run_workers :: "('l \<Rightarrow> bool \<times> 'l) \<Rightarrow> ('l \<Rightarrow> 'l) \<Rightarrow> nat list \<Rightarrow> 'l workers \<Rightarrow> 'l workers" where
  "run_workers turn release is s = fold (worker_step turn release) is s"

definition all_done :: "nat \<Rightarrow> 'l workers \<Rightarrow> bool" where
  "all_done n s \<longleftrightarrow> (\<forall>i < n. w_pc s i = Want \<and> w_left s i = 0)"

text \<open>
  The instruction \<open>addq $1, sum\<close>: with the prefix \<open>lock\<close> it is one step; without it, the
  processor loads and stores in two steps.
\<close>

record adders =
  ad_sum :: int
  ad_loaded :: "nat \<Rightarrow> int option"
  ad_left :: "nat \<Rightarrow> nat"

definition add_step :: "bool \<Rightarrow> nat \<Rightarrow> adders \<Rightarrow> adders" where
  "add_step locked_prefix i s =
     (if ad_left s i = 0 then s
      else if locked_prefix then s\<lparr>ad_sum := ad_sum s + 1, ad_left := (ad_left s)(i := ad_left s i - 1)\<rparr>
      else case ad_loaded s i of
        None \<Rightarrow> s\<lparr>ad_loaded := (ad_loaded s)(i := Some (ad_sum s))\<rparr>
      | Some v \<Rightarrow> s\<lparr>ad_sum := v + 1, ad_loaded := (ad_loaded s)(i := None), ad_left := (ad_left s)(i := ad_left s i - 1)\<rparr>)"

definition adders_init :: "nat \<Rightarrow> adders" where
  "adders_init k = \<lparr>ad_sum = 0, ad_loaded = (\<lambda>_. None), ad_left = (\<lambda>_. k)\<rparr>"

definition run_adders :: "bool \<Rightarrow> nat list \<Rightarrow> adders \<Rightarrow> adders" where
  "run_adders locked_prefix is s = fold (add_step locked_prefix) is s"

section \<open>What makes a spin lock\<close>

definition inside :: "worker_pc \<Rightarrow> bool" where
  "inside p \<longleftrightarrow> p \<noteq> Want"

lemma inside_simps [simp]: "\<not> inside Want" "inside In" "inside (Loaded v)" "inside Out"
  by (simp_all add: inside_def)

text \<open>Increments finished by \<open>n\<close> threads that make \<open>k\<close> each.\<close>

definition finished :: "nat \<Rightarrow> nat \<Rightarrow> 'l workers \<Rightarrow> int" where
  "finished n k s = (\<Sum>i<n. int k - int (w_left s i) + (if w_pc s i = Out then 1 else 0))"

lemma finished_upd:
  fixes s t :: "'l workers"
  assumes "i < n" and "\<And>j. j \<noteq> i \<Longrightarrow> w_pc t j = w_pc s j \<and> w_left t j = w_left s j"
  shows "finished n k t = finished n k s + (int (w_left s i) - int (w_left t i)) +
    (if w_pc t i = Out then 1 else 0) - (if w_pc s i = Out then 1 else 0)"
proof -
  have e: "finished n k x = (int k - int (w_left x i) + (if w_pc x i = Out then 1 else 0)) +
      (\<Sum>j \<in> {..<n} - {i}. int k - int (w_left x j) + (if w_pc x j = Out then 1 else 0))" for x :: "'l workers"
    unfolding finished_def using assms(1) by (subst sum.remove[of _ i]) auto
  have "(\<Sum>j \<in> {..<n} - {i}. int k - int (w_left t j) + (if w_pc t j = Out then 1 else 0)) =
      (\<Sum>j \<in> {..<n} - {i}. int k - int (w_left s j) + (if w_pc s j = Out then 1 else 0))"
    by (rule sum.cong) (use assms(2) in auto)
  then show ?thesis unfolding e[of t] e[of s] by simp
qed

locale spin_lock =
  fixes turn :: "'l \<Rightarrow> bool \<times> 'l" and release :: "'l \<Rightarrow> 'l" and free :: "'l \<Rightarrow> bool" and start :: 'l
  assumes start_free: "free start"
    and turn_wins: "fst (turn l) \<longleftrightarrow> free l"
    and turn_takes: "\<not> free (snd (turn l))"
    and release_frees: "\<not> free l \<Longrightarrow> free (release l)"
begin

definition sinv :: "nat \<Rightarrow> nat \<Rightarrow> 'l workers \<Rightarrow> bool" where
  "sinv n k s \<longleftrightarrow>
     (\<forall>i j. inside (w_pc s i) \<and> inside (w_pc s j) \<longrightarrow> i = j) \<and>
     (free (w_lock s) \<longleftrightarrow> (\<forall>i. \<not> inside (w_pc s i))) \<and>
     (\<forall>i v. w_pc s i = Loaded v \<longrightarrow> v = w_sum s) \<and>
     (\<forall>i. inside (w_pc s i) \<longrightarrow> 0 < w_left s i) \<and> (\<forall>i. w_left s i \<le> k) \<and>
     w_sum s = finished n k s"

lemma sinv_init: "sinv n k (workers_init start k)"
  by (simp add: sinv_def workers_init_def start_free finished_def)

lemma sinvD:
  assumes "sinv n k s"
  shows "inside (w_pc s i) \<Longrightarrow> inside (w_pc s j) \<Longrightarrow> i = j" "free (w_lock s) \<longleftrightarrow> (\<forall>i. \<not> inside (w_pc s i))"
    "w_pc s i = Loaded v \<Longrightarrow> v = w_sum s" "inside (w_pc s i) \<Longrightarrow> 0 < w_left s i" "w_left s i \<le> k"
    "w_sum s = finished n k s"
  using assms by (auto simp: sinv_def)

lemma sinv_step:
  assumes s: "sinv n k s" and i: "i < n"
  shows "sinv n k (worker_step turn release i s)" (is "sinv n k ?t")
proof -
  note D = sinvD[OF s]
  have keep: "w_pc ?t j = w_pc s j \<and> w_left ?t j = w_left s j" if "j \<noteq> i" for j
    using that by (auto simp: worker_step_def Let_def split: worker_pc.splits prod.splits)
  note fin = finished_upd[of i n ?t s k, OF i keep]
  have wins: "fst (turn (w_lock s)) \<Longrightarrow> \<not> inside (w_pc s j)" for j using turn_wins D(2) by blast
  show ?thesis
  proof (cases "w_pc s i")
    case Want
    show ?thesis
    proof (cases "w_left s i = 0 \<or> \<not> fst (turn (w_lock s))")
      case True
      then have "w_pc ?t = w_pc s \<and> w_left ?t = w_left s \<and> w_sum ?t = w_sum s \<and> free (w_lock ?t) = free (w_lock s)"
        using Want turn_wins[of "w_lock s"] turn_takes[of "w_lock s"]
        by (auto simp: worker_step_def Let_def fun_upd_idem split: prod.splits)
      moreover from this have "finished n k ?t = finished n k s" by (simp add: finished_def)
      ultimately show ?thesis using s unfolding sinv_def by auto
    next
      case False
      then have t: "w_pc ?t = (w_pc s)(i := In)" "w_left ?t = w_left s" "w_sum ?t = w_sum s" "\<not> free (w_lock ?t)"
        using Want turn_takes[of "w_lock s"] by (auto simp: worker_step_def Let_def split: prod.splits)
      with False wins D fin Want show ?thesis unfolding sinv_def by (auto simp: inside_def)
    qed
  next
    case In
    then have t: "w_pc ?t = (w_pc s)(i := Loaded (w_sum s))" "w_left ?t = w_left s" "w_sum ?t = w_sum s"
      "w_lock ?t = w_lock s" by (auto simp: worker_step_def)
    have ins: "inside (w_pc s i)" using In by simp
    then have "\<not> free (w_lock s)" using D(2) by blast
    with ins In D(1,3-6) fin t show ?thesis unfolding sinv_def by auto
  next
    case (Loaded v)
    then have t: "w_pc ?t = (w_pc s)(i := Out)" "w_left ?t = w_left s" "w_sum ?t = v + 1"
      "w_lock ?t = w_lock s" by (auto simp: worker_step_def)
    have ins: "inside (w_pc s i)" using Loaded by simp
    have "w_pc s j \<noteq> Loaded u" if "j \<noteq> i" for j u using D(1)[OF ins, of j] that by auto
    moreover have "\<not> free (w_lock s)" using D(2) ins by blast
    ultimately show ?thesis using Loaded D(1,3-6) fin t ins unfolding sinv_def by auto
  next
    case Out
    then have t: "w_pc ?t = (w_pc s)(i := Want)" "w_left ?t = (w_left s)(i := w_left s i - 1)" "w_sum ?t = w_sum s"
      "w_lock ?t = release (w_lock s)" by (auto simp: worker_step_def)
    have ins: "inside (w_pc s i)" using Out by simp
    have "\<not> inside (w_pc ?t j)" for j using D(1)[OF ins, of j] t(1) by auto
    moreover have "free (w_lock ?t)" using release_frees[of "w_lock s"] D(2) ins t(4) by auto
    moreover have "w_left ?t j \<le> k" for j using D(5)[of j] t(2) by (auto simp: le_diff_conv intro: le_trans)
    moreover have "w_sum ?t = finished n k ?t" using fin D(4)[OF ins] D(6) t Out by simp
    ultimately show ?thesis unfolding sinv_def by (metis inside_simps(3))
  qed
qed

lemma sinv_run: "\<forall>i \<in> set is. i < n \<Longrightarrow> sinv n k s \<Longrightarrow> sinv n k (run_workers turn release is s)"
  unfolding run_workers_def by (induction "is" arbitrary: s) (auto simp: sinv_step)

lemma run_exclusive:
  assumes "\<forall>i \<in> set is. i < n" and "s = run_workers turn release is (workers_init start k)"
    and "inside (w_pc s i)" and "inside (w_pc s j)"
  shows "i = j"
  using sinv_run[OF assms(1) sinv_init] sinvD(1) assms(2-) by blast

lemma run_counts:
  assumes "\<forall>i \<in> set is. i < n" and "s = run_workers turn release is (workers_init start k)" and "all_done n s"
  shows "w_sum s = int n * int k"
proof -
  have "w_sum s = finished n k s" using sinv_run[OF assms(1) sinv_init] sinvD(6) assms(2) by blast
  also have "\<dots> = (\<Sum>i<n. int k)" unfolding finished_def by (rule sum.cong) (use assms(3) in \<open>auto simp: all_done_def\<close>)
  finally show ?thesis by simp
qed

end

interpretation th: spin_lock lock_turn unlock "\<lambda>l. l = 0" 0
  by unfold_locales (simp_all add: lock_turn_def unlock_def atomic_xchg_def)

interpretation mp: spin_lock mp_lock_turn mp_unlock "\<lambda>l. l = 0" 0
  by unfold_locales (simp_all add: mp_lock_turn_def mp_unlock_def atomic_xchg_def)

section \<open>Properties\<close>

text \<open>
  Mutual exclusion of the exchange locks: under every interleaving of the threads, at most one
  thread is between \<open>lock\<close> and \<open>unlock\<close>, for the lock of \<open>threads.h\<close> and for the one of
  \<open>thread-os-mp.c\<close>.
\<close>

theorem xchg_lock_excludes:
  assumes "\<forall>i \<in> set is. i < n"
    and "s = run_workers lock_turn unlock is (workers_init 0 k) \<or> s = run_workers mp_lock_turn mp_unlock is (workers_init 0 k)"
    and "inside (w_pc s i)" and "inside (w_pc s j)"
  shows "i = j"
  using assms(2) th.run_exclusive[OF assms(1) _ assms(3,4)] mp.run_exclusive[OF assms(1) _ assms(3,4)] by blast

lemmas run_simps = run_workers_def worker_step_def workers_init_def all_done_def eval_nat_numeral less_Suc_eq

theorem xchg_lock_excludes_witness:
  "\<exists>s. s = run_workers lock_turn unlock [1, 0, 1] (workers_init 0 (1000000 :: nat)) \<and> inside (w_pc s 1) \<and>
    (\<forall>j. inside (w_pc s j) \<longrightarrow> j = 1)"
proof -
  let ?s = "run_workers lock_turn unlock [1, 0, 1] (workers_init 0 (1000000 :: nat))"
  have "inside (w_pc ?s 1)"
    by (simp add: run_workers_def worker_step_def workers_init_def lock_turn_def atomic_xchg_def)
  with xchg_lock_excludes[of "[1, 0, 1]" 4 ?s 1000000 _ 1] show ?thesis by auto
qed

text \<open>
  C29. No update is lost under an exchange lock: when \<open>n\<close> threads have each made their \<open>k\<close>
  increments, in whatever interleaving, the sum is \<open>n * k\<close>.
\<close>

theorem xchg_lock_counts:
  assumes "\<forall>i \<in> set is. i < n"
    and "s = run_workers lock_turn unlock is (workers_init 0 k) \<or> s = run_workers mp_lock_turn mp_unlock is (workers_init 0 k)"
    and "all_done n s"
  shows "w_sum s = int n * int k"
  using assms(2) th.run_counts[OF assms(1) _ assms(3)] mp.run_counts[OF assms(1) _ assms(3)] by blast

theorem xchg_lock_counts_witness:
  "\<exists>s. s = run_workers lock_turn unlock [0, 1, 0, 1, 0, 0, 1, 1, 1, 1] (workers_init 0 1) \<and> all_done 2 s \<and> w_sum s = int 2 * int 1"
proof -
  let ?is = "[0, 1, 0, 1, 0, 0, 1, 1, 1, 1] :: nat list"
  let ?s = "run_workers lock_turn unlock ?is (workers_init 0 1)"
  have d: "all_done 2 ?s" by (simp add: run_simps lock_turn_def unlock_def atomic_xchg_def)
  have l: "\<forall>i \<in> set ?is. i < 2" by simp
  from xchg_lock_counts[OF l _ d, of 1] d show ?thesis by blast
qed

text \<open>
  The lock of \<open>spinlock.c\<close> does not exclude: its loop goes on while the compare-and-swap
  succeeds and ends when it fails. With four threads of a million increments each, threads 0 and 1
  are both inside, read the same sum, and after both increments the sum is 1.
\<close>

theorem cas_lock_lets_both_in:
  "inside (w_pc (run_workers spin_lock_turn spin_unlock [0, 0, 1] (workers_init 0 1000000)) 0) \<and>
   inside (w_pc (run_workers spin_lock_turn spin_unlock [0, 0, 1] (workers_init 0 1000000)) 1) \<and>
   w_sum (run_workers spin_lock_turn spin_unlock [0, 0, 1, 0, 1, 0, 1, 0, 1] (workers_init 0 1000000)) = 1 \<and>
   w_left (run_workers spin_lock_turn spin_unlock [0, 0, 1, 0, 1, 0, 1, 0, 1] (workers_init 0 1000000)) 0 = 999999 \<and>
   w_left (run_workers spin_lock_turn spin_unlock [0, 0, 1, 0, 1, 0, 1, 0, 1] (workers_init 0 1000000)) 1 = 999999"
  by (simp add: run_workers_def worker_step_def workers_init_def spin_lock_turn_def spin_unlock_def compare_and_swap_def)

lemma add_step_locked_inv:
  assumes "\<forall>i \<in> set is. i < n" and "\<forall>i. ad_left s i \<le> k" and "ad_sum s = (\<Sum>i<n. int k - int (ad_left s i))"
  shows "ad_sum (run_adders True is s) = (\<Sum>i<n. int k - int (ad_left (run_adders True is s) i))"
  using assms unfolding run_adders_def
proof (induction "is" arbitrary: s)
  case (Cons i "is")
  let ?t = "add_step True i s"
  have "ad_sum ?t = (\<Sum>j<n. int k - int (ad_left ?t j))"
  proof (cases "ad_left s i = 0")
    case False
    have rest: "(\<Sum>j \<in> {..<n} - {i}. int k - int (ad_left ?t j)) = (\<Sum>j \<in> {..<n} - {i}. int k - int (ad_left s j))"
      by (rule sum.cong) (auto simp: add_step_def)
    have split: "(\<Sum>j<n. f j) = f i + (\<Sum>j \<in> {..<n} - {i}. f j)" for f :: "nat \<Rightarrow> int"
      using Cons.prems(1) by (subst sum.remove[of _ i]) auto
    have "ad_sum ?t = ad_sum s + 1" "int (ad_left ?t i) = int (ad_left s i) - 1"
      using False by (simp_all add: add_step_def)
    then show ?thesis using Cons.prems(3) unfolding split rest by simp
  qed (use Cons.prems in \<open>simp add: add_step_def\<close>)
  moreover have "\<forall>j. ad_left ?t j \<le> k" using Cons.prems(2) by (auto simp: add_step_def le_diff_conv intro: le_trans)
  ultimately show ?case using Cons by simp
qed simp

text \<open>
  The counter with the \<open>lock\<close> prefix (\<open>sum-atomic.c\<close>) is exact under every interleaving:
  when all threads are done the sum is the number of threads times the number of iterations.
\<close>

theorem locked_add_exact:
  assumes "\<forall>i \<in> set is. i < n" and "s = run_adders True is (adders_init k)" and "\<forall>i < n. ad_left s i = 0"
  shows "ad_sum s = int n * int k"
proof -
  have "ad_sum s = (\<Sum>i<n. int k - int (ad_left s i))"
    unfolding assms(2) by (rule add_step_locked_inv[OF assms(1)]) (simp_all add: adders_init_def)
  also have "\<dots> = (\<Sum>i<n. int k)" by (rule sum.cong) (use assms(3) in auto)
  finally show ?thesis by simp
qed

theorem locked_add_exact_witness:
  "\<exists>s. s = run_adders True [0, 1, 1, 0] (adders_init 2) \<and> (\<forall>i < 2. ad_left s i = 0) \<and> ad_sum s = int 2 * int 2"
proof -
  let ?is = "[0, 1, 1, 0] :: nat list"
  let ?s = "run_adders True ?is (adders_init 2)"
  have l: "\<forall>i < 2. ad_left ?s i = 0"
    by (simp add: run_adders_def add_step_def adders_init_def eval_nat_numeral less_Suc_eq)
  have i: "\<forall>i \<in> set ?is. i < 2" by simp
  from locked_add_exact[OF i refl l] l show ?thesis by blast
qed

text \<open>
  Without the prefix (\<open>sum.c\<close>, four threads of ten million increments) an update is lost when
  two threads load before either stores.
\<close>

theorem plain_add_loses:
  "ad_sum (run_adders False [0, 1, 0, 1] (adders_init 10000000)) = 1 \<and>
   ad_left (run_adders False [0, 1, 0, 1] (adders_init 10000000)) 0 = 9999999 \<and>
   ad_left (run_adders False [0, 1, 0, 1] (adders_init 10000000)) 1 = 9999999"
  by (simp add: run_adders_def add_step_def adders_init_def)

end
