(* ===== verification/Demos.thy ===== *)
theory Demos
  imports Spin "HOL-Library.Word"
begin

unbundle bit_operations_syntax

text \<open>
  Demonstration programs that have a state of their own: \<open>multi-threads/bug.c\<close>, in which the main thread
  waits for workers that count atomically; \<open>multi-threads/compare-and-swap.c\<close>; and
  \<open>multi-threads/state.c\<close>, the prototype of the test of \<open>brac.c\<close>.
\<close>

section \<open>A barrier by counting\<close>

text \<open>\<open>lock addq\<close> adds to eight bytes, of which \<open>done\<close>, an \<open>int\<close>, is the lower half; \<open>cell\<close> is the
  eight bytes. The main thread creates the workers one by one and then reads \<open>done\<close> until it is
  their number.\<close>

definition nworkers :: nat where
  "nworkers = 4"

record barrier =
  cell :: "64 word"
  created :: nat
  finished :: "nat list"
  all_done :: bool

definition barrier_start :: "64 word \<Rightarrow> barrier" where
  "barrier_start c = \<lparr>cell = c, created = 0, finished = [], all_done = False\<rparr>"

definition done_of :: "64 word \<Rightarrow> 32 word" where
  "done_of c = ucast c"

inductive barrier_step :: "barrier \<Rightarrow> barrier \<Rightarrow> bool" where
  main_creates: "created s < nworkers \<Longrightarrow> barrier_step s (s\<lparr>created := created s + 1\<rparr>)"
| workload: "j < created s \<Longrightarrow> j \<notin> set (finished s) \<Longrightarrow>
    barrier_step s (s\<lparr>cell := cell s + 1, finished := j # finished s\<rparr>)"
| main_waits: "created s = nworkers \<Longrightarrow> \<not> all_done s \<Longrightarrow> done_of (cell s) \<noteq> of_nat nworkers \<Longrightarrow> barrier_step s s"
| main_prints: "created s = nworkers \<Longrightarrow> \<not> all_done s \<Longrightarrow> done_of (cell s) = of_nat nworkers \<Longrightarrow>
    barrier_step s (s\<lparr>all_done := True\<rparr>)"

definition barrier_inv :: "64 word \<Rightarrow> barrier \<Rightarrow> bool" where
  "barrier_inv c s \<longleftrightarrow> created s \<le> nworkers \<and> distinct (finished s) \<and> set (finished s) \<subseteq> {..<created s} \<and>
     cell s = c + of_nat (length (finished s)) \<and> (all_done s \<longrightarrow> length (finished s) = nworkers)"

lemma finished_le:
  assumes "barrier_inv c s"
  shows "length (finished s) \<le> created s"
  using assms card_mono[of "{..<created s}" "set (finished s)"] distinct_card[of "finished s"]
  by (simp add: barrier_inv_def)

text \<open>The count never leaves the lower half when that half starts at zero.\<close>

lemma done_counts:
  assumes "done_of c = 0" "k \<le> nworkers"
  shows "unat (done_of (c + of_nat k)) = k \<and> drop_bit 32 (c + of_nat k) = drop_bit 32 c"
proof -
  have "unat c mod 2 ^ 32 = 0"
    using assms(1) by (simp add: done_of_def word_unat_eq_iff unsigned_ucast_eq take_bit_eq_mod)
  then obtain h where h: "unat c = 2 ^ 32 * h" by (metis mod_0_imp_dvd dvdE)
  have "unat c < 2 ^ 64" using unsigned_less[of c, where ?'a = nat] by simp
  then have hl: "h < 2 ^ 32" using h by simp
  have k: "k < 5" using assms(2) by (simp add: nworkers_def)
  then have "unat c + k < 2 ^ 64" using h hl by simp
  then have u: "unat (c + of_nat k) = 2 ^ 32 * h + k"
    using h k by (simp add: unat_word_ariths unat_of_nat)
  have "unat (done_of (c + of_nat k)) = k"
    using u k by (simp add: done_of_def unsigned_ucast_eq take_bit_eq_mod)
  moreover have "unat (drop_bit 32 (c + of_nat k)) = unat (drop_bit 32 c)"
    using u h k by (simp add: drop_bit_eq_div unat_div)
  ultimately show ?thesis by (simp add: word_unat_eq_iff)
qed

interpretation barrier: inductive_invariant "\<lambda>s. s = barrier_start c \<and> done_of c = 0" barrier_step
  "\<lambda>s. done_of c = 0 \<and> barrier_inv c s" for c
proof
  fix s t
  assume "done_of c = 0 \<and> barrier_inv c s" and st: "barrier_step s t"
  then have z: "done_of c = 0" and i: "barrier_inv c s" by blast+
  from st have "barrier_inv c t"
  proof cases
    case (workload j)
    have "card (insert j (set (finished s))) \<le> card {..<created s}"
      using i workload(2) by (intro card_mono) (auto simp: barrier_inv_def)
    then have "Suc (length (finished s)) \<le> nworkers"
      using i workload(3) by (simp add: barrier_inv_def distinct_card)
    with i workload show ?thesis by (auto simp: barrier_inv_def algebra_simps)
  next
    case main_prints
    have "length (finished s) \<le> nworkers" using finished_le[OF i] i by (simp add: barrier_inv_def)
    from done_counts[OF z this] have "length (finished s) = unat (done_of (cell s))"
      using i by (simp add: barrier_inv_def)
    also have "\<dots> = nworkers" using main_prints(4) by (simp add: nworkers_def)
    finally show ?thesis using i main_prints(1) by (simp add: barrier_inv_def)
  qed (use i finished_le[OF i] in \<open>auto simp: barrier_inv_def algebra_simps\<close>)
  with z show "done_of c = 0 \<and> barrier_inv c t" by blast
qed (auto simp: barrier_inv_def barrier_start_def)

text \<open>
  In \<open>bug.c\<close> the main thread prints only after all workers have finished, and although each of them
  writes eight bytes, the four bytes after \<open>done\<close> keep their value.
\<close>

theorem barrier_waits_for_all:
  assumes "reachable (\<lambda>s. s = barrier_start c \<and> done_of c = 0) barrier_step s"
  shows "(all_done s \<longrightarrow> set (finished s) = {..<nworkers}) \<and> drop_bit 32 (cell s) = drop_bit 32 c"
proof -
  from barrier.reachable_inv[OF assms] have z: "done_of c = 0" and i: "barrier_inv c s" by blast+
  have le: "length (finished s) \<le> nworkers" using finished_le[OF i] i by (simp add: barrier_inv_def)
  have "set (finished s) = {..<nworkers}" if "all_done s"
  proof (rule card_subset_eq)
    show "set (finished s) \<subseteq> {..<nworkers}" using i by (auto simp: barrier_inv_def)
    show "card (set (finished s)) = card {..<nworkers}" using i that by (simp add: barrier_inv_def distinct_card)
  qed simp
  moreover have "drop_bit 32 (cell s) = drop_bit 32 c"
    using done_counts[OF z le] i by (simp add: barrier_inv_def)
  ultimately show ?thesis by blast
qed

section \<open>compare-and-swap.c and state.c\<close>

text \<open>The numbers \<open>main\<close> prints. The last line is labelled \<open>old\<close> but shows the flag, not the value
  the variable held.\<close>

definition cas_main :: "int \<Rightarrow> int list" where
  "cas_main global =
     (let (success, g1) = compare_and_swap global 0 100;
          (success', g2) = compare_and_swap g1 0 200
      in [global, g1, success, g1, g2, success'])"

lemma cas_main_prints: "cas_main 0 = [0, 100, 1, 100, 100, 0]"
  by (simp add: cas_main_def compare_and_swap_def)

text \<open>\<open>strcmp\<close> on buffers: the sign of the first difference.\<close>

fun strcmp_chars :: "string \<Rightarrow> string \<Rightarrow> int" where
  "strcmp_chars [] [] = 0"
| "strcmp_chars [] (b # bs) = -1"
| "strcmp_chars (a # as) [] = 1"
| "strcmp_chars (a # as) (b # bs) =
     (if a = b then strcmp_chars as bs else if (of_char a :: nat) < of_char b then -1 else 1)"

definition demo_states :: "string list" where
  "demo_states = [''[('' @ [NUL, NUL, NUL], ''['' @ [NUL, NUL, NUL, NUL]]"

definition state_main :: "char \<Rightarrow> int res" where
  "state_main ch =
     (let buf = replicate 5 NUL;
          tmp = replicate 5 NUL;
          bit = (replicate 2 NUL)[0 := ch]
      in rbind (strcpy tmp buf) (\<lambda>t1. rbind (strcat t1 bit) (\<lambda>t2.
           Inr (strcmp_chars (cstr t2) (cstr (demo_states ! 1))))))"

lemma state_main_matches: "state_main CHR ''['' = Inr 0"
  by (simp add: state_main_def demo_states_def strcpy_def strcat_def strlen_def cstr_def eval_nat_numeral)

end
