(* ===== verification/Xv6Lock.thy ===== *)
theory Xv6Lock
  imports Prelude
begin

text \<open>
  \<open>multi-threads/spinlock-xv6.c\<close>: the kernel spin lock of xv6 with its interrupt discipline.

  A processor has its interrupt flag, the depth \<open>ncli\<close> of \<open>pushcli\<close> and the flag \<open>intena\<close>
  saved by the outermost one. \<open>pushcli\<close>, \<open>popcli\<close>, \<open>holding\<close> and \<open>getcallerpcs\<close> touch only
  their own processor (and memory) and are functions; \<open>acquire\<close> and \<open>release\<close> are also split at
  every access to the shared lock, and the system of all processors interleaves these steps. The
  functions \<open>acquire_alone\<close> and \<open>release\<close> are the same code run without interruption.
\<close>

section \<open>Definitions\<close>

record cpu =
  ncli :: int
  intena :: bool
  IF :: bool

record spinlock =
  lk_locked :: nat
  lk_name :: string
  lk_cpu :: "nat option"
  lk_pcs :: "nat list"

definition initlock :: "string \<Rightarrow> spinlock \<Rightarrow> spinlock" where
  "initlock name lk = lk\<lparr>lk_name := name, lk_locked := 0, lk_cpu := None\<rparr>"

definition pushcli :: "cpu \<Rightarrow> cpu" where
  "pushcli c =
     (let eflags = IF c; c1 = c\<lparr>IF := False\<rparr>;
          c2 = (if ncli c1 = 0 then c1\<lparr>intena := eflags\<rparr> else c1)
      in c2\<lparr>ncli := ncli c2 + 1\<rparr>)"

definition popcli :: "cpu \<Rightarrow> cpu res" where
  "popcli c =
     (if IF c then Inl (Panic ''popcli - interruptible'')
      else let c1 = c\<lparr>ncli := ncli c - 1\<rparr>
           in if ncli c1 < 0 then Inl (Panic ''popcli'')
              else Inr (if ncli c1 = 0 \<and> intena c1 then c1\<lparr>IF := True\<rparr> else c1))"

definition holding :: "nat \<Rightarrow> spinlock \<Rightarrow> cpu \<Rightarrow> (bool \<times> cpu) res" where
  "holding me lk c =
     (let c1 = pushcli c; r = (lk_locked lk \<noteq> 0 \<and> lk_cpu lk = Some me)
      in rbind (popcli c1) (\<lambda>c2. Inr (r, c2)))"

text \<open>\<open>mem\<close> reads the word at a byte address; the stack frame of the caller starts two words
  below the argument.\<close>

definition KERNBASE :: nat where
  "KERNBASE = 0x80000000"

fun callerpcs_from :: "(nat \<Rightarrow> nat) \<Rightarrow> nat \<Rightarrow> nat \<Rightarrow> nat list" where
  "callerpcs_from mem 0 ebp = []"
| "callerpcs_from mem (Suc k) ebp =
     (if ebp = 0 \<or> ebp < KERNBASE \<or> ebp = 0xffffffff then replicate (Suc k) 0
      else mem (ebp + 4) # callerpcs_from mem k (mem ebp))"

definition getcallerpcs :: "(nat \<Rightarrow> nat) \<Rightarrow> nat \<Rightarrow> nat list" where
  "getcallerpcs mem v = callerpcs_from mem 10 (v - 8)"

text \<open>\<open>acquire\<close> and \<open>release\<close> on one processor, with no other processor in between. \<open>v\<close> is
  the address \<open>&lk\<close> of the argument on the stack; \<open>None\<close> is spinning forever.\<close>

definition acquire_alone :: "(nat \<Rightarrow> nat) \<Rightarrow> nat \<Rightarrow> nat \<Rightarrow> spinlock \<Rightarrow> cpu \<Rightarrow> (spinlock \<times> cpu) res option" where
  "acquire_alone mem v me lk c =
     (case holding me lk (pushcli c) of
        Inl e \<Rightarrow> Some (Inl e)
      | Inr (True, _) \<Rightarrow> Some (Inl (Panic ''acquire''))
      | Inr (False, c1) \<Rightarrow>
          if lk_locked lk \<noteq> 0 then None
          else Some (Inr (lk\<lparr>lk_locked := 1, lk_cpu := Some me, lk_pcs := getcallerpcs mem v\<rparr>, c1)))"

definition release :: "nat \<Rightarrow> spinlock \<Rightarrow> cpu \<Rightarrow> (spinlock \<times> cpu) res" where
  "release me lk c =
     rbind (holding me lk c) (\<lambda>(h, c1).
       if \<not> h then Inl (Panic ''release'')
       else rbind (popcli c1) (\<lambda>c2.
         Inr (lk\<lparr>lk_pcs := (lk_pcs lk)[0 := 0], lk_cpu := None, lk_locked := 0\<rparr>, c2)))"

text \<open>
  The steps of a processor that acquires and releases the lock again and again. Each constructor
  names the next shared access: \<open>ACheckLocked\<close> and \<open>ACheckCpu\<close> are the two reads of \<open>holding\<close>
  in \<open>acquire\<close>, \<open>ASpin\<close> one \<open>xchg\<close>, and so on; \<open>RCheckLocked\<close> and \<open>RCheckCpu\<close> are those of
  \<open>holding\<close> in \<open>release\<close>.
\<close>

datatype xpc =
    Idle | ACheckLocked | ACheckCpu | ASpin | ASetCpu | ASetPcs | Critical
  | RCheckLocked | RCheckCpu | RClearPcs | RClearCpu | RUnlock | RPop | Panicked string

record xsys =
  x_lock :: spinlock
  x_cpu :: "nat \<Rightarrow> cpu"
  x_pc :: "nat \<Rightarrow> xpc"

definition goto :: "nat \<Rightarrow> xpc \<Rightarrow> xsys \<Rightarrow> xsys" where
  "goto i p s = s\<lparr>x_pc := (x_pc s)(i := p)\<rparr>"

definition set_cpu :: "nat \<Rightarrow> cpu \<Rightarrow> xsys \<Rightarrow> xsys" where
  "set_cpu i c s = s\<lparr>x_cpu := (x_cpu s)(i := c)\<rparr>"

definition pop_then :: "nat \<Rightarrow> xpc \<Rightarrow> xsys \<Rightarrow> xsys" where
  "pop_then i p s =
     (case popcli (x_cpu s i) of
        Inr c \<Rightarrow> goto i p (set_cpu i c s)
      | Inl (Panic m) \<Rightarrow> goto i (Panicked m) s
      | Inl _ \<Rightarrow> s)"

definition cpu_step :: "(nat \<Rightarrow> nat list) \<Rightarrow> nat \<Rightarrow> xsys \<Rightarrow> xsys" where
  "cpu_step frames i s =
     (let lk = x_lock s in
      case x_pc s i of
        Idle \<Rightarrow> goto i ACheckLocked (set_cpu i (pushcli (pushcli (x_cpu s i))) s)
      | ACheckLocked \<Rightarrow>
          if lk_locked lk \<noteq> 0 then goto i ACheckCpu s else pop_then i ASpin s
      | ACheckCpu \<Rightarrow>
          if lk_cpu lk = Some i then pop_then i (Panicked ''acquire'') s else pop_then i ASpin s
      | ASpin \<Rightarrow>
          goto i (if lk_locked lk \<noteq> 0 then ASpin else ASetCpu) (s\<lparr>x_lock := lk\<lparr>lk_locked := 1\<rparr>\<rparr>)
      | ASetCpu \<Rightarrow> goto i ASetPcs (s\<lparr>x_lock := lk\<lparr>lk_cpu := Some i\<rparr>\<rparr>)
      | ASetPcs \<Rightarrow> goto i Critical (s\<lparr>x_lock := lk\<lparr>lk_pcs := frames i\<rparr>\<rparr>)
      | Critical \<Rightarrow> goto i RCheckLocked (set_cpu i (pushcli (x_cpu s i)) s)
      | RCheckLocked \<Rightarrow>
          if lk_locked lk \<noteq> 0 then goto i RCheckCpu s else pop_then i (Panicked ''release'') s
      | RCheckCpu \<Rightarrow>
          if lk_cpu lk = Some i then pop_then i RClearPcs s else pop_then i (Panicked ''release'') s
      | RClearPcs \<Rightarrow> goto i RClearCpu (s\<lparr>x_lock := lk\<lparr>lk_pcs := (lk_pcs lk)[0 := 0]\<rparr>\<rparr>)
      | RClearCpu \<Rightarrow> goto i RUnlock (s\<lparr>x_lock := lk\<lparr>lk_cpu := None\<rparr>\<rparr>)
      | RUnlock \<Rightarrow> goto i RPop (s\<lparr>x_lock := lk\<lparr>lk_locked := 0\<rparr>\<rparr>)
      | RPop \<Rightarrow> pop_then i Idle s
      | Panicked m \<Rightarrow> s)"

definition xstep :: "(nat \<Rightarrow> nat list) \<Rightarrow> xsys \<Rightarrow> xsys \<Rightarrow> bool" where
  "xstep frames s t \<longleftrightarrow> (\<exists>i. t = cpu_step frames i s)"

text \<open>Interrupts are off while \<open>pushcli\<close> is in force.\<close>

definition cpu_ok :: "cpu \<Rightarrow> bool" where
  "cpu_ok c \<longleftrightarrow> 0 \<le> ncli c \<and> (0 < ncli c \<longrightarrow> \<not> IF c)"

definition x_init :: "(nat \<Rightarrow> cpu) \<Rightarrow> xsys \<Rightarrow> bool" where
  "x_init base s \<longleftrightarrow> x_cpu s = base \<and> (\<forall>i. cpu_ok (base i)) \<and> (\<forall>i. x_pc s i = Idle) \<and>
     lk_locked (x_lock s) = 0 \<and> lk_cpu (x_lock s) = None"

section \<open>Interrupt discipline\<close>

text \<open>
  The processor after \<open>d\<close> more \<open>pushcli\<close> than \<open>popcli\<close> since it was \<open>b\<close>: the depth is
  counted, the flag is off, and the saved flag is the one of the outermost \<open>pushcli\<close>.
\<close>

definition pushed :: "cpu \<Rightarrow> nat \<Rightarrow> cpu \<Rightarrow> bool" where
  "pushed b d c \<longleftrightarrow> ncli c = ncli b + int d \<and>
     (if d = 0 then IF c = IF b else \<not> IF c \<and> (ncli b = 0 \<longrightarrow> intena c = IF b)) \<and>
     (0 < ncli b \<longrightarrow> intena c = intena b)"

lemma pushed_0: "pushed b 0 b"
  by (simp add: pushed_def)

lemma pushed_push: "pushed b d c \<Longrightarrow> cpu_ok b \<Longrightarrow> pushed b (Suc d) (pushcli c)"
  by (auto simp: pushed_def pushcli_def Let_def cpu_ok_def)

lemma pushed_pop:
  "pushed b (Suc d) c \<Longrightarrow> cpu_ok b \<Longrightarrow> \<exists>c'. popcli c = Inr c' \<and> pushed b d c'"
  by (auto simp: pushed_def popcli_def Let_def cpu_ok_def)

lemma pushed_IF: "pushed b (Suc d) c \<Longrightarrow> \<not> IF c"
  by (simp add: pushed_def)

section \<open>The invariant of the system\<close>

fun depth :: "xpc \<Rightarrow> nat" where
  "depth Idle = 0"
| "depth ACheckLocked = 2"
| "depth ACheckCpu = 2"
| "depth RCheckLocked = 2"
| "depth RCheckCpu = 2"
| "depth (Panicked m) = 0"
| "depth _ = 1"

definition has_lock :: "xpc \<Rightarrow> bool" where
  "has_lock p \<longleftrightarrow> p \<in> {ASetCpu, ASetPcs, Critical, RCheckLocked, RCheckCpu, RClearPcs, RClearCpu, RUnlock}"

definition owner :: "xpc \<Rightarrow> bool" where
  "owner p \<longleftrightarrow> p \<in> {ASetPcs, Critical, RCheckLocked, RCheckCpu, RClearPcs, RClearCpu}"

definition xinv :: "(nat \<Rightarrow> cpu) \<Rightarrow> xsys \<Rightarrow> bool" where
  "xinv base s \<longleftrightarrow>
     (\<forall>i. cpu_ok (base i)) \<and>
     (\<forall>i. pushed (base i) (depth (x_pc s i)) (x_cpu s i)) \<and>
     (\<forall>i m. x_pc s i \<noteq> Panicked m) \<and>
     (\<forall>i j. has_lock (x_pc s i) \<and> has_lock (x_pc s j) \<longrightarrow> i = j) \<and>
     (lk_locked (x_lock s) \<noteq> 0 \<longleftrightarrow> (\<exists>i. has_lock (x_pc s i))) \<and>
     (\<forall>i. lk_cpu (x_lock s) = Some i \<longleftrightarrow> owner (x_pc s i))"

lemma goto_simps [simp]:
  "x_lock (goto i p s) = x_lock s" "x_cpu (goto i p s) = x_cpu s" "x_pc (goto i p s) = (x_pc s)(i := p)"
  "x_lock (set_cpu i c s) = x_lock s" "x_cpu (set_cpu i c s) = (x_cpu s)(i := c)" "x_pc (set_cpu i c s) = x_pc s"
  by (simp_all add: goto_def set_cpu_def)

lemma pc_simps [simp]:
  "\<not> has_lock Idle" "\<not> has_lock ACheckLocked" "\<not> has_lock ACheckCpu" "\<not> has_lock ASpin" "has_lock ASetCpu"
  "has_lock ASetPcs" "has_lock Critical" "has_lock RCheckLocked" "has_lock RCheckCpu" "has_lock RClearPcs"
  "has_lock RClearCpu" "has_lock RUnlock" "\<not> has_lock RPop"
  "\<not> owner Idle" "\<not> owner ACheckLocked" "\<not> owner ACheckCpu" "\<not> owner ASpin" "\<not> owner ASetCpu"
  "owner ASetPcs" "owner Critical" "owner RCheckLocked" "owner RCheckCpu" "owner RClearPcs"
  "owner RClearCpu" "\<not> owner RUnlock" "\<not> owner RPop"
  by (simp_all add: has_lock_def owner_def)

lemma has_owner: "owner p \<Longrightarrow> has_lock p"
  by (auto simp: owner_def has_lock_def)

lemma xinvD:
  assumes "xinv base s"
  shows "cpu_ok (base i)" "pushed (base i) (depth (x_pc s i)) (x_cpu s i)" "x_pc s i \<noteq> Panicked m"
    "has_lock (x_pc s i) \<Longrightarrow> has_lock (x_pc s j) \<Longrightarrow> i = j"
    "lk_locked (x_lock s) \<noteq> 0 \<longleftrightarrow> (\<exists>i. has_lock (x_pc s i))"
    "lk_cpu (x_lock s) = Some i \<longleftrightarrow> owner (x_pc s i)"
  using assms by (auto simp: xinv_def)

text \<open>A step that takes processor \<open>i\<close> to \<open>p\<close> with its processor state \<open>c\<close> keeps the
  invariant when it changes neither who has the lock nor the owner recorded in it.\<close>

lemma xinv_quiet:
  assumes s: "xinv base s" and pc: "x_pc t = (x_pc s)(i := p)" and cpu: "x_cpu t = (x_cpu s)(i := c)"
    and p: "pushed (base i) (depth p) c" "\<And>m. p \<noteq> Panicked m"
    and h: "has_lock p \<longleftrightarrow> has_lock (x_pc s i)" "owner p \<longleftrightarrow> owner (x_pc s i)"
    and l: "lk_locked (x_lock t) \<noteq> 0 \<longleftrightarrow> lk_locked (x_lock s) \<noteq> 0" "lk_cpu (x_lock t) = lk_cpu (x_lock s)"
  shows "xinv base t"
proof -
  note D = xinvD[OF s]
  have has: "has_lock (x_pc t j) \<longleftrightarrow> has_lock (x_pc s j)" and own: "owner (x_pc t j) \<longleftrightarrow> owner (x_pc s j)" for j
    using h by (simp_all add: pc)
  have "pushed (base j) (depth (x_pc t j)) (x_cpu t j)" for j using p(1) D(2)[of j] by (simp add: pc cpu)
  moreover have "x_pc t j \<noteq> Panicked m" for j m using p(2) D(3)[of j] by (simp add: pc)
  ultimately show ?thesis unfolding xinv_def has own l using D(1,4,5,6) by blast
qed

lemma xinv_pop:
  assumes s: "xinv base s" and d: "depth (x_pc s i) = Suc (depth p)" and p: "\<And>m. p \<noteq> Panicked m"
    and h: "has_lock p \<longleftrightarrow> has_lock (x_pc s i)" "owner p \<longleftrightarrow> owner (x_pc s i)"
  shows "xinv base (pop_then i p s)"
proof -
  from pushed_pop[OF _ xinvD(1)[OF s]] xinvD(2)[OF s, of i] obtain c
    where c: "popcli (x_cpu s i) = Inr c" "pushed (base i) (depth p) c" unfolding d by blast
  show ?thesis
    by (rule xinv_quiet[OF s _ _ c(2) p h]) (simp_all add: pop_then_def c(1))
qed

lemma xinv_take:
  assumes s: "xinv base s" and "x_pc s i = ASpin" and free: "lk_locked (x_lock s) = 0"
  shows "xinv base (goto i ASetCpu (s\<lparr>x_lock := (x_lock s)\<lparr>lk_locked := 1\<rparr>\<rparr>))"
proof -
  note D = xinvD[OF s]
  have none: "\<not> has_lock (x_pc s j)" for j using free D(5) by blast
  have "pushed (base i) 1 (x_cpu s i)" using D(2)[of i] assms(2) by simp
  moreover have "\<not> owner (x_pc s j)" for j using none has_owner by blast
  ultimately show ?thesis unfolding xinv_def using D none by auto
qed

lemma xinv_set_cpu:
  assumes s: "xinv base s" and pc: "x_pc s i = (if q = None then RClearCpu else ASetCpu)" "q = None \<or> q = Some i"
  shows "xinv base (goto i (if q = None then RUnlock else ASetPcs) (s\<lparr>x_lock := (x_lock s)\<lparr>lk_cpu := q\<rparr>\<rparr>))"
proof -
  note D = xinvD[OF s]
  have hi: "has_lock (x_pc s i)" using pc by simp
  then have only: "\<not> owner (x_pc s j)" "\<not> has_lock (x_pc s j)" if "j \<noteq> i" for j
    using D(4)[OF hi] has_owner that by blast+
  have "pushed (base i) 1 (x_cpu s i)" using D(2)[of i] pc(1) by (simp split: if_splits)
  moreover have "lk_locked (x_lock s) \<noteq> 0" using D(5) hi by blast
  ultimately show ?thesis unfolding xinv_def using D(1-3) pc only by (auto split: if_splits)
qed

lemma xinv_unlock:
  assumes s: "xinv base s" and pc: "x_pc s i = RUnlock"
  shows "xinv base (goto i RPop (s\<lparr>x_lock := (x_lock s)\<lparr>lk_locked := 0\<rparr>\<rparr>))"
proof -
  note D = xinvD[OF s]
  have hi: "has_lock (x_pc s i)" using pc by simp
  have none: "\<not> has_lock (x_pc s j)" if "j \<noteq> i" for j using D(4)[OF hi] that by blast
  have "\<not> owner (x_pc s j)" for j using pc none has_owner by (cases "j = i") auto
  moreover have "pushed (base i) 1 (x_cpu s i)" using D(2)[of i] pc by simp
  ultimately show ?thesis unfolding xinv_def using D(1-3,6) none by auto
qed

lemma xinv_step:
  assumes s: "xinv base s"
  shows "xinv base (cpu_step frames i s)"
proof -
  note D = xinvD[OF s] and ok = xinvD(1)[OF s, of i]
  note pu = xinvD(2)[OF s, of i]
  have quiet: "xinv base t" if "t = goto i p (set_cpu i c (s\<lparr>x_lock := l\<rparr>))"
    "pushed (base i) (depth p) c" "\<And>m. p \<noteq> Panicked m" "has_lock p \<longleftrightarrow> has_lock (x_pc s i)"
    "owner p \<longleftrightarrow> owner (x_pc s i)" "lk_locked l \<noteq> 0 \<longleftrightarrow> lk_locked (x_lock s) \<noteq> 0" "lk_cpu l = lk_cpu (x_lock s)" for t p c l
    by (rule xinv_quiet[OF s _ _ that(2-5)]) (use that in simp_all)
  have same: "goto i p (s\<lparr>x_lock := l\<rparr>) = goto i p (set_cpu i (x_cpu s i) (s\<lparr>x_lock := l\<rparr>))"
    "goto i p s = goto i p (set_cpu i (x_cpu s i) (s\<lparr>x_lock := x_lock s\<rparr>))"
    "set_cpu i c s = set_cpu i c (s\<lparr>x_lock := x_lock s\<rparr>)" for p c l
    by (simp_all add: goto_def set_cpu_def)
  show ?thesis
  proof (cases "x_pc s i")
    case Idle
    have "pushed (base i) (depth ACheckLocked) (pushcli (pushcli (x_cpu s i)))"
      using pushed_push[OF pushed_push[OF _ ok] ok] pu Idle by (simp add: numeral_2_eq_2)
    then show ?thesis unfolding cpu_step_def Let_def Idle xpc.case same(3) by (rule quiet[OF refl]) (simp_all add: Idle)
  next
    case ACheckLocked
    show ?thesis
    proof (cases "lk_locked (x_lock s) \<noteq> 0")
      case True
      then have "cpu_step frames i s = goto i ACheckCpu s" by (simp add: cpu_step_def ACheckLocked)
      then show ?thesis unfolding same(2) by (rule quiet) (use pu ACheckLocked in simp_all)
    next
      case False
      then have "cpu_step frames i s = pop_then i ASpin s" by (simp add: cpu_step_def ACheckLocked)
      then show ?thesis using xinv_pop[OF s, of i ASpin] ACheckLocked by simp
    qed
  next
    case ACheckCpu
    then have "lk_cpu (x_lock s) \<noteq> Some i" using D(6)[of i] by simp
    then have "cpu_step frames i s = pop_then i ASpin s" by (simp add: cpu_step_def ACheckCpu)
    then show ?thesis using xinv_pop[OF s, of i ASpin] ACheckCpu by simp
  next
    case ASpin
    show ?thesis
    proof (cases "lk_locked (x_lock s) = 0")
      case True
      with xinv_take[OF s ASpin True] show ?thesis by (simp add: cpu_step_def ASpin)
    next
      case False
      then have "cpu_step frames i s = goto i ASpin (s\<lparr>x_lock := (x_lock s)\<lparr>lk_locked := 1\<rparr>\<rparr>)"
        by (simp add: cpu_step_def ASpin)
      then show ?thesis unfolding same(1) by (rule quiet) (use pu ASpin False in simp_all)
    qed
  next
    case ASetCpu
    with xinv_set_cpu[OF s, of i "Some i"] show ?thesis by (simp add: cpu_step_def)
  next
    case ASetPcs
    show ?thesis unfolding cpu_step_def Let_def ASetPcs xpc.case same(1) by (rule quiet[OF refl]) (use pu ASetPcs in simp_all)
  next
    case Critical
    have "pushed (base i) (depth RCheckLocked) (pushcli (x_cpu s i))"
      using pushed_push[OF pu ok] Critical by (simp add: numeral_2_eq_2)
    then show ?thesis unfolding cpu_step_def Let_def Critical xpc.case same(3) by (rule quiet[OF refl]) (simp_all add: Critical)
  next
    case RCheckLocked
    then have "lk_locked (x_lock s) \<noteq> 0" using D(5) pc_simps(8) by metis
    then have "cpu_step frames i s = goto i RCheckCpu s" by (simp add: cpu_step_def RCheckLocked)
    then show ?thesis unfolding same(2) by (rule quiet) (use pu RCheckLocked in simp_all)
  next
    case RCheckCpu
    then have "lk_cpu (x_lock s) = Some i" using D(6)[of i] by simp
    then have "cpu_step frames i s = pop_then i RClearPcs s" by (simp add: cpu_step_def RCheckCpu)
    then show ?thesis using xinv_pop[OF s, of i RClearPcs] RCheckCpu by simp
  next
    case RClearPcs
    show ?thesis unfolding cpu_step_def Let_def RClearPcs xpc.case same(1) by (rule quiet[OF refl]) (use pu RClearPcs in simp_all)
  next
    case RClearCpu
    with xinv_set_cpu[OF s, of i None] show ?thesis by (simp add: cpu_step_def)
  next
    case RUnlock
    with xinv_unlock[OF s] show ?thesis by (simp add: cpu_step_def)
  next
    case RPop
    with xinv_pop[OF s, of i Idle] show ?thesis by (simp add: cpu_step_def)
  next
    case (Panicked m)
    with D(3) show ?thesis by blast
  qed
qed

interpretation xv: inductive_invariant "x_init base" "xstep frames" "xinv base" for base frames
proof unfold_locales
  show "xinv base s" if "x_init base s" for s
    using that by (auto simp: x_init_def xinv_def pushed_0)
  show "xinv base t" if "xinv base s" "xstep frames s t" for s t
    using that xinv_step by (auto simp: xstep_def)
qed

section \<open>Properties\<close>

text \<open>
  C4. Whatever the interleaving of any number of processors, at most one is between the successful
  exchange of \<open>acquire\<close> and the store that ends \<open>release\<close>; the owner recorded in the lock is
  the processor inside; and no check of \<open>acquire\<close>, \<open>release\<close> or \<open>popcli\<close> ever panics.
\<close>

theorem xv6_lock_safe:
  assumes "reachable (x_init base) (xstep frames) s"
  shows "(\<forall>i j. has_lock (x_pc s i) \<and> has_lock (x_pc s j) \<longrightarrow> i = j) \<and>
    (\<forall>i. x_pc s i = Critical \<longrightarrow> lk_cpu (x_lock s) = Some i \<and> lk_locked (x_lock s) \<noteq> 0) \<and>
    (\<forall>i m. x_pc s i \<noteq> Panicked m)"
proof -
  note D = xinvD[OF xv.reachable_inv[OF assms]]
  have "lk_cpu (x_lock s) = Some i \<and> lk_locked (x_lock s) \<noteq> 0" if "x_pc s i = Critical" for i
    using D(5,6) that pc_simps(7,20) by metis
  with D(3,4) show ?thesis by blast
qed

definition x_sample :: xsys where
  "x_sample = \<lparr>x_lock = initlock ''kmem'' \<lparr>lk_locked = 7, lk_name = [], lk_cpu = Some 3, lk_pcs = replicate 10 0\<rparr>,
     x_cpu = (\<lambda>_. \<lparr>ncli = 0, intena = False, IF = True\<rparr>), x_pc = (\<lambda>_. Idle)\<rparr>"

lemma x_sample_init: "x_init (\<lambda>_. \<lparr>ncli = 0, intena = False, IF = True\<rparr>) x_sample"
  by (simp add: x_init_def x_sample_def initlock_def cpu_ok_def)

lemma run_reachable:
  "reachable (x_init base) (xstep frames) s \<Longrightarrow> reachable (x_init base) (xstep frames) (fold (cpu_step frames) is s)"
proof (induction "is" arbitrary: s)
  case (Cons i "is")
  have "xstep frames s (cpu_step frames i s)" by (auto simp: xstep_def)
  with Cons reach_step show ?case by fastforce
qed simp

definition x_run :: xsys where
  "x_run = fold (cpu_step (\<lambda>_. replicate 10 0)) [1, 1, 0, 1, 1, 1, 0, 0] x_sample"

lemma x_run_reachable:
  "reachable (x_init (\<lambda>_. \<lparr>ncli = 0, intena = False, IF = True\<rparr>)) (xstep (\<lambda>_. replicate 10 0)) x_run"
  unfolding x_run_def by (intro run_reachable reach_init x_sample_init)

lemma x_run_pc: "x_pc x_run 1 = Critical \<and> x_pc x_run 0 = ASpin"
  by (simp add: x_run_def x_sample_def initlock_def cpu_step_def pop_then_def pushcli_def popcli_def Let_def
      goto_def set_cpu_def)

theorem xv6_lock_safe_witness:
  "x_pc x_run 1 = Critical \<and> \<not> has_lock (x_pc x_run 0) \<and> lk_cpu (x_lock x_run) = Some 1 \<and>
   lk_locked (x_lock x_run) \<noteq> 0 \<and> x_pc x_run 2 \<noteq> Panicked ''acquire''"
proof -
  note safe = xv6_lock_safe[OF x_run_reachable]
  have "has_lock (x_pc x_run 1)" using x_run_pc by simp
  with safe have "\<not> has_lock (x_pc x_run 0)" by (metis zero_neq_one)
  with safe x_run_pc show ?thesis by blast
qed

text \<open>
  C30. Interrupts are off on a processor from the start of \<open>acquire\<close> to the end of \<open>release\<close>, so
  that an interrupt handler cannot spin on a lock its own processor holds; when the processor is
  outside again, its interrupt flag and its depth are what they were before.
\<close>

theorem xv6_interrupts_off:
  assumes "reachable (x_init base) (xstep frames) s"
  shows "if x_pc s i = Idle then IF (x_cpu s i) = IF (base i) \<and> ncli (x_cpu s i) = ncli (base i)
    else \<not> IF (x_cpu s i) \<and> 0 < ncli (x_cpu s i)"
proof -
  note D = xinvD[OF xv.reachable_inv[OF assms]]
  have "depth (x_pc s i) \<noteq> 0" if "x_pc s i \<noteq> Idle" using that D(3)[of i] by (cases "x_pc s i") auto
  with D(2)[of i] D(1)[of i] show ?thesis by (auto simp: pushed_def cpu_ok_def)
qed

theorem xv6_interrupts_off_witness:
  "if x_pc x_run 0 = Idle then IF (x_cpu x_run 0) = True \<and> ncli (x_cpu x_run 0) = 0
   else \<not> IF (x_cpu x_run 0) \<and> 0 < ncli (x_cpu x_run 0)"
proof -
  from xv6_interrupts_off[OF x_run_reachable, of 0] show ?thesis by simp
qed

primrec popclis :: "nat \<Rightarrow> cpu \<Rightarrow> cpu res" where
  "popclis 0 c = Inr c"
| "popclis (Suc n) c = rbind (popcli c) (popclis n)"

lemma pushed_pushes: "cpu_ok b \<Longrightarrow> pushed b n ((pushcli ^^ n) b)"
  by (induction n) (auto simp: pushed_0 intro: pushed_push)

lemma pushed_pops: "cpu_ok b \<Longrightarrow> pushed b (n + d) c \<Longrightarrow> \<exists>c'. popclis n c = Inr c' \<and> pushed b d c'"
proof (induction n arbitrary: c)
  case (Suc n)
  from pushed_pop[of b "n + d" c] Suc.prems obtain c1 where "popcli c = Inr c1" "pushed b (n + d) c1" by auto
  with Suc show ?case by simp
qed simp

text \<open>
  \<open>pushcli\<close> and \<open>popcli\<close> are matched: after \<open>n\<close> calls of \<open>pushcli\<close>, interrupts stay off
  until exactly \<open>n\<close> calls of \<open>popcli\<close> are made, none of which panics, and then the flag is as it
  was, on or off; one more \<open>popcli\<close> at depth 0 with interrupts off panics.
\<close>

theorem pushcli_popcli_matched:
  assumes "cpu_ok c" and "m < n"
  shows "(\<exists>c'. popclis m ((pushcli ^^ n) c) = Inr c' \<and> \<not> IF c') \<and>
    (\<exists>c'. popclis n ((pushcli ^^ n) c) = Inr c' \<and> IF c' = IF c \<and> ncli c' = ncli c) \<and>
    (ncli c = 0 \<and> \<not> IF c \<longrightarrow> popclis (Suc n) ((pushcli ^^ n) c) = Inl (Panic ''popcli''))"
proof -
  note p = pushed_pushes[OF assms(1), of n]
  have "n = m + Suc (n - Suc m)" using assms(2) by simp
  with pushed_pops[OF assms(1), of m "Suc (n - Suc m)"] p pushed_IF have 1: "\<exists>c'. popclis m ((pushcli ^^ n) c) = Inr c' \<and> \<not> IF c'"
    by metis
  from pushed_pops[OF assms(1), of n 0] p obtain c' where c': "popclis n ((pushcli ^^ n) c) = Inr c'" "pushed c 0 c'" by auto
  have snoc: "popclis (Suc k) x = rbind (popclis k x) popcli" for k x
  proof (induction k arbitrary: x)
    case 0
    show ?case by (cases "popcli x") simp_all
  next
    case (Suc k)
    show ?case using Suc by (cases "popcli x") simp_all
  qed
  have "popcli c' = Inl (Panic ''popcli'')" if "ncli c = 0 \<and> \<not> IF c"
    using that c'(2) by (simp add: popcli_def pushed_def)
  then have 2: "ncli c = 0 \<and> \<not> IF c \<longrightarrow> popclis (Suc n) ((pushcli ^^ n) c) = Inl (Panic ''popcli'')"
    by (simp only: snoc c'(1) rbind_simps) simp
  from c'(2) have "IF c' = IF c \<and> ncli c' = ncli c" by (simp add: pushed_def)
  with 1 2 c'(1) show ?thesis by blast
qed

theorem pushcli_popcli_matched_witness:
  "(\<exists>c'. popclis 1 ((pushcli ^^ 2) \<lparr>ncli = 0, intena = True, IF = False\<rparr>) = Inr c' \<and> \<not> IF c') \<and>
    (\<exists>c'. popclis 2 ((pushcli ^^ 2) \<lparr>ncli = 0, intena = True, IF = False\<rparr>) = Inr c' \<and> IF c' = False \<and> ncli c' = 0) \<and>
    popclis 3 ((pushcli ^^ 2) \<lparr>ncli = 0, intena = True, IF = False\<rparr>) = Inl (Panic ''popcli'')"
proof -
  have "cpu_ok \<lparr>ncli = 0, intena = True, IF = False\<rparr>" by (simp add: cpu_ok_def)
  from pushcli_popcli_matched[OF this, of 1 2] show ?thesis by (simp add: eval_nat_numeral)
qed

lemma length_callerpcs [simp]: "length (callerpcs_from mem k ebp) = k"
  by (induction k arbitrary: ebp) auto

lemma holding_ok:
  assumes "cpu_ok b" and "pushed b (Suc d) c"
  shows "\<exists>c'. holding me lk c = Inr (lk_locked lk \<noteq> 0 \<and> lk_cpu lk = Some me, c') \<and> pushed b (Suc d) c'"
proof -
  from pushed_pop[OF pushed_push[OF assms(2,1)] assms(1)] obtain c' where "popcli (pushcli c) = Inr c'" "pushed b (Suc d) c'"
    by blast
  then show ?thesis by (auto simp: holding_def Let_def)
qed

text \<open>
  On one processor: \<open>acquire\<close> of a free lock succeeds, records the processor and ten words of
  call stack, and switches interrupts off; acquiring again panics; another processor's
  \<open>release\<close> panics; the owner's \<open>release\<close> frees the lock and restores the processor.
\<close>

theorem acquire_release_alone:
  assumes "cpu_ok c" and "lk_locked lk = 0" and "other \<noteq> me"
  shows "\<exists>lk' c'. acquire_alone mem v me lk c = Some (Inr (lk', c')) \<and> \<not> IF c' \<and> lk_cpu lk' = Some me \<and>
    length (lk_pcs lk') = 10 \<and> acquire_alone mem v me lk' c' = Some (Inl (Panic ''acquire'')) \<and>
    release other lk' c' = Inl (Panic ''release'') \<and>
    (\<exists>lk'' c''. release me lk' c' = Inr (lk'', c'') \<and> lk_locked lk'' = 0 \<and> lk_cpu lk'' = None \<and>
       IF c'' = IF c \<and> ncli c'' = ncli c)"
proof -
  let ?lk = "lk\<lparr>lk_locked := 1, lk_cpu := Some me, lk_pcs := getcallerpcs mem v\<rparr>"
  have p1: "pushed c (Suc 0) (pushcli c)" by (rule pushed_push[OF pushed_0 assms(1)])
  from holding_ok[OF assms(1) p1, of me lk] assms(2) obtain c1
    where c1: "holding me lk (pushcli c) = Inr (False, c1)" "pushed c (Suc 0) c1" by auto
  have a: "acquire_alone mem v me lk c = Some (Inr (?lk, c1))"
    using c1(1) assms(2) by (simp add: acquire_alone_def)
  from holding_ok[OF assms(1) pushed_push[OF c1(2) assms(1)], of me ?lk]
  have b: "acquire_alone mem v me ?lk c1 = Some (Inl (Panic ''acquire''))" by (auto simp: acquire_alone_def)
  from holding_ok[OF assms(1) c1(2), of other ?lk] assms(3)
  have o: "release other ?lk c1 = Inl (Panic ''release'')" by (auto simp: release_def)
  from holding_ok[OF assms(1) c1(2), of me ?lk] obtain c2
    where c2: "holding me ?lk c1 = Inr (True, c2)" "pushed c (Suc 0) c2" by auto
  from pushed_pop[OF c2(2) assms(1)] obtain c3 where c3: "popcli c2 = Inr c3" "pushed c 0 c3" by blast
  have "release me ?lk c1 = Inr (?lk\<lparr>lk_pcs := (lk_pcs ?lk)[0 := 0], lk_cpu := None, lk_locked := 0\<rparr>, c3)"
    using c2(1) c3(1) by (simp add: release_def)
  moreover have "IF c3 = IF c \<and> ncli c3 = ncli c" using c3(2) by (simp add: pushed_def)
  moreover have "\<not> IF c1" using pushed_IF[OF c1(2)] .
  ultimately show ?thesis using a b o by (intro exI[of _ ?lk] exI[of _ c1]) (simp add: getcallerpcs_def)
qed

theorem acquire_release_alone_witness:
  "\<exists>lk' c'. acquire_alone (\<lambda>a. 0) 0x80001000 0 (x_lock x_sample) (x_cpu x_sample 0) = Some (Inr (lk', c')) \<and>
    \<not> IF c' \<and> lk_cpu lk' = Some 0 \<and>
    length (lk_pcs lk') = 10 \<and> acquire_alone (\<lambda>a. 0) 0x80001000 0 lk' c' = Some (Inl (Panic ''acquire'')) \<and>
    release 1 lk' c' = Inl (Panic ''release'') \<and>
    (\<exists>lk'' c''. release 0 lk' c' = Inr (lk'', c'') \<and> lk_locked lk'' = 0 \<and> lk_cpu lk'' = None \<and>
       IF c'' = IF (x_cpu x_sample 0) \<and> ncli c'' = ncli (x_cpu x_sample 0))"
  by (rule acquire_release_alone) (simp_all add: cpu_ok_def x_sample_def initlock_def)

end
