(* ===== verification/ThreadProg.thy ===== *)
theory ThreadProg
  imports Threads
begin

text \<open>
  The programs around \<open>multi-threads/threads.h\<close> as transition systems.

  Such a program has one shape: \<open>main\<close> creates \<open>n\<close> threads of one entry function, registers a
  function with \<open>join\<close> (or none) and returns; the destructor \<open>join_all\<close> joins and frees every
  node and calls the registered function. The threads run meanwhile. One step is one call of
  \<open>create\<close>, one turn of the loop of \<open>join_all\<close>, the end of \<open>join_all\<close>, the start of a thread
  (\<open>entry_all\<close>, which reads the thread's node) or one step of a thread's body. The operations on
  the thread list are those of \<open>Threads\<close>; the address \<open>malloc\<close> returns is any address not
  allocated, or null. \<open>pthread_create\<close> is taken to succeed, and \<open>pthread_join\<close> returns when the
  thread has ended.

  The locale \<open>thread_prog\<close> is the contract between a thread's body and this runtime: an
  invariant over the local states of the threads (by their position of creation), the shared
  variables and the output, kept by the start and by each step of a thread. It then holds in
  every state of every run, what the registered function prints comes last and after every thread
  has ended, and no node is used after \<open>join_all\<close> freed it. \<open>ending_prog\<close> adds a measure on the
  local states and the shared variables: every run is then finite and ends in the exit of the program.
\<close>

section \<open>Programs and their runs\<close>

record ('l, 'g, 'o) program =
  p_count :: nat
  p_start :: "int \<Rightarrow> 'l"
  p_body :: "'l \<Rightarrow> 'g \<Rightarrow> 'l \<times> 'g \<times> 'o list"
  p_ended :: "'l \<Rightarrow> bool"
  p_shared :: 'g
  p_final :: "('g \<Rightarrow> 'o list) option"

datatype main_pc = Creating nat | Joining | Exited | Failed c_fail

record ('l, 'g, 'o) tsys =
  ts_main :: main_pc
  ts_rt :: "(int \<Rightarrow> 'l, 'g \<Rightarrow> 'o list) runtime"
  ts_loc :: "nat \<Rightarrow> 'l option"
  ts_shared :: 'g
  ts_out :: "'o list"

definition prog_init :: "('l, 'g, 'o) program \<Rightarrow> ('l, 'g, 'o) tsys" where
  "prog_init P = \<lparr>ts_main = Creating 0, ts_rt = runtime_init, ts_loc = Map.empty,
     ts_shared = p_shared P, ts_out = []\<rparr>"

text \<open>One turn of the loop of \<open>join_all\<close>, after \<open>pthread_join\<close> has returned.\<close>

definition join_node :: "nat \<Rightarrow> ('f, 'j) runtime \<Rightarrow> ('f, 'j) runtime res" where
  "join_node t s =
     (case nodes s t of
        None \<Rightarrow> Inl DanglingPtr
      | Some nd \<Rightarrow> Inr (s\<lparr>joined := joined s @ [t], nodes := (nodes s)(t := None), threads := th_next nd\<rparr>))"

definition fresh_or_null :: "('f, 'j) runtime \<Rightarrow> nat option \<Rightarrow> bool" where
  "fresh_or_null s m \<longleftrightarrow> (case m of None \<Rightarrow> True | Some a \<Rightarrow> nodes s a = None)"

definition running :: "('l, 'g, 'o) tsys \<Rightarrow> bool" where
  "running s = (case ts_main s of Creating _ \<Rightarrow> True | Joining \<Rightarrow> True | _ \<Rightarrow> False)"

inductive prog_step :: "('l, 'g, 'o) program \<Rightarrow> ('l, 'g, 'o) tsys \<Rightarrow> ('l, 'g, 'o) tsys \<Rightarrow> bool"
  for P :: "('l, 'g, 'o) program" where
  step_create: "prog_step P s (s\<lparr>ts_main := Creating (Suc i), ts_rt := r\<rparr>)"
    if "ts_main s = Creating i" and "i < p_count P" and "fresh_or_null (ts_rt s) m"
      and "create m (p_start P) (ts_rt s) = Inr r"
| step_create_fails: "prog_step P s (s\<lparr>ts_main := Failed e\<rparr>)"
    if "ts_main s = Creating i" and "i < p_count P" and "fresh_or_null (ts_rt s) m"
      and "create m (p_start P) (ts_rt s) = Inl e"
| step_return: "prog_step P s (s\<lparr>ts_main := Joining, ts_rt := join (p_final P) (ts_rt s)\<rparr>)"
    if "ts_main s = Creating (p_count P)"
| step_join: "prog_step P s (s\<lparr>ts_rt := r\<rparr>)"
    if "ts_main s = Joining" and "threads (ts_rt s) = Some t" and "ts_loc s t = Some l" and "p_ended P l"
      and "join_node t (ts_rt s) = Inr r"
| step_join_fails: "prog_step P s (s\<lparr>ts_main := Failed e\<rparr>)"
    if "ts_main s = Joining" and "threads (ts_rt s) = Some t" and "join_node t (ts_rt s) = Inl e"
| step_exit: "prog_step P s (s\<lparr>ts_main := Exited, ts_out := ts_out s @
      (case join_fn (ts_rt s) of None \<Rightarrow> [] | Some f \<Rightarrow> f (ts_shared s))\<rparr>)"
    if "ts_main s = Joining" and "threads (ts_rt s) = None"
| step_begin: "prog_step P s (s\<lparr>ts_loc := (ts_loc s)(a \<mapsto> f i)\<rparr>)"
    if "running s" and "a \<in> set (started (ts_rt s))" and "ts_loc s a = None"
      and "entry_all a (ts_rt s) = Inr (f, i)"
| step_begin_fails: "prog_step P s (s\<lparr>ts_main := Failed e\<rparr>)"
    if "running s" and "a \<in> set (started (ts_rt s))" and "ts_loc s a = None"
      and "entry_all a (ts_rt s) = Inl e"
| step_run: "prog_step P s (s\<lparr>ts_loc := (ts_loc s)(a \<mapsto> l'), ts_shared := g', ts_out := ts_out s @ out\<rparr>)"
    if "running s" and "ts_loc s a = Some l" and "\<not> p_ended P l"
      and "p_body P l (ts_shared s) = (l', g', out)"

abbreviation prog_states :: "('l, 'g, 'o) program \<Rightarrow> ('l, 'g, 'o) tsys \<Rightarrow> bool" where
  "prog_states P \<equiv> reachable (\<lambda>s. s = prog_init P) (prog_step P)"

text \<open>\<open>join_loop\<close> of the runtime is the iteration of \<open>join_node\<close>.\<close>

lemma join_loop_node:
  assumes "threads s = Some t" and "ends t"
  shows "join_loop ends s =
    (case join_node t s of Inl e \<Rightarrow> Some (Inl e) | Inr r \<Rightarrow> join_loop ends r)"
  using assms by (subst join_loop.simps) (simp add: join_node_def split: option.split)

section \<open>The runtime keeps its list\<close>

text \<open>
  The local state of the \<open>k\<close>-th thread created, \<open>None\<close> before it starts.
\<close>

definition view :: "('l, 'g, 'o) tsys \<Rightarrow> nat \<Rightarrow> 'l option" where
  "view s k = (if k < length (started (ts_rt s)) then ts_loc s (started (ts_rt s) ! k) else None)"

text \<open>
  \<open>listed n f r k\<close>: of the nodes created so far the first \<open>k\<close> are still on the list, with their
  entry function and number; the others were joined, last created first.
\<close>

definition listed :: "('l, 'g, 'o) program \<Rightarrow> (int \<Rightarrow> 'l, 'g \<Rightarrow> 'o list) runtime \<Rightarrow> nat \<Rightarrow> bool" where
  "listed P r k \<longleftrightarrow>
     distinct (started r) \<and> k \<le> length (started r) \<and> thread_list 1 r (take k (started r)) \<and>
     joined r = rev (drop k (started r)) \<and>
     (\<forall>j < k. entry_all (started r ! j) r = Inr (p_start P, 1 + int j))"

lemma listed_init [simp]: "listed P runtime_init 0"
  by (simp add: listed_def thread_list_init)

lemma listed_join [simp]: "listed P (join f r) k \<longleftrightarrow> listed P r k"
  by (simp add: listed_def join_def entry_all_def thread_list_def next_of_def[abs_def])

lemma listed_create:
  assumes l: "listed P r (length (started r))" and f: "nodes r a = None"
    and small: "1 + int (length (started r)) < 2 ^ 31"
  obtains r' where "create (Some a) (p_start P) r = Inr r'"
    "listed P r' (Suc (length (started r)))" "started r' = started r @ [a]" "join_fn r' = join_fn r"
    "a \<notin> set (started r)"
proof -
  from l have tl: "thread_list 1 r (started r)" by (simp add: listed_def)
  then have a: "a \<notin> set (started r)" using f by (auto simp: thread_list_def)
  from push_thread_list[OF tl a small, of "p_start P"] obtain r' where
    r': "push_thread 1 (Some a) (p_start P) r = Inr r'" "thread_list 1 r' (started r @ [a])"
      "started r' = started r @ [a]" "joined r' = joined r" "join_fn r' = join_fn r"
      "entry_all a r' = Inr (p_start P, 1 + int (length (started r)))"
      "\<forall>b. b \<noteq> a \<longrightarrow> entry_all b r' = entry_all b r"
    by blast
  have "entry_all ((started r @ [a]) ! j) r' = Inr (p_start P, 1 + int j)"
    if "j < Suc (length (started r))" for j
    using that r' l a by (auto simp: listed_def nth_append less_Suc_eq in_set_conv_nth)
  with r' l a have "listed P r' (Suc (length (started r)))" by (simp add: listed_def)
  with r' a show ?thesis by (auto simp: create_def intro: that)
qed

lemma listed_threads:
  assumes "listed P r k"
  shows "threads r = (if k = 0 then None else Some (started r ! (k - 1)))"
proof -
  from assms have tl: "thread_list 1 r (take k (started r))" and le: "k \<le> length (started r)"
    by (simp_all add: listed_def)
  show ?thesis
  proof (cases k)
    case (Suc j)
    with le have "last (take k (started r)) = started r ! j"
      by (simp add: take_Suc_conv_app_nth)
    with Suc thread_list_head[OF tl] le show ?thesis by auto
  qed (use thread_list_head[OF tl] in simp)
qed

lemma listed_join_node:
  assumes "listed P r (Suc k)"
  obtains r' where "join_node (started r ! k) r = Inr r'" "listed P r' k"
    "started r' = started r" "join_fn r' = join_fn r" "joined r' = joined r @ [started r ! k]"
proof -
  let ?as = "started r" and ?t = "started r ! k"
  from assms have le: "k < length ?as" and d: "distinct ?as" and j: "joined r = rev (drop (Suc k) ?as)"
    by (simp_all add: listed_def)
  with assms have tl: "thread_list 1 r (take k ?as @ [?t])"
    by (simp add: listed_def take_Suc_conv_app_nth)
  from thread_list_snocE[OF tl, where js = "joined r @ [?t]"] obtain nd where
    nd: "nodes r ?t = Some nd" and tl': "thread_list 1 (r\<lparr>joined := joined r @ [?t],
      nodes := (nodes r)(?t := None), threads := th_next nd\<rparr>) (take k ?as)" by blast
  let ?r = "r\<lparr>joined := joined r @ [?t], nodes := (nodes r)(?t := None), threads := th_next nd\<rparr>"
  have "entry_all (?as ! i) ?r = Inr (p_start P, 1 + int i)" if "i < k" for i
    using assms that d le nth_eq_iff_index_eq[OF d, of i k]
    by (auto simp: listed_def entry_all_def)
  moreover have "rev (drop (Suc k) ?as) @ [?t] = rev (drop k ?as)"
    using le by (simp add: Cons_nth_drop_Suc[symmetric])
  ultimately have "listed P ?r k" using tl' le d j by (simp add: listed_def)
  with nd show ?thesis by (auto simp: join_node_def intro: that)
qed

lemma listed_unjoined:
  assumes "listed P r j" and "k < length (started r)" and "started r ! k \<notin> set (joined r)"
  shows "k < j"
proof (rule ccontr)
  assume "\<not> k < j"
  with assms(2) have "drop j (started r) ! (k - j) = started r ! k" "k - j < length (drop j (started r))"
    by auto
  then have "started r ! k \<in> set (drop j (started r))" by (metis nth_mem)
  with assms(1,3) show False by (simp add: listed_def)
qed

lemma listed_joined_ended:
  assumes "listed P r k" and "a \<in> set (started r)" and "entry_all a r = Inl e"
  shows "a \<in> set (joined r)"
proof (rule ccontr)
  assume n: "a \<notin> set (joined r)"
  from assms(2) obtain j where j: "j < length (started r)" "a = started r ! j"
    by (auto simp: in_set_conv_nth)
  with listed_unjoined[OF assms(1)] n have "j < k" by simp
  with assms(1,3) j show False by (auto simp: listed_def)
qed

lemma view_create:
  assumes "started r' = started (ts_rt s) @ [a]" and "ts_loc s a = None"
  shows "view (s\<lparr>ts_main := m, ts_rt := r'\<rparr>) = view s"
  by (rule ext) (use assms in \<open>auto simp: view_def nth_append less_Suc_eq\<close>)

lemma view_rt [simp]:
  assumes "started r' = started (ts_rt s)"
  shows "view (s\<lparr>ts_rt := r'\<rparr>) = view s"
  by (rule ext) (use assms in \<open>auto simp: view_def\<close>)

lemma join_simps [simp]:
  "started (join f r) = started r" "joined (join f r) = joined r" "join_fn (join f r) = f"
  by (simp_all add: join_def)

lemma view_join: "view (s\<lparr>ts_main := m, ts_rt := join f (ts_rt s)\<rparr>) = view s"
  by (simp add: view_def fun_eq_iff)

lemma view_other [simp]:
  "view (s\<lparr>ts_main := m\<rparr>) = view s" "view (s\<lparr>ts_out := x\<rparr>) = view s"
  "view (s\<lparr>ts_shared := g\<rparr>) = view s"
  by (simp_all add: view_def fun_eq_iff)

lemma view_loc:
  assumes "distinct (started (ts_rt s))" and "k < length (started (ts_rt s))"
  shows "view (s\<lparr>ts_loc := (ts_loc s)(started (ts_rt s) ! k \<mapsto> l)\<rparr>) = (view s)(k \<mapsto> l)"
  by (rule ext) (use assms in \<open>auto simp: view_def nth_eq_iff_index_eq\<close>)

section \<open>The contract of a thread's body\<close>

definition runtime_ok :: "('l, 'g, 'o) program \<Rightarrow> ('l, 'g, 'o) tsys \<Rightarrow> bool" where
  "runtime_ok P s =
     (case ts_main s of
        Creating i \<Rightarrow> listed P (ts_rt s) i \<and> length (started (ts_rt s)) = i \<and> i \<le> p_count P
      | Joining \<Rightarrow> (\<exists>k. listed P (ts_rt s) k) \<and> length (started (ts_rt s)) = p_count P \<and>
          join_fn (ts_rt s) = p_final P
      | Exited \<Rightarrow> listed P (ts_rt s) 0 \<and> length (started (ts_rt s)) = p_count P
      | Failed e \<Rightarrow> e = AssertFailed)"

definition locals_ok :: "('l, 'g, 'o) program \<Rightarrow> ('l, 'g, 'o) tsys \<Rightarrow> bool" where
  "locals_ok P s \<longleftrightarrow> dom (ts_loc s) \<subseteq> set (started (ts_rt s)) \<and>
     (\<forall>a \<in> set (joined (ts_rt s)). \<exists>l. ts_loc s a = Some l \<and> p_ended P l)"

definition closing :: "('l, 'g, 'o) program \<Rightarrow> 'g \<Rightarrow> 'o list" where
  "closing P g = (case p_final P of None \<Rightarrow> [] | Some f \<Rightarrow> f g)"

definition final_output :: "('l, 'g, 'o) program \<Rightarrow> ('l, 'g, 'o) tsys \<Rightarrow> 'o list" where
  "final_output P s = (if ts_main s = Exited then closing P (ts_shared s) else [])"

locale thread_prog =
  fixes P :: "('l, 'g, 'o) program"
    and J :: "(nat \<Rightarrow> 'l option) \<Rightarrow> 'g \<Rightarrow> 'o list \<Rightarrow> bool"
  assumes few: "int (p_count P) < 2 ^ 31"
    and J_init: "J Map.empty (p_shared P) []"
    and J_begin: "\<lbrakk> J L g out; k < p_count P; L k = None \<rbrakk> \<Longrightarrow> J (L(k \<mapsto> p_start P (1 + int k))) g out"
    and J_run: "\<lbrakk> J L g out; k < p_count P; L k = Some l; \<not> p_ended P l;
        p_body P l g = (l', g', o') \<rbrakk> \<Longrightarrow> J (L(k \<mapsto> l')) g' (out @ o')"
begin

definition prog_inv :: "('l, 'g, 'o) tsys \<Rightarrow> bool" where
  "prog_inv s \<longleftrightarrow> runtime_ok P s \<and> locals_ok P s \<and>
     (\<exists>out. J (view s) (ts_shared s) out \<and> ts_out s = out @ final_output P s)"

lemma running_listed:
  assumes "runtime_ok P s" and "running s"
  obtains k where "listed P (ts_rt s) k" "length (started (ts_rt s)) \<le> p_count P"
  using assms by (auto simp: runtime_ok_def running_def split: main_pc.splits)

lemma running_no_final: "running s \<Longrightarrow> final_output P s = []"
  by (auto simp: running_def final_output_def)

lemma started_index:
  assumes "runtime_ok P s" and "running s" and "a \<in> set (started (ts_rt s))"
  obtains k where "k < p_count P" "k < length (started (ts_rt s))" "a = started (ts_rt s) ! k"
    "distinct (started (ts_rt s))" "view s k = ts_loc s a"
    "\<And>l. view (s\<lparr>ts_loc := (ts_loc s)(a \<mapsto> l)\<rparr>) = (view s)(k \<mapsto> l)"
proof -
  from running_listed[OF assms(1,2)] obtain j where j: "listed P (ts_rt s) j"
    "length (started (ts_rt s)) \<le> p_count P" by blast
  from assms(3) obtain k where "k < length (started (ts_rt s))" "a = started (ts_rt s) ! k"
    by (auto simp: in_set_conv_nth)
  with j show ?thesis by (intro that[of k]) (auto simp: listed_def view_def view_loc)
qed

lemma prog_inv_init: "prog_inv (prog_init P)"
proof -
  have "view (prog_init P) = Map.empty" by (simp add: view_def prog_init_def fun_eq_iff)
  with J_init show ?thesis
    by (auto simp: prog_inv_def runtime_ok_def locals_ok_def final_output_def prog_init_def)
qed

lemma create_index:
  assumes inv: "prog_inv s" and pc: "ts_main s = Creating i" "i < p_count P"
    and m: "fresh_or_null (ts_rt s) m" and c: "create m (p_start P) (ts_rt s) = Inr r"
  obtains a where "listed P r (Suc i)" "started r = started (ts_rt s) @ [a]"
    "length (started (ts_rt s)) = i" "joined r = []" "joined (ts_rt s) = []"
    "view (s\<lparr>ts_main := Creating (Suc i), ts_rt := r\<rparr>) = view s"
proof -
  from c obtain a where a: "m = Some a" by (cases m) (auto simp: create_def push_thread_def)
  from inv pc have l: "listed P (ts_rt s) (length (started (ts_rt s)))"
    and i: "length (started (ts_rt s)) = i"
    by (auto simp: prog_inv_def runtime_ok_def)
  have small: "1 + int (length (started (ts_rt s))) < 2 ^ 31" using few pc(2) i by simp
  from m a have "nodes (ts_rt s) a = None" by (simp add: fresh_or_null_def)
  from listed_create[OF l this small] c a have r: "listed P r (Suc i)"
    "started r = started (ts_rt s) @ [a]" "a \<notin> set (started (ts_rt s))" using i by (metis Inr_inject)+
  from inv r have "ts_loc s a = None" by (auto simp: prog_inv_def locals_ok_def)
  from that[OF r(1,2) i _ _ view_create[OF r(2) this]] r l i show ?thesis
    by (auto simp: listed_def)
qed

lemma create_kept:
  assumes inv: "prog_inv s" and pc: "ts_main s = Creating i" "i < p_count P"
    and "fresh_or_null (ts_rt s) m" and "create m (p_start P) (ts_rt s) = Inr r"
  shows "prog_inv (s\<lparr>ts_main := Creating (Suc i), ts_rt := r\<rparr>)"
proof -
  obtain a where "listed P r (Suc i)" "started r = started (ts_rt s) @ [a]"
    "length (started (ts_rt s)) = i" "joined r = []" "joined (ts_rt s) = []"
    "view (s\<lparr>ts_main := Creating (Suc i), ts_rt := r\<rparr>) = view s"
    by (rule create_index[OF assms])
  with inv pc show ?thesis
    by (auto simp: prog_inv_def runtime_ok_def locals_ok_def final_output_def)
qed

lemma create_fails_only_malloc:
  assumes inv: "prog_inv s" and pc: "ts_main s = Creating i" "i < p_count P"
    and m: "fresh_or_null (ts_rt s) m" and c: "create m (p_start P) (ts_rt s) = Inl e"
  shows "e = AssertFailed"
proof (cases m)
  case None
  with c show ?thesis by (simp add: create_def push_thread_def)
next
  case (Some a)
  from inv pc have l: "listed P (ts_rt s) (length (started (ts_rt s)))"
    and i: "length (started (ts_rt s)) = i"
    by (auto simp: prog_inv_def runtime_ok_def)
  have small: "1 + int (length (started (ts_rt s))) < 2 ^ 31" using few pc(2) i by simp
  from m Some have "nodes (ts_rt s) a = None" by (simp add: fresh_or_null_def)
  from listed_create[OF l this small] c Some show ?thesis by auto
qed

lemma join_cases:
  assumes inv: "prog_inv s" and pc: "ts_main s = Joining" and t: "threads (ts_rt s) = Some t"
  obtains k r where "listed P (ts_rt s) (Suc k)" "t = started (ts_rt s) ! k" "k < p_count P"
    "join_node t (ts_rt s) = Inr r" "listed P r k" "started r = started (ts_rt s)"
    "join_fn r = join_fn (ts_rt s)" "joined r = joined (ts_rt s) @ [t]"
proof -
  from inv pc obtain j where j: "listed P (ts_rt s) j" and n: "length (started (ts_rt s)) = p_count P"
    by (auto simp: prog_inv_def runtime_ok_def)
  from listed_threads[OF j] t obtain k where k: "j = Suc k" "t = started (ts_rt s) ! k"
    by (cases j) auto
  from j n k(1) have "k < p_count P" by (simp add: listed_def)
  from j k(1) have l: "listed P (ts_rt s) (Suc k)" by simp
  obtain r where "join_node (started (ts_rt s) ! k) (ts_rt s) = Inr r" "listed P r k"
    "started r = started (ts_rt s)" "join_fn r = join_fn (ts_rt s)"
    "joined r = joined (ts_rt s) @ [started (ts_rt s) ! k]"
    by (rule listed_join_node[OF l])
  with l k \<open>k < p_count P\<close> show ?thesis by (intro that) auto
qed

lemma join_kept:
  assumes inv: "prog_inv s" and pc: "ts_main s = Joining" and t: "threads (ts_rt s) = Some t"
    and e: "ts_loc s t = Some l" "p_ended P l" and r: "join_node t (ts_rt s) = Inr r"
  shows "prog_inv (s\<lparr>ts_rt := r\<rparr>)"
proof -
  obtain k r' where "join_node t (ts_rt s) = Inr r'" and r': "listed P r' k"
    "started r' = started (ts_rt s)" "join_fn r' = join_fn (ts_rt s)"
    "joined r' = joined (ts_rt s) @ [t]"
    by (rule join_cases[OF inv pc t])
  with r have eq: "r' = r" by simp
  from r'(2) eq have v: "view (s\<lparr>ts_rt := r\<rparr>) = view s" by simp
  from inv r' eq pc e v show ?thesis
    by (auto simp: prog_inv_def runtime_ok_def locals_ok_def final_output_def)
qed

lemma exit_kept:
  assumes inv: "prog_inv s" and pc: "ts_main s = Joining" and t: "threads (ts_rt s) = None"
  shows "prog_inv (s\<lparr>ts_main := Exited, ts_out := ts_out s @
    (case join_fn (ts_rt s) of None \<Rightarrow> [] | Some f \<Rightarrow> f (ts_shared s))\<rparr>)"
proof -
  from inv pc obtain k where k: "listed P (ts_rt s) k"
    by (auto simp: prog_inv_def runtime_ok_def)
  with listed_threads[OF k] t have l: "listed P (ts_rt s) 0" by (auto split: if_splits)
  from inv pc obtain out where o: "J (view s) (ts_shared s) out" "ts_out s = out"
    and ok: "length (started (ts_rt s)) = p_count P" "join_fn (ts_rt s) = p_final P" "locals_ok P s"
    by (auto simp: prog_inv_def runtime_ok_def final_output_def)
  with l show ?thesis
    unfolding prog_inv_def by (intro conjI exI[of _ out]) (simp_all add: runtime_ok_def locals_ok_def final_output_def closing_def split: option.split)
qed

lemma begin_index:
  assumes inv: "prog_inv s" and run: "running s" and a: "a \<in> set (started (ts_rt s))"
    and n: "ts_loc s a = None" and f: "entry_all a (ts_rt s) = Inr (f, i)"
  obtains k where "k < p_count P" "view s k = None" "f i = p_start P (1 + int k)"
    "view (s\<lparr>ts_loc := (ts_loc s)(a \<mapsto> f i)\<rparr>) = (view s)(k \<mapsto> f i)"
proof -
  from inv have ok: "runtime_ok P s" by (simp add: prog_inv_def)
  from started_index[OF ok run a] obtain k where k: "k < p_count P"
    "k < length (started (ts_rt s))" "a = started (ts_rt s) ! k" "view s k = ts_loc s a"
    "view (s\<lparr>ts_loc := (ts_loc s)(a \<mapsto> f i)\<rparr>) = (view s)(k \<mapsto> f i)" by metis
  from running_listed[OF ok run] obtain j where j: "listed P (ts_rt s) j" by blast
  have "a \<notin> set (joined (ts_rt s))" using inv n by (auto simp: prog_inv_def locals_ok_def)
  with listed_unjoined[OF j] k have "k < j" by auto
  with j k f have "f i = p_start P (1 + int k)" by (auto simp: listed_def)
  with k n show ?thesis by (intro that) auto
qed

lemma begin_kept:
  assumes inv: "prog_inv s" and run: "running s" and a: "a \<in> set (started (ts_rt s))"
    and n: "ts_loc s a = None" and f: "entry_all a (ts_rt s) = Inr (f, i)"
  shows "prog_inv (s\<lparr>ts_loc := (ts_loc s)(a \<mapsto> f i)\<rparr>)"
proof -
  obtain k where k: "k < p_count P" "view s k = None" "f i = p_start P (1 + int k)"
    "view (s\<lparr>ts_loc := (ts_loc s)(a \<mapsto> f i)\<rparr>) = (view s)(k \<mapsto> f i)"
    by (rule begin_index[OF assms])
  from inv obtain out where o: "J (view s) (ts_shared s) out" "ts_out s = out"
    using running_no_final[OF run] by (auto simp: prog_inv_def)
  from J_begin[OF o(1) k(1,2)] k(3)
  have "J ((view s)(k \<mapsto> f i)) (ts_shared s) out" by simp
  moreover have "running (s\<lparr>ts_loc := (ts_loc s)(a \<mapsto> f i)\<rparr>)" using run by (simp add: running_def)
  ultimately show ?thesis using inv o k(4) running_no_final a n
    by (fastforce simp: prog_inv_def runtime_ok_def locals_ok_def split: main_pc.splits)
qed

lemma run_index:
  assumes inv: "prog_inv s" and run: "running s" and l: "ts_loc s a = Some l"
  obtains k where "k < p_count P" "view s k = Some l" "a \<in> set (started (ts_rt s))"
    "view (s\<lparr>ts_loc := (ts_loc s)(a \<mapsto> l'), ts_shared := g', ts_out := out\<rparr>) = (view s)(k \<mapsto> l')"
proof -
  from inv have ok: "runtime_ok P s" by (simp add: prog_inv_def)
  from inv l have a: "a \<in> set (started (ts_rt s))" by (auto simp: prog_inv_def locals_ok_def)
  from started_index[OF ok run a] obtain k where k: "k < p_count P" "view s k = ts_loc s a"
    "\<And>l'. view (s\<lparr>ts_loc := (ts_loc s)(a \<mapsto> l')\<rparr>) = (view s)(k \<mapsto> l')" by metis
  then have "view (s\<lparr>ts_loc := (ts_loc s)(a \<mapsto> l'), ts_shared := g', ts_out := out\<rparr>) = (view s)(k \<mapsto> l')"
    by (simp add: view_def fun_eq_iff)
  with k a l show ?thesis by (intro that) auto
qed

lemma run_kept:
  assumes inv: "prog_inv s" and run: "running s" and l: "ts_loc s a = Some l" "\<not> p_ended P l"
    and b: "p_body P l (ts_shared s) = (l', g', out')"
  shows "prog_inv (s\<lparr>ts_loc := (ts_loc s)(a \<mapsto> l'), ts_shared := g', ts_out := ts_out s @ out'\<rparr>)"
    (is "prog_inv ?s")
proof -
  from inv have ok: "runtime_ok P s" by (simp add: prog_inv_def)
  obtain k where k: "k < p_count P" "view s k = Some l" "a \<in> set (started (ts_rt s))"
    "view ?s = (view s)(k \<mapsto> l')"
    by (rule run_index[OF inv run l(1)])
  from inv obtain out where o: "J (view s) (ts_shared s) out" "ts_out s = out"
    using running_no_final[OF run] by (auto simp: prog_inv_def)
  from J_run[OF o(1) k(1,2) l(2) b] have "J ((view s)(k \<mapsto> l')) g' (out @ out')" .
  moreover have "running ?s" using run by (simp add: running_def)
  moreover have "runtime_ok P ?s" using ok by (auto simp: runtime_ok_def split: main_pc.splits)
  moreover have "locals_ok P ?s"
    using inv k l by (auto simp: prog_inv_def locals_ok_def)
  ultimately show ?thesis using o k(4) running_no_final[of ?s] by (simp add: prog_inv_def)
qed

lemma begin_never_fails:
  assumes inv: "prog_inv s" and run: "running s" and a: "a \<in> set (started (ts_rt s))"
    and n: "ts_loc s a = None"
  shows "entry_all a (ts_rt s) \<noteq> Inl e"
proof
  assume "entry_all a (ts_rt s) = Inl e"
  moreover obtain k where "listed P (ts_rt s) k"
    using running_listed inv run by (auto simp: prog_inv_def)
  ultimately have "a \<in> set (joined (ts_rt s))" using listed_joined_ended a by blast
  with inv n show False by (auto simp: prog_inv_def locals_ok_def)
qed

lemma prog_inv_step:
  assumes inv: "prog_inv s" and step: "prog_step P s t"
  shows "prog_inv t"
  using step
proof cases
  case (step_create i m r)
  with inv create_kept show ?thesis by blast
next
  case (step_create_fails i m e)
  with inv create_fails_only_malloc have "e = AssertFailed" by blast
  with step_create_fails inv show ?thesis
    by (auto simp: prog_inv_def runtime_ok_def locals_ok_def final_output_def)
next
  case step_return
  with inv show ?thesis
    by (auto simp: prog_inv_def runtime_ok_def locals_ok_def final_output_def view_join)
next
  case (step_join t l r)
  with inv join_kept show ?thesis by blast
next
  case (step_join_fails t e)
  with join_cases[OF inv] show ?thesis by fastforce
next
  case step_exit
  with inv exit_kept show ?thesis by blast
next
  case (step_begin a f i)
  with inv begin_kept show ?thesis by blast
next
  case (step_begin_fails a e)
  with inv begin_never_fails show ?thesis by blast
next
  case (step_run a l l' g' out)
  with inv run_kept show ?thesis by blast
qed

end

sublocale thread_prog \<subseteq> runs: inductive_invariant "\<lambda>s. s = prog_init P" "prog_step P" prog_inv
  by unfold_locales (auto intro: prog_inv_init prog_inv_step)

context thread_prog
begin

text \<open>Only a failed \<open>malloc\<close> stops the program early: no step uses a freed node.\<close>

lemma fails_only_malloc: "prog_states P s \<Longrightarrow> ts_main s = Failed e \<Longrightarrow> e = AssertFailed"
  using runs.reachable_inv by (fastforce simp: prog_inv_def runtime_ok_def)

lemma output_before_exit:
  "prog_states P s \<Longrightarrow> ts_main s \<noteq> Exited \<Longrightarrow> J (view s) (ts_shared s) (ts_out s)"
  using runs.reachable_inv by (fastforce simp: prog_inv_def final_output_def)

text \<open>At exit every thread has ended, and the registered function has printed last.\<close>

lemma output_at_exit:
  assumes "prog_states P s" and pc: "ts_main s = Exited"
  obtains L out where "J L (ts_shared s) out"
    "ts_out s = out @ closing P (ts_shared s)"
    "\<And>k. k < p_count P \<Longrightarrow> \<exists>l. L k = Some l \<and> p_ended P l" "\<And>k. \<not> k < p_count P \<Longrightarrow> L k = None"
proof -
  from runs.reachable_inv[OF assms(1)] have inv: "prog_inv s" .
  with pc have l: "listed P (ts_rt s) 0" "length (started (ts_rt s)) = p_count P" "locals_ok P s"
    by (auto simp: prog_inv_def runtime_ok_def)
  then have j: "set (joined (ts_rt s)) = set (started (ts_rt s))" by (simp add: listed_def)
  have "\<exists>l. view s k = Some l \<and> p_ended P l" if "k < p_count P" for k
    using l j that by (auto simp: view_def locals_ok_def)
  moreover have "view s k = None" if "\<not> k < p_count P" for k
    using l that by (simp add: view_def)
  ultimately show ?thesis using inv pc that by (auto simp: prog_inv_def final_output_def)
qed

text \<open>While \<open>main\<close> or \<open>join_all\<close> is at work, some step is possible.\<close>

lemma joining_progress:
  assumes inv: "prog_inv s" and pc: "ts_main s = Joining"
  shows "\<exists>t. prog_step P s t"
proof (cases "threads (ts_rt s)")
  case None
  with step_exit[OF pc] show ?thesis by blast
next
  case (Some t)
  have run: "running s" using pc by (simp add: running_def)
  obtain k r where k: "t = started (ts_rt s) ! k" "listed P (ts_rt s) (Suc k)"
    "join_node t (ts_rt s) = Inr r"
    using join_cases[OF inv pc Some] by metis
  show ?thesis
  proof (cases "ts_loc s t")
    case None
    have "t \<in> set (started (ts_rt s))" using k by (auto simp: listed_def)
    moreover obtain f i where "entry_all t (ts_rt s) = Inr (f, i)"
      using k by (auto simp: listed_def)
    ultimately show ?thesis using step_begin[OF run _ None] by blast
  next
    case l: (Some l)
    show ?thesis
    proof (cases "p_ended P l")
      case True
      with step_join[OF pc Some l] k show ?thesis by blast
    next
      case False
      obtain l' g' out where "p_body P l (ts_shared s) = (l', g', out)" by (metis prod_cases3)
      with step_run[OF run l False] show ?thesis by blast
    qed
  qed
qed

lemma progress:
  assumes "prog_states P s" and "running s"
  shows "\<exists>t. prog_step P s t"
proof (cases "ts_main s")
  case (Creating i)
  with runs.reachable_inv[OF assms(1)] have "i \<le> p_count P" by (auto simp: prog_inv_def runtime_ok_def)
  then show ?thesis
  proof (cases "i = p_count P")
    case True
    with Creating step_return show ?thesis by blast
  next
    case False
    with \<open>i \<le> p_count P\<close> have "i < p_count P" by simp
    with step_create_fails[OF Creating, of _ None AssertFailed] show ?thesis
      by (auto simp: fresh_or_null_def create_def push_thread_def)
  qed
next
  case Joining
  with joining_progress runs.reachable_inv[OF assms(1)] show ?thesis by blast
qed (use assms(2) in \<open>auto simp: running_def\<close>)

end

section \<open>Programs whose threads end\<close>

definition weights :: "nat \<Rightarrow> ('l option \<Rightarrow> nat) \<Rightarrow> (nat \<Rightarrow> 'l option) \<Rightarrow> nat" where
  "weights n w L = (\<Sum>k<n. w (L k))"

lemma weights_upd:
  assumes "k < n"
  shows "weights n w (L(k \<mapsto> l)) + w (L k) = weights n w L + w (Some l)"
proof -
  have *: "weights n w M = w (M k) + (\<Sum>j \<in> {..<n} - {k}. w (M j))" for M :: "nat \<Rightarrow> 'a option"
    unfolding weights_def using assms by (subst sum.remove[of _ k]) auto
  have "(\<Sum>j \<in> {..<n} - {k}. w ((L(k \<mapsto> l)) j)) = (\<Sum>j \<in> {..<n} - {k}. w (L j))"
    by (rule sum.cong) auto
  with *[of "L(k \<mapsto> l)"] *[of L] show ?thesis by simp
qed

definition main_work :: "('l, 'g, 'o) program \<Rightarrow> ('l, 'g, 'o) tsys \<Rightarrow> nat" where
  "main_work P s =
     (case ts_main s of
        Creating i \<Rightarrow> (p_count P - i) + p_count P + 2
      | Joining \<Rightarrow> Suc (p_count P - length (joined (ts_rt s)))
      | _ \<Rightarrow> 0)"

lemma main_work_thread [simp]:
  "main_work P (s\<lparr>ts_loc := L\<rparr>) = main_work P s"
  "main_work P (s\<lparr>ts_loc := L, ts_shared := g, ts_out := out\<rparr>) = main_work P s"
  by (simp_all add: main_work_def split: main_pc.split)

text \<open>
  No run has more than \<open>B\<close> steps, and a run that cannot go on has exited or met a failed
  \<open>malloc\<close> in \<open>create\<close>.
\<close>

definition ends_within :: "('l, 'g, 'o) program \<Rightarrow> nat \<Rightarrow> bool" where
  "ends_within P B \<longleftrightarrow>
     (\<forall>m t. (prog_step P ^^ m) (prog_init P) t \<longrightarrow> m \<le> B) \<and>
     (\<forall>s. prog_states P s \<and> \<not> (\<exists>t. prog_step P s t) \<longrightarrow>
        ts_main s = Exited \<or> ts_main s = Failed AssertFailed)"

locale ending_prog = thread_prog P J
  for P :: "('l, 'g, 'o) program" and J :: "(nat \<Rightarrow> 'l option) \<Rightarrow> 'g \<Rightarrow> 'o list \<Rightarrow> bool" +
  fixes \<nu> :: "'l \<Rightarrow> nat" and \<sigma> :: "'g \<Rightarrow> nat" and W :: nat
  assumes start_work: "k < p_count P \<Longrightarrow> \<nu> (p_start P (1 + int k)) \<le> W"
    and body_work: "\<not> p_ended P l \<Longrightarrow> p_body P l g = (l', g', o') \<Longrightarrow> \<nu> l' + \<sigma> g' < \<nu> l + \<sigma> g"
begin

definition thread_work :: "'l option \<Rightarrow> nat" where
  "thread_work x = (case x of None \<Rightarrow> Suc W | Some l \<Rightarrow> \<nu> l)"

definition work :: "('l, 'g, 'o) tsys \<Rightarrow> nat" where
  "work s = main_work P s + weights (p_count P) thread_work (view s) + \<sigma> (ts_shared s)"

lemma view_work:
  assumes k: "k < p_count P" and v: "view t = (view s)(k \<mapsto> l)"
    and "thread_work (Some l) + \<sigma> (ts_shared t) < thread_work (view s k) + \<sigma> (ts_shared s)"
    and "main_work P t = main_work P s"
  shows "work t < work s"
  using weights_upd[OF k, of thread_work "view s" l] assms by (simp add: work_def)

lemma main_work_less:
  assumes "main_work P t < main_work P s" and "view t = view s" and "ts_shared t = ts_shared s"
  shows "work t < work s"
  using assms by (simp add: work_def)

lemma step_work:
  assumes inv: "prog_inv s" and step: "prog_step P s t"
  shows "work t < work s"
  using step
proof cases
  case (step_create i m r)
  from create_index[OF inv step_create(2,3,4,5)] have "view t = view s"
    unfolding step_create(1) by metis
  with step_create show ?thesis by (intro main_work_less) (auto simp: main_work_def)
next
  case step_return
  then show ?thesis by (intro main_work_less) (auto simp: main_work_def view_join)
next
  case (step_join u l r)
  obtain k r' where k: "listed P (ts_rt s) (Suc k)" "join_node u (ts_rt s) = Inr r'"
    "started r' = started (ts_rt s)" "joined r' = joined (ts_rt s) @ [u]"
    using join_cases[OF inv step_join(2,3)] by metis
  from inv step_join have "length (started (ts_rt s)) = p_count P"
    by (auto simp: prog_inv_def runtime_ok_def)
  with k(1) have "length (joined (ts_rt s)) < p_count P" by (auto simp: listed_def)
  with k step_join show ?thesis by (intro main_work_less) (auto simp: main_work_def)
next
  case (step_begin a f i)
  obtain k where "k < p_count P" "view s k = None" "f i = p_start P (1 + int k)"
    "view t = (view s)(k \<mapsto> f i)"
    unfolding step_begin(1) by (rule begin_index[OF inv step_begin(2-5)])
  with start_work[of k] step_begin(1) show ?thesis
    by (intro view_work) (auto simp: thread_work_def)
next
  case (step_run a l l' g' out)
  obtain k where "k < p_count P" "view s k = Some l" "view t = (view s)(k \<mapsto> l')"
    unfolding step_run(1) by (rule run_index[OF inv step_run(2,3)])
  with body_work[OF step_run(4,5)] step_run(1) show ?thesis
    by (intro view_work) (auto simp: thread_work_def)
next
  case step_exit
  then show ?thesis by (intro main_work_less) (simp_all add: main_work_def)
next
  case (step_create_fails i m e)
  then show ?thesis by (intro main_work_less) (simp_all add: main_work_def)
next
  case (step_join_fails u e)
  then show ?thesis by (intro main_work_less) (simp_all add: main_work_def)
next
  case (step_begin_fails a e)
  with inv begin_never_fails show ?thesis by blast
qed

lemma run_length:
  assumes "prog_inv s" and "(prog_step P ^^ m) s t"
  shows "m + work t \<le> work s"
  using assms
proof (induction m arbitrary: s)
  case (Suc m)
  from Suc.prems(2) obtain u where u: "prog_step P s u" "(prog_step P ^^ m) u t"
    by (blast dest: relpowp_Suc_D2)
  from Suc.IH[OF prog_inv_step[OF Suc.prems(1) u(1)] u(2)] step_work[OF Suc.prems(1) u(1)]
  show ?case by simp
qed simp

text \<open>Every run has at most this many steps.\<close>

lemma run_bound:
  assumes "(prog_step P ^^ m) (prog_init P) t"
  shows "m \<le> 2 * p_count P + 2 + p_count P * Suc W + \<sigma> (p_shared P)"
proof -
  have "view (prog_init P) = Map.empty" by (simp add: view_def prog_init_def fun_eq_iff)
  then have "work (prog_init P) = 2 * p_count P + 2 + p_count P * Suc W + \<sigma> (p_shared P)"
    by (simp add: work_def main_work_def weights_def thread_work_def prog_init_def)
  with run_length[OF prog_inv_init assms] show ?thesis by simp
qed

text \<open>A run ends in the exit of the program, or because \<open>malloc\<close> failed.\<close>

lemma run_ends: "ends_within P (2 * p_count P + 2 + p_count P * Suc W + \<sigma> (p_shared P))"
  unfolding ends_within_def
proof (intro conjI allI impI)
  fix s
  assume s: "prog_states P s \<and> \<not> (\<exists>t. prog_step P s t)"
  with progress[of s] have "\<not> running s" by auto
  then have "ts_main s = Exited \<or> (\<exists>e. ts_main s = Failed e)"
    by (auto simp: running_def split: main_pc.splits)
  then show "ts_main s = Exited \<or> ts_main s = Failed AssertFailed"
    using fails_only_malloc s by blast
qed (use run_bound in blast)

end

section \<open>Runs that exist\<close>

text \<open>
  What a chosen order of the threads' steps computes, on the local states, the shared variables
  and the output alone: \<open>sched\<close> lets the threads of a list take one step each, in that order. A
  run of the program follows any such order once all threads have started, and exits when they
  have all ended.
\<close>

fun sched_step :: "('l, 'g, 'o) program \<Rightarrow> nat \<Rightarrow> (nat \<Rightarrow> 'l option) \<times> 'g \<times> 'o list \<Rightarrow>
    (nat \<Rightarrow> 'l option) \<times> 'g \<times> 'o list" where
  "sched_step P k (L, g, out) =
     (case L k of
        None \<Rightarrow> (L, g, out)
      | Some l \<Rightarrow>
          if p_ended P l then (L, g, out)
          else (case p_body P l g of (l', g', o') \<Rightarrow> (L(k \<mapsto> l'), g', out @ o')))"

definition sched :: "('l, 'g, 'o) program \<Rightarrow> nat list \<Rightarrow> (nat \<Rightarrow> 'l option) \<times> 'g \<times> 'o list \<Rightarrow>
    (nat \<Rightarrow> 'l option) \<times> 'g \<times> 'o list" where
  "sched P ks c = fold (sched_step P) ks c"

lemma sched_simps [simp]:
  "sched P [] c = c" "sched P (k # ks) c = sched P ks (sched_step P k c)"
  "sched P (ks @ ks') c = sched P ks' (sched P ks c)"
  by (simp_all add: sched_def)

definition runs_to ::
  "('l, 'g, 'o) program \<Rightarrow> (nat \<Rightarrow> 'l option) \<times> 'g \<times> 'o list \<Rightarrow>
     (nat \<Rightarrow> 'l option) \<times> 'g \<times> 'o list \<Rightarrow> bool" where
  "runs_to P c c' \<longleftrightarrow> (\<exists>ks. sched P ks c = c')"

lemma runs_to_refl: "runs_to P c c"
  unfolding runs_to_def by (intro exI[of _ "[]"]) simp

lemma runs_to_step: "sched_step P k c = c' \<Longrightarrow> runs_to P c c'"
  unfolding runs_to_def by (intro exI[of _ "[k]"]) simp

lemma runs_to_trans [trans]: "runs_to P c c' \<Longrightarrow> runs_to P c' c'' \<Longrightarrow> runs_to P c c''"
  unfolding runs_to_def by (metis sched_simps(3))

definition all_begun :: "('l, 'g, 'o) program \<Rightarrow> nat \<Rightarrow> 'l option" where
  "all_begun P k = (if k < p_count P then Some (p_start P (1 + int k)) else None)"

definition config :: "('l, 'g, 'o) tsys \<Rightarrow> (nat \<Rightarrow> 'l option) \<times> 'g \<times> 'o list" where
  "config s = (view s, ts_shared s, ts_out s)"

context thread_prog
begin

lemma fresh_exists:
  assumes "listed P r k"
  shows "\<exists>a. nodes r a = None"
proof -
  from assms have "finite (dom (nodes r))" by (auto simp: listed_def thread_list_def)
  with infinite_UNIV_nat show ?thesis by (metis domI ex_new_if_finite option.exhaust)
qed

lemma created_reachable:
  "i \<le> p_count P \<Longrightarrow> \<exists>s. prog_states P s \<and> ts_main s = Creating i \<and> config s = (Map.empty, p_shared P, [])"
proof (induction i)
  case 0
  have "config (prog_init P) = (Map.empty, p_shared P, [])"
    by (simp add: config_def view_def prog_init_def fun_eq_iff)
  moreover have "ts_main (prog_init P) = Creating 0" by (simp add: prog_init_def)
  ultimately show ?case using reach_init by metis
next
  case (Suc i)
  then obtain s where s: "prog_states P s" "ts_main s = Creating i"
    "config s = (Map.empty, p_shared P, [])" by auto
  from runs.reachable_inv[OF s(1)] have inv: "prog_inv s" .
  with s(2) have l: "listed P (ts_rt s) (length (started (ts_rt s)))"
    and i: "length (started (ts_rt s)) = i" by (auto simp: prog_inv_def runtime_ok_def)
  from fresh_exists[OF l] obtain a where a: "nodes (ts_rt s) a = None" by blast
  have small: "1 + int (length (started (ts_rt s))) < 2 ^ 31" using few Suc.prems i by simp
  from listed_create[OF l a small] obtain r where r: "create (Some a) (p_start P) (ts_rt s) = Inr r"
    by blast
  let ?t = "s\<lparr>ts_main := Creating (Suc i), ts_rt := r\<rparr>"
  have m: "i < p_count P" "fresh_or_null (ts_rt s) (Some a)"
    using Suc.prems a by (simp_all add: fresh_or_null_def)
  from create_index[OF inv s(2) m r] have "view ?t = view s" by metis
  then have "config ?t = config s" by (simp add: config_def)
  moreover from step_create[OF s(2) m r] s(1) have "prog_states P ?t" by (blast intro: reach_step)
  ultimately show ?case using s(3) by (intro exI[of _ ?t]) simp
qed

lemma begin_reachable:
  assumes s: "prog_states P s" "ts_main s = Joining" and k: "k < p_count P" "view s k = None"
  shows "\<exists>t. prog_states P t \<and> ts_main t = Joining \<and>
    config t = ((view s)(k \<mapsto> p_start P (1 + int k)), ts_shared s, ts_out s)"
proof -
  from runs.reachable_inv[OF s(1)] have inv: "prog_inv s" .
  with s(2) obtain j where j: "listed P (ts_rt s) j" and n: "length (started (ts_rt s)) = p_count P"
    by (auto simp: prog_inv_def runtime_ok_def)
  let ?a = "started (ts_rt s) ! k"
  have l: "ts_loc s ?a = None" using k n by (simp add: view_def)
  have "?a \<notin> set (joined (ts_rt s))" using inv l by (auto simp: prog_inv_def locals_ok_def)
  with listed_unjoined[OF j] k n have "k < j" by auto
  with j have e: "entry_all ?a (ts_rt s) = Inr (p_start P, 1 + int k)" by (auto simp: listed_def)
  let ?t = "s\<lparr>ts_loc := (ts_loc s)(?a \<mapsto> p_start P (1 + int k))\<rparr>"
  have "prog_step P s ?t" using step_begin[OF _ _ l e] s(2) k n by (simp add: running_def)
  moreover have "view ?t = (view s)(k \<mapsto> p_start P (1 + int k))"
    using view_loc[of s k] j k n by (simp add: listed_def)
  ultimately show ?thesis using s by (intro exI[of _ ?t]) (auto simp: config_def intro: reach_step)
qed

lemma all_begun_reachable:
  "\<exists>s. prog_states P s \<and> ts_main s = Joining \<and> config s = (all_begun P, p_shared P, [])"
proof -
  have "\<exists>s. prog_states P s \<and> ts_main s = Joining \<and>
      config s = ((\<lambda>k. if k < j then all_begun P k else None), p_shared P, [])" if "j \<le> p_count P" for j
    using that
  proof (induction j)
    case 0
    from created_reachable[of "p_count P"] obtain s where s: "prog_states P s"
      "ts_main s = Creating (p_count P)" "config s = (Map.empty, p_shared P, [])" by auto
    let ?t = "s\<lparr>ts_main := Joining, ts_rt := join (p_final P) (ts_rt s)\<rparr>"
    have "prog_states P ?t" using s step_return by (blast intro: reach_step)
    moreover have "config ?t = config s" by (simp add: config_def view_join)
    ultimately show ?case using s(3) by (intro exI[of _ ?t]) simp
  next
    case (Suc j)
    then obtain s where s: "prog_states P s" "ts_main s = Joining"
      "config s = ((\<lambda>k. if k < j then all_begun P k else None), p_shared P, [])" by auto
    then have v: "view s = (\<lambda>k. if k < j then all_begun P k else None)" by (simp add: config_def)
    with begin_reachable[OF s(1,2), of j] Suc.prems obtain t where t: "prog_states P t"
      "ts_main t = Joining" "config t = ((view s)(j \<mapsto> p_start P (1 + int j)), ts_shared s, ts_out s)"
      by auto
    have "(view s)(j \<mapsto> p_start P (1 + int j)) = (\<lambda>k. if k < Suc j then all_begun P k else None)"
      unfolding v by (rule ext) (use Suc.prems in \<open>simp add: all_begun_def less_Suc_eq\<close>)
    with t s(3) show ?case by (auto simp: config_def)
  qed
  from this[of "p_count P"] show ?thesis
    by (simp add: all_begun_def[abs_def] if_distrib cong: if_cong)
qed

lemma sched_step_reachable:
  assumes s: "prog_states P s" "ts_main s = Joining"
  shows "\<exists>t. prog_states P t \<and> ts_main t = Joining \<and> config t = sched_step P k (config s)"
proof (cases "\<exists>l. view s k = Some l \<and> \<not> p_ended P l")
  case False
  then have "sched_step P k (config s) = config s" by (auto simp: config_def split: option.split)
  with s show ?thesis by auto
next
  case True
  then obtain l where l: "view s k = Some l" "\<not> p_ended P l" by blast
  obtain l' g' o' where b: "p_body P l (ts_shared s) = (l', g', o')" by (metis prod_cases3)
  from runs.reachable_inv[OF s(1)] s(2) have d: "distinct (started (ts_rt s))"
    by (auto simp: prog_inv_def runtime_ok_def listed_def)
  let ?a = "started (ts_rt s) ! k"
  from l(1) have k: "k < length (started (ts_rt s))" "ts_loc s ?a = Some l"
    by (auto simp: view_def split: if_splits)
  let ?t = "s\<lparr>ts_loc := (ts_loc s)(?a \<mapsto> l'), ts_shared := g', ts_out := ts_out s @ o'\<rparr>"
  have "prog_step P s ?t" using step_run[OF _ k(2) l(2) b] s(2) by (simp add: running_def)
  moreover have "view ?t = (view s)(k \<mapsto> l')"
    using view_loc[OF d k(1), of l'] by (simp add: view_def fun_eq_iff)
  ultimately show ?thesis using s l b
    by (intro exI[of _ ?t]) (auto simp: config_def intro: reach_step)
qed

lemma sched_reachable:
  assumes "prog_states P s" and "ts_main s = Joining"
  shows "\<exists>t. prog_states P t \<and> ts_main t = Joining \<and> config t = sched P ks (config s)"
  using assms
proof (induction ks arbitrary: s)
  case (Cons k ks)
  from sched_step_reachable[OF Cons.prems, of k] obtain u where
    "prog_states P u" "ts_main u = Joining" "config u = sched_step P k (config s)" by blast
  with Cons.IH show ?case by fastforce
qed auto

lemma exit_reachable:
  assumes "prog_states P s" and "ts_main s = Joining" and "listed P (ts_rt s) j"
    and "\<And>k. k < p_count P \<Longrightarrow> \<exists>l. view s k = Some l \<and> p_ended P l"
  shows "\<exists>t. prog_states P t \<and> ts_main t = Exited \<and>
    ts_out t = ts_out s @ closing P (ts_shared s)"
  using assms
proof (induction j arbitrary: s)
  case 0
  from listed_threads[OF 0(3)] have t: "threads (ts_rt s) = None" by simp
  from runs.reachable_inv[OF 0(1)] 0(2) have "join_fn (ts_rt s) = p_final P"
    by (auto simp: prog_inv_def runtime_ok_def)
  with step_exit[OF 0(2) t] have
    "prog_step P s (s\<lparr>ts_main := Exited, ts_out := ts_out s @ closing P (ts_shared s)\<rparr>)"
    by (simp add: closing_def)
  with 0(1) have "prog_states P (s\<lparr>ts_main := Exited, ts_out := ts_out s @ closing P (ts_shared s)\<rparr>)"
    by (rule reach_step)
  then show ?case by (intro exI) auto
next
  case (Suc j)
  from runs.reachable_inv[OF Suc.prems(1)] have inv: "prog_inv s" .
  with Suc.prems(2) have n: "length (started (ts_rt s)) = p_count P"
    by (auto simp: prog_inv_def runtime_ok_def)
  let ?t = "started (ts_rt s) ! j"
  from listed_threads[OF Suc.prems(3)] have t: "threads (ts_rt s) = Some ?t" by simp
  obtain r where r: "join_node ?t (ts_rt s) = Inr r" "listed P r j" "started r = started (ts_rt s)"
    using listed_join_node[OF Suc.prems(3)] by metis
  from Suc.prems(3) n have "j < p_count P" by (simp add: listed_def)
  with Suc.prems(4) obtain l where "view s j = Some l" "p_ended P l" by blast
  then have l: "ts_loc s ?t = Some l" "p_ended P l" by (auto simp: view_def split: if_splits)
  from step_join[OF Suc.prems(2) t l r(1)] Suc.prems(1) have
    "prog_states P (s\<lparr>ts_rt := r\<rparr>)" by (blast intro: reach_step)
  from Suc.IH[OF this] Suc.prems(2,4) r(2,3) show ?case by simp
qed

text \<open>Any order of steps after which every thread has ended is the order of some whole run.\<close>

lemma run_exists:
  assumes "sched P ks (all_begun P, p_shared P, []) = (L, g, out)"
    and "\<And>k. k < p_count P \<Longrightarrow> \<exists>l. L k = Some l \<and> p_ended P l"
  shows "\<exists>t. prog_states P t \<and> ts_main t = Exited \<and>
    ts_out t = out @ closing P g"
proof -
  from all_begun_reachable obtain s where s: "prog_states P s" "ts_main s = Joining"
    "config s = (all_begun P, p_shared P, [])" by blast
  from sched_reachable[OF s(1,2), of ks] obtain u where u: "prog_states P u" "ts_main u = Joining"
    "config u = (L, g, out)" using s(3) assms(1) by auto
  from runs.reachable_inv[OF u(1)] u(2) obtain j where "listed P (ts_rt u) j"
    by (auto simp: prog_inv_def runtime_ok_def)
  from exit_reachable[OF u(1,2) this] u(3) assms(2) show ?thesis by (simp add: config_def)
qed

end

end
