(* ===== verification/Programs.thy ===== *)
theory Programs
  imports ThreadProg
begin

text \<open>
  The small programs around \<open>multi-threads/threads.h\<close>: \<open>mnprintf.c\<close> and \<open>printf-test.c\<close> (each
  thread prints numbered lines), \<open>sum.c\<close> and \<open>sum-atomic.c\<close> (four threads add to one counter),
  \<open>hello-mt.c\<close> and \<open>cur.c\<close> (a thousand threads number their greetings with a shared variable).

  Each is a value of \<open>program\<close>; one step of a body is one \<open>printf\<close> (the C library locks the
  stream, so the characters of one call are not interleaved), one load or one store of a shared
  variable, or one turn of a delay loop. Each is an instance of the locales of \<open>ThreadProg\<close>, with
  an invariant of its own.
\<close>

section \<open>Definitions\<close>

text \<open>\<open>thread_entry\<close> of \<open>mnprintf.c\<close> and \<open>printf-test.c\<close>: the local state is the argument \<open>tid\<close>
  and the loop variable; an output is the pair that \<open>printf\<close> shows.\<close>

definition entry_body :: "int \<times> int \<Rightarrow> unit \<Rightarrow> (int \<times> int) \<times> unit \<times> (int \<times> int) list" where
  "entry_body l g = (case l of (tid, i) \<Rightarrow> ((tid, i + 1), g, [(tid, i)]))"

definition op_text :: "int \<times> int \<Rightarrow> string" where
  "op_text p = (case p of (tid, i) \<Rightarrow>
     ''T'' @ fmt_ld tid @ [CHR 0x27] @ ''s '' @ fmt_ld i @ ''-th operation'' @ [CHR 0x0A])"

definition ops_program :: "nat \<Rightarrow> int \<Rightarrow> (int \<times> int, unit, int \<times> int) program" where
  "ops_program n m = \<lparr>p_count = n, p_start = (\<lambda>tid. (tid, 1)), p_body = entry_body,
     p_ended = (\<lambda>(tid, i). \<not> i \<le> m), p_shared = (), p_final = None\<rparr>"

definition mnprintf :: "(int \<times> int, unit, int \<times> int) program" where
  "mnprintf = ops_program 4 3"

definition printf_test :: "(int \<times> int, unit, int \<times> int) program" where
  "printf_test = ops_program 3 5"

text \<open>
  \<open>do_sum\<close>: the local state is the loop variable and, between the load and the store of an
  \<open>addq\<close> without the prefix \<open>lock\<close>, the value loaded.
\<close>

definition do_sum_body ::
  "bool \<Rightarrow> nat \<times> int option \<Rightarrow> int \<Rightarrow> (nat \<times> int option) \<times> int \<times> int list" where
  "do_sum_body locked_prefix l s =
     (case l of (i, loaded) \<Rightarrow>
        if locked_prefix then ((i + 1, None), s + 1, [])
        else (case loaded of
          None \<Rightarrow> ((i, Some s), s, [])
        | Some v \<Rightarrow> ((i + 1, None), v + 1, [])))"

definition sum_of :: "bool \<Rightarrow> nat \<Rightarrow> nat \<Rightarrow> (nat \<times> int option, int, int) program" where
  "sum_of locked_prefix n N = \<lparr>p_count = n, p_start = (\<lambda>_. (0, None)),
     p_body = do_sum_body locked_prefix, p_ended = (\<lambda>(i, _). \<not> i < N), p_shared = 0,
     p_final = Some (\<lambda>s. [s])\<rparr>"

definition sum_program :: "(nat \<times> int option, int, int) program" where
  "sum_program = sum_of False 4 10000000"

definition sum_atomic_program :: "(nat \<times> int option, int, int) program" where
  "sum_atomic_program = sum_of True 4 10000000"

text \<open>
  \<open>f\<close> of \<open>hello-mt.c\<close> and \<open>cur.c\<close>: \<open>x++\<close> loads \<open>x\<close> and stores its successor, \<open>printf\<close>
  shows the value loaded; \<open>hello-mt.c\<close> then counts a \<open>volatile\<close> variable up to \<open>c\<close>.
\<close>

datatype hello_pc = Load_x | Store_x int | Print_x int | Delay nat

datatype hello_line = Hello int | Bye string

definition hello_body :: "hello_pc \<Rightarrow> int \<Rightarrow> hello_pc \<times> int \<times> hello_line list" where
  "hello_body l x =
     (case l of
        Load_x \<Rightarrow> (Store_x x, x, [])
      | Store_x v \<Rightarrow> (Print_x v, v + 1, [])
      | Print_x v \<Rightarrow> (Delay 0, x, [Hello v])
      | Delay i \<Rightarrow> (Delay (i + 1), x, []))"

definition hello_of :: "nat \<Rightarrow> nat \<Rightarrow> string \<Rightarrow> (hello_pc, int, hello_line) program" where
  "hello_of n c bye = \<lparr>p_count = n, p_start = (\<lambda>_. Load_x), p_body = hello_body,
     p_ended = (\<lambda>l. case l of Delay i \<Rightarrow> \<not> i < c | _ \<Rightarrow> False), p_shared = 0,
     p_final = Some (\<lambda>_. [Bye bye])\<rparr>"

definition hello_mt :: "(hello_pc, int, hello_line) program" where
  "hello_mt = hello_of 1000 1000000 ''Done!''"

definition cur_program :: "(hello_pc, int, hello_line) program" where
  "cur_program = hello_of 1000 0 ''Over!''"

definition hello_text :: "hello_line \<Rightarrow> string" where
  "hello_text l = (case l of
     Hello v \<Rightarrow> ''Hello from thread #'' @ fmt_ld v @ [CHR 0x0A]
   | Bye s \<Rightarrow> s @ [CHR 0x0A])"

lemma ops_program_simps [simp]:
  "p_count (ops_program n m) = n" "p_start (ops_program n m) = (\<lambda>tid. (tid, 1))"
  "p_body (ops_program n m) = entry_body" "p_ended (ops_program n m) = (\<lambda>(tid, i). \<not> i \<le> m)"
  "p_shared (ops_program n m) = ()" "p_final (ops_program n m) = None"
  by (simp_all add: ops_program_def)

lemma sum_of_simps [simp]:
  "p_count (sum_of b n N) = n" "p_start (sum_of b n N) = (\<lambda>_. (0, None))"
  "p_body (sum_of b n N) = do_sum_body b" "p_ended (sum_of b n N) = (\<lambda>(i, _). \<not> i < N)"
  "p_shared (sum_of b n N) = 0" "p_final (sum_of b n N) = Some (\<lambda>s. [s])"
  by (simp_all add: sum_of_def)

lemma hello_of_simps [simp]:
  "p_count (hello_of n c s) = n" "p_start (hello_of n c s) = (\<lambda>_. Load_x)"
  "p_body (hello_of n c s) = hello_body"
  "p_ended (hello_of n c s) = (\<lambda>l. case l of Delay i \<Rightarrow> \<not> i < c | _ \<Rightarrow> False)"
  "p_shared (hello_of n c s) = 0" "p_final (hello_of n c s) = Some (\<lambda>_. [Bye s])"
  by (simp_all add: hello_of_def)

section \<open>Threads that print numbered lines\<close>

definition lines_so_far :: "(int \<times> int) option \<Rightarrow> (int \<times> int) list" where
  "lines_so_far x = (case x of None \<Rightarrow> [] | Some (tid, i) \<Rightarrow> map (Pair tid) [1..i - 1])"

definition ops_inv ::
  "nat \<Rightarrow> int \<Rightarrow> (nat \<Rightarrow> (int \<times> int) option) \<Rightarrow> unit \<Rightarrow> (int \<times> int) list \<Rightarrow> bool" where
  "ops_inv n m L g out \<longleftrightarrow>
     (\<forall>k < n. filter (\<lambda>p. fst p = 1 + int k) out = lines_so_far (L k)) \<and>
     (\<forall>k < n. \<forall>tid i. L k = Some (tid, i) \<longrightarrow> tid = 1 + int k \<and> 1 \<le> i \<and> i \<le> m + 1) \<and>
     (\<forall>p \<in> set out. 1 \<le> fst p \<and> fst p \<le> int n)"

lemma lines_so_far_Some: "lines_so_far (Some (tid, i)) = map (Pair tid) [1..i - 1]"
  by (simp only: lines_so_far_def option.case prod.case)

lemma lines_so_far_next:
  assumes "1 \<le> i"
  shows "lines_so_far (Some (tid, i + 1)) = lines_so_far (Some (tid, i)) @ [(tid, i)]"
  unfolding lines_so_far_Some add_diff_cancel_right'
  using assms by (simp only: upto_rec2[of 1 i] map_append list.map)

lemma ops_inv_lines: "ops_inv n m L g out \<Longrightarrow> k < n \<Longrightarrow> filter (\<lambda>p. fst p = 1 + int k) out = lines_so_far (L k)"
  unfolding ops_inv_def by blast

lemma ops_inv_local:
  "ops_inv n m L g out \<Longrightarrow> k < n \<Longrightarrow> L k = Some (tid, i) \<Longrightarrow> tid = 1 + int k \<and> 1 \<le> i \<and> i \<le> m + 1"
  unfolding ops_inv_def by blast

lemma ops_inv_run:
  assumes inv: "ops_inv n m L g out" and k: "k < n" "L k = Some (tid, i)" "i \<le> m"
  shows "ops_inv n m (L(k \<mapsto> (tid, i + 1))) g' (out @ [(tid, i)])"
proof -
  from ops_inv_local[OF inv k(1,2)] have t: "tid = 1 + int k" "1 \<le> i" by simp_all
  have "filter (\<lambda>p. fst p = 1 + int j) (out @ [(tid, i)]) = lines_so_far ((L(k \<mapsto> (tid, i + 1))) j)"
    if "j < n" for j
  proof (cases "j = k")
    case True
    have "filter (\<lambda>p. fst p = 1 + int k) (out @ [(tid, i)]) = lines_so_far (Some (tid, i)) @ [(tid, i)]"
      using ops_inv_lines[OF inv k(1)] k(2) t(1) by simp
    with True show ?thesis by (simp only: lines_so_far_next[OF t(2)] fun_upd_same)
  next
    case False
    with ops_inv_lines[OF inv that] t(1) show ?thesis by simp
  qed
  moreover have "\<forall>p \<in> set (out @ [(tid, i)]). 1 \<le> fst p \<and> fst p \<le> int n"
    using inv t k(1) by (auto simp: ops_inv_def)
  moreover have "t' = 1 + int j \<and> 1 \<le> i' \<and> i' \<le> m + 1"
    if "j < n" "(L(k \<mapsto> (tid, i + 1))) j = Some (t', i')" for j t' i'
    using ops_inv_local[OF inv that(1)] that(2) t k(3) by (auto split: if_splits)
  ultimately show ?thesis unfolding ops_inv_def by blast
qed

lemma ops_ending:
  assumes "int n < 2 ^ 31" and "0 \<le> m"
  shows "ending_prog (ops_program n m) (ops_inv n m) (\<lambda>(tid, i). nat (m + 1 - i)) (\<lambda>_. 0) (nat m)"
proof
  show "ops_inv n m (L(k \<mapsto> l')) g' (out @ o')"
    if "ops_inv n m L g out" "k < p_count (ops_program n m)" "L k = Some l"
      "\<not> p_ended (ops_program n m) l" "p_body (ops_program n m) l g = (l', g', o')"
    for L g out k l l' g' o'
    using that ops_inv_run[of n m L g out k "fst l" "snd l" g'] by (auto simp: entry_body_def)
qed (use assms in \<open>auto simp: ops_inv_def lines_so_far_def entry_body_def\<close>)

interpretation mn: ending_prog mnprintf "ops_inv 4 3" "\<lambda>(tid, i). nat (3 + 1 - i)" "\<lambda>_. 0" "nat 3"
  unfolding mnprintf_def by (rule ops_ending) simp_all

interpretation pt: ending_prog printf_test "ops_inv 3 5" "\<lambda>(tid, i). nat (5 + 1 - i)" "\<lambda>_. 0" "nat 5"
  unfolding printf_test_def by (rule ops_ending) simp_all

text \<open>What the invariant says of the output once every thread has ended.\<close>

lemma ops_inv_all:
  assumes "ops_inv n m L g out" and "\<And>k. k < n \<Longrightarrow> \<exists>tid i. L k = Some (tid, i) \<and> \<not> i \<le> m"
  shows "(\<forall>t. 1 \<le> t \<and> t \<le> int n \<longrightarrow> filter (\<lambda>p. fst p = t) out = map (Pair t) [1..m]) \<and>
    (\<forall>p \<in> set out. 1 \<le> fst p \<and> fst p \<le> int n)"
proof -
  have "filter (\<lambda>p. fst p = 1 + int k) out = map (Pair (1 + int k)) [1..m]" if k: "k < n" for k
  proof -
    from assms(2)[OF k] obtain tid i where i: "L k = Some (tid, i)" "\<not> i \<le> m" by blast
    from ops_inv_local[OF assms(1) k i(1)] i(2) have t: "tid = 1 + int k" "i - 1 = m" by simp_all
    with ops_inv_lines[OF assms(1) k] i(1) show ?thesis by (simp only: lines_so_far_Some)
  qed
  note own = this
  have "filter (\<lambda>p. fst p = t) out = map (Pair t) [1..m]" if "1 \<le> t" "t \<le> int n" for t
    using own[of "nat (t - 1)"] that by (simp add: nat_less_iff)
  with assms(1) show ?thesis by (auto simp: ops_inv_def)
qed

section \<open>Threads that add to one counter\<close>

text \<open>Increments a thread has finished.\<close>

definition increments :: "(nat \<times> int option) option \<Rightarrow> nat" where
  "increments x = (case x of None \<Rightarrow> 0 | Some (i, _) \<Rightarrow> i)"

lemma increments_simps [simp]: "increments None = 0" "increments (Some (i, v)) = i"
  by (simp_all add: increments_def)

abbreviation total_increments :: "nat \<Rightarrow> (nat \<Rightarrow> (nat \<times> int option) option) \<Rightarrow> nat" where
  "total_increments n \<equiv> weights n increments"

lemma weights_const: "(\<And>k. k < n \<Longrightarrow> w (L k) = c) \<Longrightarrow> weights n w L = n * c"
  by (simp add: weights_def)

lemma weights_member: "k < n \<Longrightarrow> w (L k) \<le> weights n w L"
  using member_le_sum[of k "{..<n}" "\<lambda>k. w (L k)"] by (simp add: weights_def)

lemma increments_upd:
  assumes "k < n" and "L k = Some (i, v)"
  shows "total_increments n (L(k \<mapsto> (i, v'))) = total_increments n L"
    and "total_increments n (L(k \<mapsto> (i + 1, v'))) = Suc (total_increments n L)"
  using weights_upd[OF assms(1), of increments L "(i, v')"]
    weights_upd[OF assms(1), of increments L "(i + 1, v')"] assms(2) by simp_all

lemma increments_begin:
  assumes "k < n" and "L k = None"
  shows "total_increments n (L(k \<mapsto> (0, v))) = total_increments n L"
  using weights_upd[OF assms(1), of increments L "(0, v)"] assms(2) by simp

definition atomic_inv ::
  "nat \<Rightarrow> nat \<Rightarrow> (nat \<Rightarrow> (nat \<times> int option) option) \<Rightarrow> int \<Rightarrow> int list \<Rightarrow> bool" where
  "atomic_inv n N L s out \<longleftrightarrow> out = [] \<and> s = int (total_increments n L) \<and>
     (\<forall>k < n. increments (L k) \<le> N)"

text \<open>
  Without the prefix: the counter is between bounds that hold of every value loaded too, and the
  thread that stored last has stored at least 2 unless that was its first store.
\<close>

definition plain_inv ::
  "nat \<Rightarrow> nat \<Rightarrow> (nat \<Rightarrow> (nat \<times> int option) option) \<Rightarrow> int \<Rightarrow> int list \<Rightarrow> bool" where
  "plain_inv n N L s out \<longleftrightarrow> out = [] \<and> 0 \<le> s \<and> s \<le> int (total_increments n L) \<and>
     (total_increments n L > 0 \<longrightarrow> 1 \<le> s) \<and>
     (\<forall>k < n. increments (L k) \<le> N) \<and>
     (\<forall>k < n. \<forall>i v. L k = Some (i, Some v) \<longrightarrow>
        0 \<le> v \<and> v \<le> int (total_increments n L) \<and> (0 < i \<longrightarrow> 1 \<le> v)) \<and>
     (total_increments n L = 0 \<or>
        (\<exists>t < n. 1 \<le> increments (L t) \<and> (2 \<le> increments (L t) \<longrightarrow> 2 \<le> s)))"

lemma plain_inv_load:
  assumes inv: "plain_inv n N L s out" and k: "k < n" "L k = Some (i, None)"
  shows "plain_inv n N (L(k \<mapsto> (i, Some s))) s out"
proof -
  let ?L = "L(k \<mapsto> (i, Some s))"
  have t: "total_increments n ?L = total_increments n L" by (rule increments_upd(1)[where L = L, OF k])
  have i: "increments (?L j) = increments (L j)" for j using k by simp
  have "0 < i \<Longrightarrow> 0 < total_increments n L"
    using weights_member[of k n increments L] k by simp
  with inv show ?thesis unfolding plain_inv_def t i by (auto split: if_splits)
qed

lemma plain_inv_store:
  assumes inv: "plain_inv n N L s out" and k: "k < n" "L k = Some (i, Some v)" "i < N"
  shows "plain_inv n N (L(k \<mapsto> (i + 1, None))) (v + 1) out"
proof -
  let ?L = "L(k \<mapsto> (i + 1, None))"
  have t: "total_increments n ?L = Suc (total_increments n L)" by (rule increments_upd(2)[where L = L, OF k(1,2)])
  have v: "0 \<le> v" "v \<le> int (total_increments n L)" "0 < i \<Longrightarrow> 1 \<le> v" and out: "out = []"
    and le: "\<And>j. j < n \<Longrightarrow> increments (L j) \<le> N"
    using inv k by (auto simp: plain_inv_def)
  have "\<exists>t < n. 1 \<le> increments (?L t) \<and> (2 \<le> increments (?L t) \<longrightarrow> 2 \<le> v + 1)"
    using k(1) v(3) by (intro exI[of _ k]) auto
  moreover have "0 \<le> w \<and> w \<le> int (Suc (total_increments n L)) \<and> (0 < j' \<longrightarrow> 1 \<le> w)"
    if "j < n" "?L j = Some (j', Some w)" for j j' w
    using inv that unfolding plain_inv_def by (force split: if_splits)
  moreover have "increments (?L j) \<le> N" if "j < n" for j using le[OF that] k(3) by simp
  ultimately show ?thesis using v out unfolding plain_inv_def t by auto
qed

definition sum_inv ::
  "bool \<Rightarrow> nat \<Rightarrow> nat \<Rightarrow> (nat \<Rightarrow> (nat \<times> int option) option) \<Rightarrow> int \<Rightarrow> int list \<Rightarrow> bool" where
  "sum_inv locked_prefix n N L s out \<longleftrightarrow>
     (if locked_prefix then atomic_inv n N L s out else plain_inv n N L s out)"

lemma sum_inv_begin:
  assumes inv: "sum_inv b n N L s out" and k: "k < n" "L k = None"
  shows "sum_inv b n N (L(k \<mapsto> (0, None))) s out"
proof -
  have i: "increments ((L(k \<mapsto> (0, None))) j) = increments (L j)" for j using k by simp
  show ?thesis using inv
    unfolding sum_inv_def atomic_inv_def plain_inv_def increments_begin[where L = L, OF k] i
    by (auto split: if_splits)
qed

lemma sum_inv_run:
  assumes inv: "sum_inv b n N L s out" and k: "k < n" "L k = Some (i, ld)" "i < N"
    and b: "do_sum_body b (i, ld) s = (l', s', o')"
  shows "sum_inv b n N (L(k \<mapsto> l')) s' (out @ o')"
proof (cases b)
  case True
  with b have l': "l' = (i + 1, None)" "s' = s + 1" "o' = []" by (simp_all add: do_sum_body_def)
  have t: "total_increments n (L(k \<mapsto> (i + 1, None))) = Suc (total_increments n L)"
    by (rule increments_upd(2)[where L = L, OF k(1,2)])
  from inv True k(3) show ?thesis unfolding sum_inv_def atomic_inv_def l' t by auto
next
  case False
  with inv b k plain_inv_load[of n N L s out k i] plain_inv_store[of n N L s out k i]
  show ?thesis by (auto simp: sum_inv_def do_sum_body_def split: option.splits)
qed

definition adds_left :: "nat \<Rightarrow> nat \<times> int option \<Rightarrow> nat" where
  "adds_left N l = (case l of (i, ld) \<Rightarrow> 2 * (N - i) - (if ld = None then 0 else 1))"

lemma sum_ending:
  assumes "int n < 2 ^ 31"
  shows "ending_prog (sum_of b n N) (sum_inv b n N) (adds_left N) (\<lambda>_. 0) (2 * N)"
proof
  show "sum_inv b n N (L(k \<mapsto> l')) s' (out @ o')"
    if "sum_inv b n N L s out" "k < p_count (sum_of b n N)" "L k = Some l"
      "\<not> p_ended (sum_of b n N) l" "p_body (sum_of b n N) l s = (l', s', o')"
    for L s out k l l' s' o'
    using that sum_inv_run[of b n N L s out k "fst l" "snd l"] by (auto split: prod.splits)
  show "sum_inv b n N (L(k \<mapsto> p_start (sum_of b n N) (1 + int k))) s out"
    if "sum_inv b n N L s out" "k < p_count (sum_of b n N)" "L k = None" for L s out k
    using that sum_inv_begin by simp
qed (use assms in \<open>auto simp: sum_inv_def atomic_inv_def plain_inv_def weights_def adds_left_def
  do_sum_body_def split: if_splits option.splits\<close>)

interpretation su: ending_prog sum_program "sum_inv False 4 10000000" "adds_left 10000000" "\<lambda>_. 0" "2 * 10000000"
  unfolding sum_program_def by (rule sum_ending) simp

interpretation sa: ending_prog sum_atomic_program "sum_inv True 4 10000000" "adds_left 10000000" "\<lambda>_. 0" "2 * 10000000"
  unfolding sum_atomic_program_def by (rule sum_ending) simp

lemma sum_inv_all:
  assumes "sum_inv b n N L s out" and "\<And>k. k < n \<Longrightarrow> N \<le> increments (L k)"
  shows "out = [] \<and> (if b then s = int n * int N
    else s \<le> int n * int N \<and> (1 \<le> n \<and> 2 \<le> N \<longrightarrow> 2 \<le> s))"
proof -
  have full: "increments (L k) = N" if "k < n" for k
    using assms(1) assms(2)[OF that] that
    by (auto simp: sum_inv_def atomic_inv_def plain_inv_def intro: antisym split: if_splits)
  then have "total_increments n L = n * N" by (rule weights_const)
  with assms(1) full show ?thesis
    by (auto simp: sum_inv_def atomic_inv_def plain_inv_def split: if_splits)
qed

section \<open>Threads that number their greetings\<close>

text \<open>Whether a thread has stored its \<open>x++\<close>, and whether it has printed.\<close>

definition stored_x :: "hello_pc option \<Rightarrow> nat" where
  "stored_x p = (case p of Some (Print_x _) \<Rightarrow> 1 | Some (Delay _) \<Rightarrow> 1 | _ \<Rightarrow> 0)"

definition greeted :: "hello_pc option \<Rightarrow> nat" where
  "greeted p = (case p of Some (Delay _) \<Rightarrow> 1 | _ \<Rightarrow> 0)"

lemma stored_x_simps [simp]:
  "stored_x None = 0" "stored_x (Some Load_x) = 0" "stored_x (Some (Store_x v)) = 0"
  "stored_x (Some (Print_x v)) = 1" "stored_x (Some (Delay i)) = 1"
  by (simp_all add: stored_x_def)

lemma greeted_simps [simp]:
  "greeted None = 0" "greeted (Some Load_x) = 0" "greeted (Some (Store_x v)) = 0"
  "greeted (Some (Print_x v)) = 0" "greeted (Some (Delay i)) = 1"
  by (simp_all add: greeted_def)

text \<open>When \<open>n\<close> threads have stored, every value loaded is at most \<open>n\<close>, and one stored or printed
  is below \<open>n\<close>.\<close>

definition hello_local_ok :: "nat \<Rightarrow> hello_pc option \<Rightarrow> bool" where
  "hello_local_ok n p = (case p of
     Some (Store_x v) \<Rightarrow> 0 \<le> v \<and> v \<le> int n | Some (Print_x v) \<Rightarrow> 0 \<le> v \<and> v < int n | _ \<Rightarrow> True)"

definition hello_line_ok :: "nat \<Rightarrow> hello_line \<Rightarrow> bool" where
  "hello_line_ok n l = (case l of Hello v \<Rightarrow> 0 \<le> v \<and> v < int n | Bye _ \<Rightarrow> False)"

lemma hello_local_ok_simps [simp]:
  "hello_local_ok n None" "hello_local_ok n (Some Load_x)" "hello_local_ok n (Some (Delay i))"
  "hello_local_ok n (Some (Store_x v)) \<longleftrightarrow> 0 \<le> v \<and> v \<le> int n"
  "hello_local_ok n (Some (Print_x v)) \<longleftrightarrow> 0 \<le> v \<and> v < int n"
  "hello_line_ok n (Hello v) \<longleftrightarrow> 0 \<le> v \<and> v < int n"
  by (simp_all add: hello_local_ok_def hello_line_ok_def)

lemma hello_ok_mono:
  assumes "n \<le> m"
  shows "hello_local_ok n p \<Longrightarrow> hello_local_ok m p" and "hello_line_ok n l \<Longrightarrow> hello_line_ok m l"
  using assms
  by (auto simp: hello_local_ok_def hello_line_ok_def split: option.splits hello_pc.splits hello_line.splits)

definition hello_inv ::
  "nat \<Rightarrow> (nat \<Rightarrow> hello_pc option) \<Rightarrow> int \<Rightarrow> hello_line list \<Rightarrow> bool" where
  "hello_inv n L x out \<longleftrightarrow>
     0 \<le> x \<and> x \<le> int (weights n stored_x L) \<and>
     (\<forall>k < n. hello_local_ok (weights n stored_x L) (L k)) \<and>
     (\<forall>l \<in> set out. hello_line_ok (weights n stored_x L) l) \<and>
     length out = weights n greeted L \<and>
     (0 < weights n stored_x L \<longrightarrow> (\<exists>k < n. L k = Some (Print_x 0)) \<or> Hello 0 \<in> set out)"

lemma hello_inv_begin:
  assumes inv: "hello_inv n L x out" and k: "k < n" "L k = None"
  shows "hello_inv n (L(k \<mapsto> Load_x)) x out"
proof -
  have w: "weights n stored_x (L(k \<mapsto> Load_x)) = weights n stored_x L"
    "weights n greeted (L(k \<mapsto> Load_x)) = weights n greeted L"
    using weights_upd[OF k(1), of stored_x L Load_x] weights_upd[OF k(1), of greeted L Load_x] k(2)
    by simp_all
  have "(\<exists>j < n. (L(k \<mapsto> Load_x)) j = Some (Print_x 0)) \<or> Hello 0 \<in> set out"
    if "0 < weights n stored_x L"
    using inv that k(2) unfolding hello_inv_def by (metis fun_upd_other option.distinct(1))
  with inv show ?thesis unfolding hello_inv_def w by auto
qed

text \<open>A step of a body changes the counts of the threads that stored and printed by these amounts.\<close>

lemma hello_weights:
  assumes "k < n" and "L k = Some l"
  shows "weights n stored_x (L(k \<mapsto> l')) + stored_x (Some l) = weights n stored_x L + stored_x (Some l')"
    and "weights n greeted (L(k \<mapsto> l')) + greeted (Some l) = weights n greeted L + greeted (Some l')"
  using weights_upd[OF assms(1), of stored_x L l'] weights_upd[OF assms(1), of greeted L l'] assms(2)
  by simp_all

lemma hello_first:
  assumes inv: "hello_inv n L x out" and k: "k < n" "L k = Some l"
    and b: "hello_body l x = (l', x', o')" and pos: "0 < weights n stored_x (L(k \<mapsto> l'))"
  shows "(\<exists>j < n. (L(k \<mapsto> l')) j = Some (Print_x 0)) \<or> Hello 0 \<in> set (out @ o')"
proof (cases "0 < weights n stored_x L")
  case True
  with inv consider j where "j < n" "L j = Some (Print_x 0)" | "Hello 0 \<in> set out"
    by (auto simp: hello_inv_def)
  then show ?thesis
  proof cases
    case (1 j)
    show ?thesis
    proof (cases "j = k")
      case True
      with 1 k b have "o' = [Hello 0]" by (simp add: hello_body_def)
      then show ?thesis by simp
    next
      case False
      with 1 show ?thesis by auto
    qed
  qed simp
next
  case False
  have "hello_local_ok 0 (Some l)" using inv k False by (auto simp: hello_inv_def)
  with hello_weights(1)[where L = L and l' = l', OF k] False pos b have "l' = Print_x 0"
    by (cases l) (auto simp: hello_body_def)
  with k show ?thesis by auto
qed

lemma hello_inv_run:
  assumes inv: "hello_inv n L x out" and k: "k < n" "L k = Some l"
    and b: "hello_body l x = (l', x', o')"
  shows "hello_inv n (L(k \<mapsto> l')) x' (out @ o')"
proof -
  let ?S = "weights n stored_x L" and ?S' = "weights n stored_x (L(k \<mapsto> l'))"
  note w = hello_weights[where L = L and l' = l', OF k]
  have x: "0 \<le> x" "x \<le> int ?S" and l: "hello_local_ok ?S (Some l)" using inv k by (auto simp: hello_inv_def)
  have "?S \<le> ?S'" and x': "0 \<le> x' \<and> x' \<le> int ?S'" and l': "hello_local_ok ?S' (Some l')"
    and o': "\<forall>q \<in> set o'. hello_line_ok ?S' q"
    and n: "weights n greeted (L(k \<mapsto> l')) = weights n greeted L + length o'"
    using w b x l by (cases l, auto simp: hello_body_def)+
  from inv hello_ok_mono[OF \<open>?S \<le> ?S'\<close>] have
    "\<forall>j < n. hello_local_ok ?S' (L j)" "\<forall>q \<in> set out. hello_line_ok ?S' q"
    by (auto simp: hello_inv_def)
  moreover have "length out = weights n greeted L" using inv by (simp add: hello_inv_def)
  ultimately show ?thesis
    using x' l' o' n hello_first[OF assms] unfolding hello_inv_def by auto
qed

definition hello_left :: "nat \<Rightarrow> hello_pc \<Rightarrow> nat" where
  "hello_left c l = (case l of Load_x \<Rightarrow> c + 3 | Store_x _ \<Rightarrow> c + 2 | Print_x _ \<Rightarrow> c + 1 | Delay i \<Rightarrow> c - i)"

lemma hello_ending:
  assumes "int n < 2 ^ 31"
  shows "ending_prog (hello_of n c bye) (hello_inv n) (hello_left c) (\<lambda>_. 0) (c + 3)"
proof
  show "hello_inv n (L(k \<mapsto> l')) x' (out @ o')"
    if "hello_inv n L x out" "k < p_count (hello_of n c bye)" "L k = Some l"
      "p_body (hello_of n c bye) l x = (l', x', o')" for L x out k l l' x' o'
    using that hello_inv_run[of n L x out k l] by simp
  show "hello_inv n (L(k \<mapsto> p_start (hello_of n c bye) (1 + int k))) x out"
    if "hello_inv n L x out" "k < p_count (hello_of n c bye)" "L k = None" for L x out k
    using that hello_inv_begin by simp
qed (use assms in \<open>auto simp: hello_inv_def weights_def hello_left_def hello_body_def
  split: hello_pc.splits\<close>)

interpretation hm: ending_prog hello_mt "hello_inv 1000" "hello_left 1000000" "\<lambda>_. 0" "1000000 + 3"
  unfolding hello_mt_def by (rule hello_ending) simp

interpretation cu: ending_prog cur_program "hello_inv 1000" "hello_left 0" "\<lambda>_. 0" "0 + 3"
  unfolding cur_program_def by (rule hello_ending) simp

lemma hello_inv_all:
  assumes inv: "hello_inv n L x out" and "0 < n" and all: "\<And>k. k < n \<Longrightarrow> \<exists>i. L k = Some (Delay i)"
  shows "length out = n \<and> (\<forall>l \<in> set out. hello_line_ok n l) \<and> Hello 0 \<in> set out"
proof -
  have "stored_x (L k) = 1 \<and> greeted (L k) = 1" if "k < n" for k using all[OF that] by auto
  then have w: "weights n stored_x L = n" "weights n greeted L = n"
    using weights_const[of n stored_x L 1] weights_const[of n greeted L 1] by simp_all
  have "L k \<noteq> Some (Print_x 0)" if "k < n" for k using all[OF that] by auto
  with inv \<open>0 < n\<close> show ?thesis unfolding hello_inv_def w by blast
qed

section \<open>Chosen runs\<close>

lemma begun_upd: "all_begun P = (\<lambda>k. if k < p_count P then Some (p_start P (1 + int k)) else None)"
  by (simp add: all_begun_def fun_eq_iff)

lemma sum_locked:
  assumes "L k = Some (i, None)" and "i < N"
  shows "sched_step (sum_of True n N) k (L, s, out) = (L(k \<mapsto> (i + 1, None)), s + 1, out)"
  using assms by (simp add: do_sum_body_def)

lemma sum_load:
  assumes "L k = Some (i, None)" and "i < N"
  shows "sched_step (sum_of False n N) k (L, s, out) = (L(k \<mapsto> (i, Some s)), s, out)"
  using assms by (simp add: do_sum_body_def)

lemma sum_store:
  assumes "L k = Some (i, Some v)" and "i < N"
  shows "sched_step (sum_of False n N) k (L, s, out) = (L(k \<mapsto> (i + 1, None)), v + 1, out)"
  using assms by (simp add: do_sum_body_def)

text \<open>One thread adds \<open>m\<close> times while the others wait.\<close>

lemma sum_alone:
  assumes "L k = Some (i, None)" and "i + m \<le> N"
  shows "sched (sum_of b n N) (replicate (m * (if b then 1 else 2)) k) (L, s, out) =
    (L(k \<mapsto> (i + m, None)), s + int m, out)"
  using assms
proof (induction m arbitrary: i L s)
  case 0
  then show ?case by (simp add: fun_upd_idem)
next
  case (Suc m)
  have k: "(L(k \<mapsto> (i + 1, None))) k = Some (i + 1, None)" by simp
  from Suc.prems(2) have le: "i + 1 + m \<le> N" by simp
  have "(L(k \<mapsto> (i + 1, None)))(k \<mapsto> (i + 1 + m, None)) = L(k \<mapsto> (i + Suc m, None))" by simp
  with Suc.IH[where L = "L(k \<mapsto> (i + 1, None))" and s = "s + 1", OF k le] have
    "sched (sum_of b n N) (replicate (m * (if b then 1 else 2)) k) (L(k \<mapsto> (i + 1, None)), s + 1, out) =
      (L(k \<mapsto> (i + Suc m, None)), s + int (Suc m), out)" by (simp only: of_nat_Suc add.assoc)
  moreover have "i < N" using Suc.prems(2) by simp
  ultimately show ?case
    using Suc.prems(1) sum_locked[of L k i N n s out] sum_load[of L k i N n s out]
      sum_store[of "L(k \<mapsto> (i, Some s))" k i s N n s out]
    by (cases b) (simp_all del: sched_step.simps, simp_all add: fun_upd_def)
qed

text \<open>The threads one after the other.\<close>

lemma sum_in_turn:
  "\<exists>ks L. sched (sum_of b n N) ks (all_begun (sum_of b n N), 0, []) = (L, int (j * N), []) \<and>
     (\<forall>k < n. L k = (if k < j then Some (N, None) else Some (0, None)))" if "j \<le> n"
  using that
proof (induction j)
  case 0
  show ?case by (intro exI[of _ "[]"] exI[of _ "all_begun (sum_of b n N)"]) (simp add: all_begun_def)
next
  case (Suc j)
  then obtain ks L where s: "sched (sum_of b n N) ks (all_begun (sum_of b n N), 0, []) = (L, int (j * N), [])"
    and L: "\<forall>k < n. L k = (if k < j then Some (N, None) else Some (0, None))" by auto
  have "L j = Some (0, None)" using L Suc.prems by simp
  from sum_alone[of L j 0 N N b n "int (j * N)" "[]", OF this] have
    "sched (sum_of b n N) (ks @ replicate (N * (if b then 1 else 2)) j) (all_begun (sum_of b n N), 0, []) =
      (L(j \<mapsto> (N, None)), int (Suc j * N), [])" by (simp add: s algebra_simps)
  moreover have "\<forall>k < n. (L(j \<mapsto> (N, None))) k = (if k < Suc j then Some (N, None) else Some (0, None))"
    using L by (auto simp: less_Suc_eq)
  ultimately show ?case by blast
qed

text \<open>
  The order that loses the most: thread 0 loads 0, thread 1 makes all its additions but one,
  thread 0 stores 1, thread 1 loads 1, all others finish, thread 1 stores 2.
\<close>

lemma sum_worst:
  assumes "2 \<le> N"
  shows "\<exists>ks L. sched (sum_of False 4 N) ks (all_begun (sum_of False 4 N), 0, []) = (L, 2, []) \<and>
    (\<forall>k < 4. L k = Some (N, None))"
proof -
  let ?P = "sum_of False 4 N" and ?S = "\<lambda>m k. replicate (m * 2) k"
  define L0 where "L0 = all_begun ?P"
  define L1 where "L1 = L0(0 \<mapsto> (0, Some 0))"
  define L2 where "L2 = L1(1 \<mapsto> (N - 1, None))"
  define L3 where "L3 = L2(0 \<mapsto> (1, None))"
  define L4 where "L4 = L3(1 \<mapsto> (N - 1, Some 1))"
  define L5 where "L5 = L4(0 \<mapsto> (N, None))"
  define L6 where "L6 = L5(2 \<mapsto> (N, None))"
  define L7 where "L7 = L6(3 \<mapsto> (N, None))"
  have L0: "k < 4 \<Longrightarrow> L0 k = Some (0, None)" for k by (simp add: L0_def all_begun_def)
  note d = L0 L1_def L2_def L3_def L4_def L5_def L6_def L7_def
  note alone = sum_alone[where b = False and n = 4, simplified]
  have "sched ?P [0] (L0, 0, []) = (L1, 0, [])"
    using sum_load[of L0 0 0 N 4 0] assms by (simp add: d(1) L1_def del: sched_step.simps)
  moreover have "sched ?P (?S (N - 1) 1) (L1, 0, []) = (L2, int (N - 1), [])"
    using alone[of L1 1 0 "N - 1" N] by (simp add: d)
  moreover have "sched ?P [0] (L2, int (N - 1), []) = (L3, 1, [])"
    using sum_store[of L2 0 0 0 N] assms by (simp add: d del: sched_step.simps)
  moreover have "sched ?P [1] (L3, 1, []) = (L4, 1, [])"
    using sum_load[of L3 1 "N - 1" N] assms by (simp add: d del: sched_step.simps)
  moreover have "sched ?P (?S (N - 1) 0) (L4, 1, []) = (L5, 1 + int (N - 1), [])"
    using alone[of L4 0 1 "N - 1" N] assms by (simp add: d)
  moreover have "sched ?P (?S N 2) (L5, s, []) = (L6, s + int N, [])" for s
    using alone[of L5 2 0 N N] by (simp add: d)
  moreover have "sched ?P (?S N 3) (L6, s, []) = (L7, s + int N, [])" for s
    using alone[of L6 3 0 N N] by (simp add: d)
  moreover have "sched ?P [1] (L7, s, []) = (L7(1 \<mapsto> (N, None)), 2, [])" for s
    using sum_store[of L7 1 "N - 1" 1 N] assms by (simp add: d del: sched_step.simps)
  ultimately have "sched ?P ([0] @ ?S (N - 1) 1 @ [0] @ [1] @ ?S (N - 1) 0 @ ?S N 2 @ ?S N 3 @ [1])
      (L0, 0, []) = (L7(1 \<mapsto> (N, None)), 2, [])"
    by (simp only: sched_simps(3))
  moreover have "\<forall>k < 4. (L7(1 \<mapsto> (N, None))) k = Some (N, None)"
    by (auto simp: d less_Suc_eq eval_nat_numeral)
  ultimately show ?thesis unfolding L0_def by blast
qed

text \<open>A phase: every thread takes the same step in turn.\<close>

lemma sched_phase:
  assumes "\<forall>k < n. L k = Some l" and "\<not> p_ended P l"
    and "p_body P l g = (l', g', o')" and "p_body P l g' = (l', g', o')"
  shows "j \<le> n \<Longrightarrow> sched P [0..<j] (L, g, out) =
    ((\<lambda>k. if k < j then Some l' else L k), if j = 0 then g else g', out @ concat (replicate j o'))"
proof (induction j)
  case (Suc j)
  let ?L = "\<lambda>k. if k < j then Some l' else L k" and ?g = "if j = 0 then g else g'"
  from Suc.prems assms(1) have "?L j = Some l" by simp
  moreover have "p_body P l ?g = (l', g', o')" using assms(3,4) by simp
  ultimately have "sched_step P j (?L, ?g, out @ concat (replicate j o')) =
      (?L(j \<mapsto> l'), g', (out @ concat (replicate j o')) @ o')" using assms(2) by simp
  moreover have "?L(j \<mapsto> l') = (\<lambda>k. if k < Suc j then Some l' else L k)" by (auto simp: fun_eq_iff)
  moreover have "concat (replicate j o') @ o' = concat (replicate (Suc j) o')"
    by (induction j) simp_all
  ultimately show ?case using Suc by simp
qed simp

lemma hello_same_number:
  assumes "0 < n"
  shows "\<exists>ks L. sched (hello_of n 0 bye) ks (all_begun (hello_of n 0 bye), 0, []) =
      (L, 1, replicate n (Hello 0)) \<and> (\<forall>k < n. L k = Some (Delay 0))"
proof -
  let ?P = "hello_of n 0 bye"
  define L1 where "L1 = (\<lambda>k. if k < n then Some (Store_x 0) else all_begun ?P k)"
  define L2 where "L2 = (\<lambda>k. if k < n then Some (Print_x 0) else L1 k)"
  define L3 where "L3 = (\<lambda>k. if k < n then Some (Delay 0) else L2 k)"
  have "sched ?P [0..<n] (all_begun ?P, 0, []) = (L1, 0, [])"
    using sched_phase[of n "all_begun ?P" Load_x ?P 0 "Store_x 0" 0 "[]" n "[]"]
    by (simp add: L1_def hello_body_def all_begun_def)
  moreover have "sched ?P [0..<n] (L1, 0, []) = (L2, 1, [])"
    using sched_phase[of n L1 "Store_x 0" ?P 0 "Print_x 0" 1 "[]" n "[]"] assms
    by (simp add: L2_def L1_def hello_body_def)
  moreover have "sched ?P [0..<n] (L2, 1, []) = (L3, 1, concat (replicate n [Hello 0]))"
    using sched_phase[of n L2 "Print_x 0" ?P 1 "Delay 0" 1 "[Hello 0]" n "[]"] assms
    by (simp add: L3_def L2_def hello_body_def)
  moreover have "concat (replicate n [Hello 0]) = replicate n (Hello 0)" by (induction n) simp_all
  ultimately have "sched ?P ([0..<n] @ [0..<n] @ [0..<n]) (all_begun ?P, 0, []) = (L3, 1, replicate n (Hello 0))"
    by simp
  moreover have "\<forall>k < n. L3 k = Some (Delay 0)" by (simp add: L3_def)
  ultimately show ?thesis by blast
qed

section \<open>Properties\<close>

lemma upto_three: "[1..3 :: int] = [1, 2, 3]"
  by (simp add: upto_rec1)

lemma mnprintf_output:
  assumes "prog_states mnprintf s" and "ts_main s = Exited"
  shows "(\<forall>t. 1 \<le> t \<and> t \<le> 4 \<longrightarrow> filter (\<lambda>p. fst p = t) (ts_out s) = [(t, 1), (t, 2), (t, 3)]) \<and>
    fst ` set (ts_out s) \<subseteq> {1..4}"
proof -
  obtain L out where o: "ops_inv 4 3 L (ts_shared s) out" "ts_out s = out @ closing mnprintf (ts_shared s)"
    "\<And>k. k < p_count mnprintf \<Longrightarrow> \<exists>l. L k = Some l \<and> p_ended mnprintf l"
    by (rule mn.output_at_exit[OF assms]) blast
  have "\<exists>tid i. L k = Some (tid, i) \<and> \<not> i \<le> 3" if "k < 4" for k
    using o(3)[of k] that by (auto simp: mnprintf_def)
  from ops_inv_all[OF o(1) this] o(2) show ?thesis
    by (auto simp: mnprintf_def closing_def upto_three)
qed

lemma mnprintf_ends: "ends_within mnprintf 26"
  using mn.run_ends by (simp add: mnprintf_def)

lemma printf_test_ends: "ends_within printf_test 26"
  using pt.run_ends by (simp add: printf_test_def)

lemma mnprintf_exits:
  "\<exists>s. prog_states mnprintf s \<and> ts_main s = Exited \<and>
    ts_out s = map (Pair 4) [1, 2, 3] @ [(1, 1), (2, 1), (1, 2), (1, 3), (2, 2), (2, 3), (3, 1), (3, 2), (3, 3)]"
proof -
  let ?c = "sched mnprintf [3, 3, 3, 0, 1, 0, 0, 1, 1, 2, 2, 2] (all_begun mnprintf, p_shared mnprintf, [])"
  have e: "\<exists>l. fst ?c k = Some l \<and> p_ended mnprintf l" if "k < p_count mnprintf" for k
    using that by (auto simp: mnprintf_def entry_body_def all_begun_def less_Suc_eq eval_nat_numeral)
  have out: "snd (snd ?c) = map (Pair 4) [1, 2, 3] @
      [(1, 1), (2, 1), (1, 2), (1, 3), (2, 2), (2, 3), (3, 1), (3, 2), (3, 3)]"
    by (simp add: mnprintf_def entry_body_def all_begun_def)
  have "closing mnprintf g = []" for g by (simp add: closing_def mnprintf_def)
  with mn.run_exists[of _ "fst ?c" "fst (snd ?c)" "snd (snd ?c)", OF _ e] out show ?thesis
    by (metis append_Nil2 prod.collapse)
qed

text \<open>
  C31. \<open>mnprintf.c\<close> and \<open>printf-test.c\<close> end under every interleaving of their threads with
  \<open>main\<close> and \<open>join_all\<close> (unless \<open>malloc\<close> fails), within a fixed number of steps. When
  \<open>mnprintf\<close> exits, the output holds no lines but those of threads 1 to 4, and each of them has
  printed its operations 1, 2, 3 in this order; how the threads' lines mix is not fixed.
\<close>

theorem numbered_lines_complete:
  "ends_within mnprintf 26 \<and> ends_within printf_test 26 \<and>
   (\<forall>s. prog_states mnprintf s \<and> ts_main s = Exited \<longrightarrow>
      (\<forall>t. 1 \<le> t \<and> t \<le> 4 \<longrightarrow> filter (\<lambda>p. fst p = t) (ts_out s) = [(t, 1), (t, 2), (t, 3)]) \<and>
      fst ` set (ts_out s) \<subseteq> {1..4})"
  using mnprintf_ends printf_test_ends mnprintf_output by blast

lemma numbered_lines_complete_witness:
  "\<exists>s. prog_states mnprintf s \<and> ts_main s = Exited \<and>
     filter (\<lambda>p. fst p = 2) (ts_out s) = [(2, 1), (2, 2), (2, 3)]"
proof -
  obtain s where s: "prog_states mnprintf s" "ts_main s = Exited"
    using mnprintf_exits by blast
  then have "filter (\<lambda>p. fst p = 2) (ts_out s) = [(2, 1), (2, 2), (2, 3)]"
    using numbered_lines_complete by (meson numeral_le_iff one_le_numeral semiring_norm)
  with s show ?thesis by blast
qed

lemma sum_of_output:
  assumes "sum_inv b n N L v out" and "ts_out s = out @ closing (sum_of b n N) v"
    and "\<And>k. k < p_count (sum_of b n N) \<Longrightarrow> \<exists>l. L k = Some l \<and> p_ended (sum_of b n N) l"
  shows "ts_out s = [v] \<and> (if b then v = int n * int N
    else v \<le> int n * int N \<and> (1 \<le> n \<and> 2 \<le> N \<longrightarrow> 2 \<le> v))"
proof -
  have "N \<le> increments (L k)" if "k < n" for k
    using assms(3)[of k] that by auto
  from sum_inv_all[OF assms(1) this] assms(2) show ?thesis by (simp add: closing_def)
qed

lemma sum_output:
  assumes "prog_states sum_program s" and "ts_main s = Exited"
  shows "\<exists>v. ts_out s = [v] \<and> 2 \<le> v \<and> v \<le> 40000000"
proof -
  obtain L out where o: "sum_inv False 4 10000000 L (ts_shared s) out"
    "ts_out s = out @ closing sum_program (ts_shared s)"
    "\<And>k. k < p_count sum_program \<Longrightarrow> \<exists>l. L k = Some l \<and> p_ended sum_program l"
    by (rule su.output_at_exit[OF assms]) blast
  from sum_of_output[OF o[unfolded sum_program_def]] show ?thesis by auto
qed

lemma sum_atomic_output:
  assumes "prog_states sum_atomic_program s" and "ts_main s = Exited"
  shows "ts_out s = [40000000]"
proof -
  obtain L out where o: "sum_inv True 4 10000000 L (ts_shared s) out"
    "ts_out s = out @ closing sum_atomic_program (ts_shared s)"
    "\<And>k. k < p_count sum_atomic_program \<Longrightarrow> \<exists>l. L k = Some l \<and> p_ended sum_atomic_program l"
    by (rule sa.output_at_exit[OF assms]) blast
  from sum_of_output[OF o[unfolded sum_atomic_program_def]] show ?thesis by auto
qed

lemma sum_prints_2: "\<exists>s. prog_states sum_program s \<and> ts_main s = Exited \<and> ts_out s = [2]"
proof -
  obtain ks L where r: "sched sum_program ks (all_begun sum_program, p_shared sum_program, []) = (L, 2, [])"
    and L: "\<forall>k < 4. L k = Some (10000000, None)"
    using sum_worst[of 10000000] by (auto simp: sum_program_def)
  have "\<exists>l. L k = Some l \<and> p_ended sum_program l" if "k < p_count sum_program" for k
    using L that by (simp add: sum_program_def)
  from su.run_exists[OF r this] show ?thesis by (simp add: closing_def sum_program_def)
qed

text \<open>The threads one after the other lose nothing.\<close>

lemma sum_in_turn_ended:
  obtains ks L where "sched (sum_of b n N) ks (all_begun (sum_of b n N), p_shared (sum_of b n N), []) =
      (L, int (n * N), [])" "\<And>k. k < p_count (sum_of b n N) \<Longrightarrow> \<exists>l. L k = Some l \<and> p_ended (sum_of b n N) l"
  using sum_in_turn[of n n b N] by fastforce

lemma sum_prints_all: "\<exists>s. prog_states sum_program s \<and> ts_main s = Exited \<and> ts_out s = [40000000]"
proof -
  obtain ks L where r: "sched sum_program ks (all_begun sum_program, p_shared sum_program, []) =
      (L, int (4 * 10000000), [])"
    and e: "\<And>k. k < p_count sum_program \<Longrightarrow> \<exists>l. L k = Some l \<and> p_ended sum_program l"
    using sum_in_turn_ended[of False 4 10000000] unfolding sum_program_def by metis
  from su.run_exists[OF r e] show ?thesis by (simp add: closing_def sum_program_def)
qed

lemma sum_atomic_exits: "\<exists>s. prog_states sum_atomic_program s \<and> ts_main s = Exited"
proof -
  obtain ks L where r: "sched sum_atomic_program ks
      (all_begun sum_atomic_program, p_shared sum_atomic_program, []) = (L, int (4 * 10000000), [])"
    and e: "\<And>k. k < p_count sum_atomic_program \<Longrightarrow> \<exists>l. L k = Some l \<and> p_ended sum_atomic_program l"
    using sum_in_turn_ended[of True 4 10000000] unfolding sum_atomic_program_def by metis
  from sa.run_exists[OF r e] show ?thesis by blast
qed

lemma sum_ends: "ends_within sum_program 80000014"
  using su.run_ends by (simp add: sum_program_def)

lemma sum_atomic_ends: "ends_within sum_atomic_program 80000014"
  using sa.run_ends by (simp add: sum_atomic_program_def)

text \<open>
  C27. \<open>sum.c\<close> (four threads of ten million \<open>addq\<close> without the prefix \<open>lock\<close>) always ends
  (unless \<open>malloc\<close> fails) and prints one number. Whatever the interleaving, the number is at
  least 2 and at most 40000000, and both bounds are printed in some run.
\<close>

theorem sum_prints_between:
  "ends_within sum_program 80000014 \<and>
   (\<forall>s. prog_states sum_program s \<and> ts_main s = Exited \<longrightarrow>
      (\<exists>v. ts_out s = [v] \<and> 2 \<le> v \<and> v \<le> 40000000)) \<and>
   (\<exists>s. prog_states sum_program s \<and> ts_main s = Exited \<and> ts_out s = [2]) \<and>
   (\<exists>s. prog_states sum_program s \<and> ts_main s = Exited \<and> ts_out s = [40000000])"
  using sum_ends sum_output sum_prints_2 sum_prints_all by blast

lemma sum_prints_between_witness:
  "\<exists>s v. prog_states sum_program s \<and> ts_main s = Exited \<and> ts_out s = [v] \<and> 2 \<le> v \<and> v \<le> 40000000"
proof -
  obtain s where s: "prog_states sum_program s" "ts_main s = Exited" using sum_prints_2 by blast
  with sum_prints_between obtain v where "ts_out s = [v]" "2 \<le> v" "v \<le> 40000000" by blast
  with s show ?thesis by blast
qed

text \<open>
  \<open>sum-atomic.c\<close> (the same program with the prefix \<open>lock\<close>) always ends, unless \<open>malloc\<close>
  fails, and prints exactly 40000000: the final function runs after every thread has ended and
  no addition is lost.
\<close>

theorem sum_atomic_prints_exact:
  "ends_within sum_atomic_program 80000014 \<and>
   (\<forall>s. prog_states sum_atomic_program s \<and> ts_main s = Exited \<longrightarrow> ts_out s = [40000000])"
  using sum_atomic_ends sum_atomic_output by blast

lemma sum_atomic_prints_exact_witness:
  "\<exists>s. prog_states sum_atomic_program s \<and> ts_main s = Exited \<and> ts_out s = [40000000]"
  using sum_atomic_exits sum_atomic_prints_exact by blast

definition greetings :: "nat \<Rightarrow> string \<Rightarrow> hello_line list \<Rightarrow> bool" where
  "greetings n bye out \<longleftrightarrow>
     (\<exists>ls. out = map Hello ls @ [Bye bye] \<and> length ls = n \<and> set ls \<subseteq> {0..<int n} \<and> 0 \<in> set ls)"

lemma hello_output:
  assumes "hello_inv n L x out" and "0 < n" and "ts_out s = out @ closing (hello_of n c bye) x"
    and "\<And>k. k < p_count (hello_of n c bye) \<Longrightarrow> \<exists>l. L k = Some l \<and> p_ended (hello_of n c bye) l"
  shows "greetings n bye (ts_out s)"
proof -
  have "\<exists>i. L k = Some (Delay i)" if "k < n" for k
  proof -
    from assms(4)[of k] that obtain l where "L k = Some l" "p_ended (hello_of n c bye) l" by auto
    then show ?thesis by (cases l) auto
  qed
  from hello_inv_all[OF assms(1,2) this] have out: "length out = n" "Hello 0 \<in> set out"
    "\<forall>l \<in> set out. hello_line_ok n l" by auto
  define num where "num l = (case l of Hello v \<Rightarrow> v | Bye _ \<Rightarrow> 0)" for l
  have "map (Hello \<circ> num) out = out" using out(3) by (intro map_idI) (auto simp: num_def hello_line_ok_def split: hello_line.splits)
  moreover have "set (map num out) \<subseteq> {0..<int n}" using out(3) by (auto simp: num_def hello_line_ok_def split: hello_line.splits)
  moreover have "0 \<in> set (map num out)" using out(2) by (force simp: num_def)
  ultimately show ?thesis using out(1) assms(3)
    unfolding greetings_def by (intro exI[of _ "map num out"]) (simp add: closing_def)
qed

lemma hello_mt_output:
  assumes "prog_states hello_mt s" and "ts_main s = Exited"
  shows "greetings 1000 ''Done!'' (ts_out s)"
proof -
  obtain L out where o: "hello_inv 1000 L (ts_shared s) out"
    "ts_out s = out @ closing hello_mt (ts_shared s)"
    "\<And>k. k < p_count hello_mt \<Longrightarrow> \<exists>l. L k = Some l \<and> p_ended hello_mt l"
    by (rule hm.output_at_exit[OF assms]) blast
  from hello_output[OF o(1) _ o(2,3)[unfolded hello_mt_def]] show ?thesis by simp
qed

lemma cur_output:
  assumes "prog_states cur_program s" and "ts_main s = Exited"
  shows "greetings 1000 ''Over!'' (ts_out s)"
proof -
  obtain L out where o: "hello_inv 1000 L (ts_shared s) out"
    "ts_out s = out @ closing cur_program (ts_shared s)"
    "\<And>k. k < p_count cur_program \<Longrightarrow> \<exists>l. L k = Some l \<and> p_ended cur_program l"
    by (rule cu.output_at_exit[OF assms]) blast
  from hello_output[OF o(1) _ o(2,3)[unfolded cur_program_def]] show ?thesis by simp
qed

lemma hello_runs_same_number:
  assumes "0 < n" and "int n < 2 ^ 31"
  shows "\<exists>s. prog_states (hello_of n 0 bye) s \<and> ts_main s = Exited \<and>
    ts_out s = replicate n (Hello 0) @ [Bye bye]"
proof -
  let ?P = "hello_of n 0 bye"
  obtain ks L where r: "sched ?P ks (all_begun ?P, p_shared ?P, []) = (L, 1, replicate n (Hello 0))"
    and L: "\<forall>k < n. L k = Some (Delay 0)"
    using hello_same_number[OF assms(1), of bye] by auto
  have "\<exists>l. L k = Some l \<and> p_ended ?P l" if "k < p_count ?P" for k using L that by simp
  from thread_prog.run_exists[OF ending_prog.axioms(1)[OF hello_ending[OF assms(2)]] r this]
  show ?thesis by (simp add: closing_def)
qed

lemma cur_same_number:
  "\<exists>s. prog_states cur_program s \<and> ts_main s = Exited \<and>
     ts_out s = replicate 1000 (Hello 0) @ [Bye ''Over!'']"
  unfolding cur_program_def by (rule hello_runs_same_number) simp_all

lemma hello_mt_ends: "ends_within hello_mt 1000006002"
  using hm.run_ends by (simp add: hello_mt_def)

lemma cur_ends: "ends_within cur_program 6002"
  using cu.run_ends by (simp add: cur_program_def)

text \<open>
  C32. \<open>hello-mt.c\<close> and \<open>cur.c\<close> always end, unless \<open>malloc\<close> fails, and print a thousand
  greetings and then their last line: every thread has greeted before \<open>Done!\<close> and \<open>Over!\<close>. The
  numbers are between 0 and 999 and 0 is among them, but the unprotected \<open>x++\<close> does not keep
  them apart: in some run of \<open>cur.c\<close> all thousand threads call themselves thread 0.
\<close>

theorem greetings_complete:
  "ends_within hello_mt 1000006002 \<and> ends_within cur_program 6002 \<and>
   (\<forall>s. prog_states hello_mt s \<and> ts_main s = Exited \<longrightarrow> greetings 1000 ''Done!'' (ts_out s)) \<and>
   (\<forall>s. prog_states cur_program s \<and> ts_main s = Exited \<longrightarrow> greetings 1000 ''Over!'' (ts_out s)) \<and>
   (\<exists>s. prog_states cur_program s \<and> ts_main s = Exited \<and>
      ts_out s = replicate 1000 (Hello 0) @ [Bye ''Over!''])"
  using hello_mt_ends cur_ends hello_mt_output cur_output cur_same_number by blast

lemma greetings_complete_witness:
  "\<exists>s. prog_states cur_program s \<and> ts_main s = Exited \<and> greetings 1000 ''Over!'' (ts_out s)"
  using cur_same_number greetings_complete by blast

end
