(* ===== verification/SpinProg.thy ===== *)
theory SpinProg
  imports Programs Spin
begin

text \<open>
  \<open>multi-threads/spinlock.c\<close> as a whole program: four threads run \<open>do_sum1\<close>, a million
  increments of \<open>sum\<close> between \<open>spin_lock\<close> and \<open>spin_unlock\<close>, and \<open>print\<close> is registered with
  \<open>join\<close> (the branch of \<open>main\<close> that would create \<open>do_sum2\<close> is never taken). The lock operations
  are those of \<open>Spin\<close>.

  The loop of \<open>spin_lock\<close> goes on while the compare-and-swap succeeds, so it keeps no thread
  out. The program therefore behaves as the one without any lock: the invariant of \<open>sum.c\<close> holds
  through an abstraction of the local states, and the worst run of \<open>sum.c\<close> is a run of it. The
  loop does end: an unlock makes at most one further turn succeed.
\<close>

definition do_sum1_body ::
  "nat \<times> worker_pc \<Rightarrow> int \<times> int \<Rightarrow> (nat \<times> worker_pc) \<times> (int \<times> int) \<times> int list" where
  "do_sum1_body l g =
     (case (l, g) of ((i, pc), (s, lk)) \<Rightarrow>
        (case pc of
           Want \<Rightarrow> (case spin_lock_turn lk of (ok, lk') \<Rightarrow> ((i, if ok then In else Want), (s, lk'), []))
         | In \<Rightarrow> ((i, Loaded s), (s, lk), [])
         | Loaded v \<Rightarrow> ((i, Out), (v + 1, lk), [])
         | Out \<Rightarrow> ((i + 1, Want), (s, spin_unlock lk), [])))"

definition spinlock_of :: "nat \<Rightarrow> nat \<Rightarrow> (nat \<times> worker_pc, int \<times> int, int) program" where
  "spinlock_of n N = \<lparr>p_count = n, p_start = (\<lambda>_. (0, Want)), p_body = do_sum1_body,
     p_ended = (\<lambda>(i, _). \<not> i < N), p_shared = (0, 0), p_final = Some (\<lambda>(s, _). [s])\<rparr>"

definition spinlock_program :: "(nat \<times> worker_pc, int \<times> int, int) program" where
  "spinlock_program = spinlock_of 4 1000000"

lemma spinlock_of_simps [simp]:
  "p_count (spinlock_of n N) = n" "p_start (spinlock_of n N) = (\<lambda>_. (0, Want))"
  "p_body (spinlock_of n N) = do_sum1_body" "p_ended (spinlock_of n N) = (\<lambda>(i, _). \<not> i < N)"
  "p_shared (spinlock_of n N) = (0, 0)" "p_final (spinlock_of n N) = Some (\<lambda>(s, _). [s])"
  by (simp_all add: spinlock_of_def)

lemma do_sum1_simps [simp]:
  "do_sum1_body (i, Want) (s, lk) =
     (if lk = 0 then ((i, Want), (s, 1), []) else ((i, In), (s, lk), []))"
  "do_sum1_body (i, In) (s, lk) = ((i, Loaded s), (s, lk), [])"
  "do_sum1_body (i, Loaded v) (s, lk) = ((i, Out), (v + 1, lk), [])"
  "do_sum1_body (i, Out) (s, lk) = ((i + 1, Want), (s, if lk = 1 then 0 else lk), [])"
  by (simp_all add: do_sum1_body_def spin_lock_turn_def spin_unlock_def compare_and_swap_def)

section \<open>It behaves as the program without a lock\<close>

definition unlocked_view :: "(nat \<times> worker_pc) option \<Rightarrow> (nat \<times> int option) option" where
  "unlocked_view x = map_option (\<lambda>(i, pc). case pc of
     Loaded v \<Rightarrow> (i, Some v) | Out \<Rightarrow> (i + 1, None) | _ \<Rightarrow> (i, None)) x"

lemma unlocked_view_simps [simp]:
  "unlocked_view None = None" "unlocked_view (Some (i, Want)) = Some (i, None)"
  "unlocked_view (Some (i, In)) = Some (i, None)"
  "unlocked_view (Some (i, Loaded v)) = Some (i, Some v)"
  "unlocked_view (Some (i, Out)) = Some (i + 1, None)"
  by (simp_all add: unlocked_view_def)

definition spin_inv ::
  "nat \<Rightarrow> nat \<Rightarrow> (nat \<Rightarrow> (nat \<times> worker_pc) option) \<Rightarrow> int \<times> int \<Rightarrow> int list \<Rightarrow> bool" where
  "spin_inv n N L g out \<longleftrightarrow> plain_inv n N (unlocked_view \<circ> L) (fst g) out"

lemma unlocked_view_upd: "unlocked_view \<circ> (L(k \<mapsto> l)) = (unlocked_view \<circ> L)(k := unlocked_view (Some l))"
  by (simp add: fun_upd_comp)

lemma unlocked_view_same:
  assumes "L k = Some l" and "unlocked_view (Some l') = unlocked_view (Some l)"
  shows "unlocked_view \<circ> (L(k \<mapsto> l')) = unlocked_view \<circ> L"
  by (rule ext) (use assms in simp)

lemma spin_inv_run:
  assumes inv: "spin_inv n N L g out" and k: "k < n" "L k = Some l" "fst l < N"
    and b: "do_sum1_body l g = (l', g', o')"
  shows "spin_inv n N (L(k \<mapsto> l')) g' (out @ o')"
proof -
  obtain i pc s lk where l: "l = (i, pc)" "g = (s, lk)" by (metis prod.exhaust)
  show ?thesis
  proof (cases pc)
    case Want
    with b l have "unlocked_view (Some l') = unlocked_view (Some l)" "fst g' = fst g" "o' = []"
      by (auto split: if_splits)
    with inv unlocked_view_same[of L k l l', OF k(2)] show ?thesis by (simp add: spin_inv_def)
  next
    case Out
    with b l have "unlocked_view (Some l') = unlocked_view (Some l)" "fst g' = fst g" "o' = []"
      by auto
    with inv unlocked_view_same[of L k l l', OF k(2)] show ?thesis by (simp add: spin_inv_def)
  next
    case In
    with b l plain_inv_load[of n N "unlocked_view \<circ> L" s out k i] inv k show ?thesis
      by (auto simp: spin_inv_def unlocked_view_upd)
  next
    case (Loaded v)
    with b l plain_inv_store[of n N "unlocked_view \<circ> L" s out k i v] inv k show ?thesis
      by (auto simp: spin_inv_def unlocked_view_upd)
  qed
qed

definition turns_left :: "nat \<Rightarrow> nat \<times> worker_pc \<Rightarrow> nat" where
  "turns_left N l = (case l of (i, pc) \<Rightarrow>
     5 * (N - i) - (case pc of Want \<Rightarrow> 0 | In \<Rightarrow> 1 | Loaded _ \<Rightarrow> 2 | Out \<Rightarrow> 3))"

text \<open>A free lock word is worth one turn more.\<close>

definition lock_turns :: "int \<times> int \<Rightarrow> nat" where
  "lock_turns g = (if snd g = 0 then 1 else 0)"

lemma spin_work:
  assumes "fst l < N" and "do_sum1_body l g = (l', g', o')"
  shows "turns_left N l' + lock_turns g' < turns_left N l + lock_turns g"
proof -
  obtain i pc s lk where l: "l = (i, pc)" "g = (s, lk)" by (metis prod.exhaust)
  with assms show ?thesis
    by (cases pc) (auto simp: turns_left_def lock_turns_def split: if_splits)
qed

lemma spin_ending:
  assumes "int n < 2 ^ 31"
  shows "ending_prog (spinlock_of n N) (spin_inv n N) (turns_left N) lock_turns (5 * N)"
proof
  show "spin_inv n N (L(k \<mapsto> l')) g' (out @ o')"
    if "spin_inv n N L g out" "k < p_count (spinlock_of n N)" "L k = Some l"
      "\<not> p_ended (spinlock_of n N) l" "p_body (spinlock_of n N) l g = (l', g', o')"
    for L g out k l l' g' o'
    using that spin_inv_run[of n N L g out k l] by (auto split: prod.splits)
  show "turns_left N l' + lock_turns g' < turns_left N l + lock_turns g"
    if "\<not> p_ended (spinlock_of n N) l" "p_body (spinlock_of n N) l g = (l', g', o')" for l g l' g' o'
    using that spin_work[of l N] by (auto split: prod.splits)
  show "spin_inv n N (L(k \<mapsto> p_start (spinlock_of n N) (1 + int k))) g out"
    if "spin_inv n N L g out" "k < p_count (spinlock_of n N)" "L k = None" for L g out k
    using that sum_inv_begin[of False n N "unlocked_view \<circ> L" "fst g" out k]
    by (simp add: spin_inv_def sum_inv_def unlocked_view_upd)
qed (use assms in \<open>auto simp: spin_inv_def plain_inv_def weights_def turns_left_def\<close>)

interpretation sl: ending_prog spinlock_program "spin_inv 4 1000000" "turns_left 1000000"
  lock_turns "5 * 1000000"
  unfolding spinlock_program_def by (rule spin_ending) simp

section \<open>Chosen runs\<close>

text \<open>The lock lets a thread in from either value of the word, and is taken afterwards.\<close>

lemma spin_enter:
  assumes "L k = Some (i, Want)" and "i < N" and "lk = 0 \<or> lk = 1"
  shows "runs_to (spinlock_of n N) (L, (s, lk), out) (L(k \<mapsto> (i, In)), (s, 1), out)"
proof (cases "lk = 0")
  case True
  have "sched_step (spinlock_of n N) k (L, (s, lk), out) = (L(k \<mapsto> (i, Want)), (s, 1), out)"
    using assms True by simp
  also have "L(k \<mapsto> (i, Want)) = L" using assms(1) by (simp add: fun_upd_idem)
  finally have "runs_to (spinlock_of n N) (L, (s, lk), out) (L, (s, 1), out)" by (rule runs_to_step)
  also have "runs_to (spinlock_of n N) (L, (s, 1), out) (L(k \<mapsto> (i, In)), (s, 1), out)"
    by (rule runs_to_step[of _ k]) (use assms in simp)
  finally show ?thesis .
next
  case False
  then show ?thesis by (intro runs_to_step[of _ k]) (use assms in simp)
qed

lemma spin_load:
  assumes "L k = Some (i, In)" and "i < N"
  shows "runs_to (spinlock_of n N) (L, (s, lk), out) (L(k \<mapsto> (i, Loaded s)), (s, lk), out)"
  by (rule runs_to_step[of _ k]) (use assms in simp)

lemma spin_store:
  assumes "L k = Some (i, Loaded v)" and "i < N" and "lk = 0 \<or> lk = 1"
  shows "runs_to (spinlock_of n N) (L, (s, lk), out) (L(k \<mapsto> (i + 1, Want)), (v + 1, 0), out)"
proof -
  have "runs_to (spinlock_of n N) (L, (s, lk), out) (L(k \<mapsto> (i, Out)), (v + 1, lk), out)"
    by (rule runs_to_step[of _ k]) (use assms in simp)
  also have "runs_to (spinlock_of n N) (L(k \<mapsto> (i, Out)), (v + 1, lk), out)
      (L(k \<mapsto> (i + 1, Want)), (v + 1, 0), out)"
    by (rule runs_to_step[of _ k]) (use assms in auto)
  finally show ?thesis .
qed

lemma spin_iteration:
  assumes k: "L k = Some (i, Want)" and i: "i < N" and "lk = 0 \<or> lk = 1"
  shows "runs_to (spinlock_of n N) (L, (s, lk), out) (L(k \<mapsto> (i + 1, Want)), (s + 1, 0), out)"
proof -
  have "runs_to (spinlock_of n N) (L, (s, lk), out) (L(k \<mapsto> (i, In)), (s, 1), out)"
    by (rule spin_enter) (use assms in simp_all)
  also have "runs_to (spinlock_of n N) (L(k \<mapsto> (i, In)), (s, 1), out) (L(k \<mapsto> (i, Loaded s)), (s, 1), out)"
    using spin_load[of "L(k \<mapsto> (i, In))" k i N n s 1 out] i by simp
  also have "runs_to (spinlock_of n N) (L(k \<mapsto> (i, Loaded s)), (s, 1), out)
      (L(k \<mapsto> (i + 1, Want)), (s + 1, 0), out)"
    using spin_store[of "L(k \<mapsto> (i, Loaded s))" k i s N 1 n s out] i by simp
  finally show ?thesis .
qed

lemma spin_alone:
  assumes "L k = Some (i, Want)" and "i + m \<le> N" and "lk = 0 \<or> lk = 1" and "0 < m"
  shows "runs_to (spinlock_of n N) (L, (s, lk), out) (L(k \<mapsto> (i + m, Want)), (s + int m, 0), out)"
  using assms
proof (induction m arbitrary: i L s lk)
  case (Suc m)
  have it: "runs_to (spinlock_of n N) (L, (s, lk), out) (L(k \<mapsto> (i + 1, Want)), (s + 1, 0), out)"
    using spin_iteration[of L k i N lk n s out] Suc.prems by simp
  show ?case
  proof (cases m)
    case 0
    with it show ?thesis by (simp del: fun_upd_apply)
  next
    case (Suc m')
    have "(L(k \<mapsto> (i + 1, Want))) k = Some (i + 1, Want)" and "i + 1 + m \<le> N" and "0 < m"
      using Suc \<open>i + Suc m \<le> N\<close> by simp_all
    from Suc.IH[where L = "L(k \<mapsto> (i + 1, Want))", OF this(1,2) _ this(3), of 0 "s + 1"] have
      "runs_to (spinlock_of n N) (L(k \<mapsto> (i + 1, Want)), (s + 1, 0), out)
        (L(k \<mapsto> (i + Suc m, Want)), (s + int (Suc m), 0), out)" by (simp add: add.assoc del: fun_upd_apply)
    with it show ?thesis by (rule runs_to_trans)
  qed
qed simp

text \<open>The order that loses the most additions of \<open>sum.c\<close>, with the lock in place.\<close>

lemma spin_worst:
  assumes "2 \<le> N"
  shows "\<exists>L. runs_to (spinlock_of 4 N) (all_begun (spinlock_of 4 N), (0, 0), []) (L, (2, 0), []) \<and>
    (\<forall>k < 4. L k = Some (N, Want))"
proof -
  let ?P = "spinlock_of 4 N"
  define L0 where "L0 = all_begun ?P"
  define L1 where "L1 = L0(0 \<mapsto> (0, In))"
  define L2 where "L2 = L1(0 \<mapsto> (0, Loaded 0))"
  define L3 where "L3 = L2(1 \<mapsto> (N - 1, Want))"
  define L4 where "L4 = L3(0 \<mapsto> (1, Want))"
  define L5 where "L5 = L4(1 \<mapsto> (N - 1, In))"
  define L6 where "L6 = L5(1 \<mapsto> (N - 1, Loaded 1))"
  define L7 where "L7 = L6(0 \<mapsto> (N, Want))"
  define L8 where "L8 = L7(2 \<mapsto> (N, Want))"
  define L9 where "L9 = L8(3 \<mapsto> (N, Want))"
  have L0: "k < 4 \<Longrightarrow> L0 k = Some (0, Want)" for k by (simp add: L0_def all_begun_def)
  note d = L0 L1_def L2_def L3_def L4_def L5_def L6_def L7_def L8_def L9_def
  have "runs_to ?P (L0, (0, 0), []) (L1, (0, 1), [])"
    using spin_enter[of L0 0 0 N 0 4 0] assms by (simp add: d)
  also have "runs_to ?P (L1, (0, 1), []) (L2, (0, 1), [])"
    using spin_load[of L1 0 0 N 4 0 1] assms by (simp add: d)
  also have "runs_to ?P (L2, (0, 1), []) (L3, (int (N - 1), 0), [])"
    using spin_alone[of L2 1 0 "N - 1" N 1 4 0] assms by (simp add: d)
  also have "runs_to ?P (L3, (int (N - 1), 0), []) (L4, (1, 0), [])"
    using spin_store[of L3 0 0 0 N 0 4] assms by (simp add: d)
  also have "runs_to ?P (L4, (1, 0), []) (L5, (1, 1), [])"
    using spin_enter[of L4 1 "N - 1" N 0 4 1] assms by (simp add: d)
  also have "runs_to ?P (L5, (1, 1), []) (L6, (1, 1), [])"
    using spin_load[of L5 1 "N - 1" N 4 1 1] assms by (simp add: d)
  also have "runs_to ?P (L6, (1, 1), []) (L7, (int N, 0), [])"
    using spin_alone[of L6 0 1 "N - 1" N 1 4 1] assms by (simp add: d)
  also have "runs_to ?P (L7, (int N, 0), []) (L8, (int N + int N, 0), [])"
    using spin_alone[of L7 2 0 N N 0 4 "int N"] assms by (simp add: d)
  also have "runs_to ?P (L8, (int N + int N, 0), []) (L9, (int N + int N + int N, 0), [])"
    using spin_alone[of L8 3 0 N N 0 4 "int N + int N"] assms by (simp add: d)
  also have "runs_to ?P (L9, (int N + int N + int N, 0), []) (L9(1 \<mapsto> (N, Want)), (2, 0), [])"
    using spin_store[of L9 1 "N - 1" 1 N 0 4] assms by (simp add: d)
  finally have "runs_to ?P (L0, (0, 0), []) (L9(1 \<mapsto> (N, Want)), (2, 0), [])" .
  moreover have "\<forall>k < 4. (L9(1 \<mapsto> (N, Want))) k = Some (N, Want)"
    by (auto simp: d less_Suc_eq eval_nat_numeral)
  ultimately show ?thesis unfolding L0_def by blast
qed

section \<open>Properties\<close>

lemma spinlock_output:
  assumes "prog_states spinlock_program s" and "ts_main s = Exited"
  shows "\<exists>v. ts_out s = [v] \<and> 2 \<le> v \<and> v \<le> 4000000"
proof -
  obtain L out where o: "spin_inv 4 1000000 L (ts_shared s) out"
    "ts_out s = out @ closing spinlock_program (ts_shared s)"
    "\<And>k. k < p_count spinlock_program \<Longrightarrow> \<exists>l. L k = Some l \<and> p_ended spinlock_program l"
    by (rule sl.output_at_exit[OF assms]) blast
  have "1000000 \<le> increments ((unlocked_view \<circ> L) k)" if k: "k < 4" for k
  proof -
    from o(3)[of k] k obtain i pc where "L k = Some (i, pc)" "1000000 \<le> i"
      by (auto simp: spinlock_program_def)
    then show ?thesis by (cases pc) simp_all
  qed
  with sum_inv_all[of False 4 1000000 "unlocked_view \<circ> L" "fst (ts_shared s)" out] o(1,2)
  show ?thesis by (auto simp: sum_inv_def spin_inv_def closing_def spinlock_program_def split: prod.splits)
qed

lemma spinlock_prints_2: "\<exists>s. prog_states spinlock_program s \<and> ts_main s = Exited \<and> ts_out s = [2]"
proof -
  obtain ks L where
    r: "sched spinlock_program ks (all_begun spinlock_program, p_shared spinlock_program, []) = (L, (2, 0), [])"
    and L: "\<forall>k < 4. L k = Some (1000000, Want)"
    using spin_worst[of 1000000] by (auto simp: spinlock_program_def runs_to_def)
  have "\<exists>l. L k = Some l \<and> p_ended spinlock_program l" if "k < p_count spinlock_program" for k
    using L that by (simp add: spinlock_program_def)
  from sl.run_exists[OF r this] show ?thesis by (simp add: closing_def spinlock_program_def)
qed

lemma spinlock_ends: "ends_within spinlock_program 20000015"
  using sl.run_ends by (simp add: spinlock_program_def lock_turns_def)

text \<open>
  C28. \<open>spinlock.c\<close>, whose lock lets every thread in, still ends under every interleaving (unless
  \<open>malloc\<close> fails) and prints one number between 2 and 4000000, where a lock that excludes would
  make it 4000000. The number 2 is printed in some run: the lock prevents none of the losses
  that the program without a lock has.
\<close>

theorem spinlock_prints_between:
  "ends_within spinlock_program 20000015 \<and>
   (\<forall>s. prog_states spinlock_program s \<and> ts_main s = Exited \<longrightarrow>
      (\<exists>v. ts_out s = [v] \<and> 2 \<le> v \<and> v \<le> 4000000)) \<and>
   (\<exists>s. prog_states spinlock_program s \<and> ts_main s = Exited \<and> ts_out s = [2])"
  using spinlock_ends spinlock_output spinlock_prints_2 by blast

lemma spinlock_prints_between_witness:
  "\<exists>s v. prog_states spinlock_program s \<and> ts_main s = Exited \<and> ts_out s = [v] \<and> 2 \<le> v \<and> v \<le> 4000000"
proof -
  obtain s where s: "prog_states spinlock_program s" "ts_main s = Exited" using spinlock_prints_2 by blast
  with spinlock_prints_between obtain v where "ts_out s = [v]" "2 \<le> v" "v \<le> 4000000" by blast
  with s show ?thesis by blast
qed

end
