(* ===== verification/StackProbe.thy ===== *)
theory StackProbe
  imports Prelude
begin

text \<open>
  \<open>multi-threads/stack-probe.c\<close>: a thread recurses without end and prints, every 1024 calls, how
  far below its first local variable the current one lies, until the stack is used up.

  The distance between the variables of two nested calls is the frame size \<open>f\<close>, which the
  compiler fixes; \<open>sz\<close> is the number of bytes below the first variable that the thread's stack
  has. The recursion of the C code has no end of its own: the model is a partial function, whose
  runs end in the fault of the first access below the stack, or in the overflow of the counter.
  The thread-local variables \<open>id\<close>, \<open>base\<close> and \<open>now\<close> are arguments and local values; four threads
  run the function, and the first fault ends the process.
\<close>

datatype probe_line = Address_line int | Size_line int nat int int

partial_function (option) stackoverflow ::
  "nat \<Rightarrow> nat \<Rightarrow> int \<Rightarrow> int \<Rightarrow> nat \<Rightarrow> (probe_line list \<times> c_fail) option" where
  "stackoverflow f sz tid base n =
     (if sz < n * f then Some ([], OutOfBounds)
      else
        let now = base - int (n * f);
            line = (if n mod 1024 = 0 then [Size_line tid n base ((base - now) div 1024)] else [])
        in if n = 2 ^ 31 - 1 then Some (line, SignedOverflow)
           else Option.bind (stackoverflow f sz tid base (n + 1)) (\<lambda>r. Some (line @ fst r, snd r)))"

definition probe :: "nat \<Rightarrow> nat \<Rightarrow> int \<Rightarrow> int \<Rightarrow> (probe_line list \<times> c_fail) option" where
  "probe f sz base tid =
     Option.bind (stackoverflow f sz tid base 0) (\<lambda>r. Some (Address_line tid # fst r, snd r))"

lemma stackoverflow_fault: "sz < n * f \<Longrightarrow> stackoverflow f sz tid base n = Some ([], OutOfBounds)"
  by (subst stackoverflow.simps) simp

lemma stackoverflow_next:
  assumes "n * f \<le> sz" and "n < 2 ^ 31 - 1"
  shows "stackoverflow f sz tid base n = map_option (\<lambda>(ls, e).
    ((if n mod 1024 = 0 then [Size_line tid n base (int (n * f div 1024))] else []) @ ls, e))
    (stackoverflow f sz tid base (Suc n))"
  using assms
  by (subst stackoverflow.simps)
     (cases "stackoverflow f sz tid base (Suc n)"; simp add: Let_def zdiv_int split: prod.split)

lemma stackoverflow_lines:
  assumes f: "0 < f" and small: "sz div f < 2 ^ 31 - 1" and n: "n \<le> Suc (sz div f)"
  shows "stackoverflow f sz tid base n = Some (map (\<lambda>m. Size_line tid m base (int (m * f div 1024)))
    (filter (\<lambda>m. m mod 1024 = 0) [n ..< Suc (sz div f)]), OutOfBounds)"
  using n
proof (induction n rule: inc_induct)
  case base
  have "sz < Suc (sz div f) * f" using f by (simp add: dividend_less_div_times)
  then show ?case by (simp add: stackoverflow_fault)
next
  case (step n)
  then have "n * f \<le> sz" using f by (simp add: less_eq_div_iff_mult_less_eq less_Suc_eq_le)
  moreover have "n < 2 ^ 31 - 1" using step(1,2) small by simp
  ultimately show ?case
    using step by (subst stackoverflow_next) (simp_all add: upt_conv_Cons del: upt_Suc)
qed

lemma multiples_upt:
  "0 < d \<Longrightarrow> filter (\<lambda>m. m mod d = 0) [0..<Suc n] = map ((*) d) [0..<Suc (n div d)]"
proof (induction n)
  case (Suc n)
  have snoc: "[0..<Suc (Suc m)] = [0..<Suc m] @ [Suc m]" for m by simp
  show ?case
  proof (cases "Suc n mod d = 0")
    case True
    then have "Suc n div d = Suc (n div d)" "d * (Suc n div d) = Suc n"
      using mult_div_mod_eq[of d "Suc n"] by (simp_all add: div_Suc del: mult_Suc_right)
    with Suc True show ?thesis by (simp add: snoc del: upt_Suc mult_Suc_right)
  next
    case False
    then have "Suc n div d = n div d" by (simp add: div_Suc)
    with Suc False show ?thesis by (simp add: snoc del: upt_Suc)
  qed
qed simp

section \<open>Property\<close>



end
