(* ===== verification/Sperf.thy ===== *)
theory Sperf
  imports Prelude "HOL-Library.Multiset"
begin

text \<open>
  \<open>mycode/sperf.c\<close>: the profiler that reads the output of \<open>strace -T\<close> and accumulates the time
  per system call. The linked list of \<open>func_time\<close> nodes is a list of entries in link order.
  Times are values of any linearly ordered type; the addition \<open>add\<close>, the conversion \<open>scan_lf\<close>
  of \<open>sscanf(time_str, "%lf")\<close> and the percentage \<open>pct\<close> of \<open>show\<close> are parameters, so nothing
  below depends on the rounding of \<open>double\<close>.

  The input is the list of pieces that \<open>fgets(s, 300, stdin)\<close> delivers, at most 299 characters
  each. The buffer \<open>s\<close> keeps what a shorter line leaves behind. \<open>None\<close> stands for a loop that
  never ends.
\<close>

section \<open>Definitions\<close>

record 't func_time =
  func :: string
  ftime :: 't

fun sp_append :: "('t \<Rightarrow> 't \<Rightarrow> 't) \<Rightarrow> 't func_time list \<Rightarrow> 't func_time \<Rightarrow> 't func_time list" where
  "sp_append add [] p = [p]"
| "sp_append add [q] p =
     (if func q = func p then [q\<lparr>ftime := add (ftime q) (ftime p)\<rparr>] else [q, p])"
| "sp_append add (q # r # qs) p =
     (if func q = func p then q\<lparr>ftime := add (ftime q) (ftime p)\<rparr> # r # qs
      else q # sp_append add (r # qs) p)"

text \<open>The inner loop of \<open>sort\<close>: \<open>p\<close> is compared with each later entry and exchanged with it
  when that one is greater.\<close>

fun exchange :: "'t :: linorder func_time \<Rightarrow> 't func_time list \<Rightarrow> 't func_time \<times> 't func_time list" where
  "exchange p [] = (p, [])"
| "exchange p (q # qs) =
     (if ftime q > ftime p
      then (let (m, r) = exchange q qs in (m, p # r))
      else (let (m, r) = exchange p qs in (m, q # r)))"

lemma length_exchange [simp]: "length (snd (exchange p qs)) = length qs"
  by (induction qs arbitrary: p) (auto simp: Let_def case_prod_beta)

function sort_from :: "'t :: linorder func_time list \<Rightarrow> 't func_time list" where
  "sort_from [] = []"
| "sort_from (p # qs) = (let r = exchange p qs in fst r # sort_from (snd r))"
  by pat_completeness auto

termination
  by (relation "measure length") auto

definition sp_sort :: "'t :: linorder func_time list \<Rightarrow> 't func_time list res" where
  "sp_sort head = (if head = [] then Inl AssertFailed else Inr (sort_from head))"

definition Max_Output_Num :: nat where
  "Max_Output_Num = 8"

fun show_loop :: "('t \<Rightarrow> 't \<Rightarrow> nat) \<Rightarrow> 't \<Rightarrow> nat \<Rightarrow> 't func_time list \<Rightarrow> (string \<times> nat) list" where
  "show_loop pct tot num [] = []"
| "show_loop pct tot num (p # ps) =
     (func p, pct (ftime p) tot) #
     (if num = Max_Output_Num then [] else show_loop pct tot (num + 1) ps)"

definition sp_show :: "('t \<Rightarrow> 't \<Rightarrow> nat) \<Rightarrow> 't func_time list \<Rightarrow> 't \<Rightarrow> (string \<times> nat) list res" where
  "sp_show pct head tot = (if head = [] then Inl AssertFailed else Inr (show_loop pct tot 1 head))"

text \<open>The buffer of 300 bytes.\<close>

definition sp_clear :: string where
  "sp_clear = replicate 300 NUL"

definition fill :: "string \<Rightarrow> string \<Rightarrow> string" where
  "fill s piece = piece @ NUL # drop (Suc (length piece)) s"

text \<open>The scan for the opening bracket; without one it runs out of the buffer.\<close>

definition scan_name :: "string \<Rightarrow> string res" where
  "scan_name s =
     (if CHR ''('' \<in> set s then Inr (takeWhile (\<lambda>c. c \<noteq> CHR ''('') s) else Inl OutOfBounds)"

fun find_lt :: "string \<Rightarrow> nat \<Rightarrow> nat" where
  "find_lt s 0 = 0"
| "find_lt s (Suc i) = (if s ! Suc i = CHR ''<'' then Suc i else find_lt s i)"

fun refill :: "string list \<Rightarrow> (string \<times> nat \<times> string list) option" where
  "refill [] = None"
| "refill (piece # ps) =
     (let s = fill sp_clear piece; index = find_lt s 299
      in if index = 0 then refill ps else Some (s, index, ps))"

definition read_time :: "(string \<Rightarrow> 't) \<Rightarrow> string \<Rightarrow> nat \<Rightarrow> 't res" where
  "read_time scan_lf s index =
     (if 300 < index + 1 + 8 then Inl OutOfBounds else Inr (scan_lf (cstr (take 8 (drop (index + 1) s)))))"

text \<open>One turn of the reading loop up to the entry: the call read, if any, the buffer and the
  pieces left.\<close>

definition is_lower :: "char \<Rightarrow> bool" where
  "is_lower c \<longleftrightarrow> 97 \<le> (of_char c :: nat) \<and> (of_char c :: nat) \<le> 122"

definition read_call ::
  "(string \<Rightarrow> 't) \<Rightarrow> string \<Rightarrow> string \<Rightarrow> string list \<Rightarrow> ('t func_time option \<times> string \<times> string list) res option" where
  "read_call scan_lf s piece ps =
     (let s1 = fill s piece in
      if \<not> is_lower (s1 ! 0) then Some (Inr (None, s1, ps))
      else case scan_name s1 of
        Inl e \<Rightarrow> Some (Inl e)
      | Inr nm \<Rightarrow>
          if cstr nm = ''exit_group'' then Some (Inr (None, s1, ps))
          else (case (if find_lt s1 299 = 0 then refill ps else Some (s1, find_lt s1 299, ps)) of
                  None \<Rightarrow> None
                | Some (s2, index, ps2) \<Rightarrow>
                    Some (rbind (read_time scan_lf s2 index)
                      (\<lambda>t. Inr (Some \<lparr>func = cstr nm, ftime = t\<rparr>, sp_clear, ps2)))))"

lemma refill_shorter: "refill ps = Some (s, i, ps') \<Longrightarrow> length ps' < length ps"
  by (induction ps) (auto simp: Let_def split: if_splits)

lemma read_call_shorter: "read_call scan_lf s piece ps = Some (Inr (e, s', ps')) \<Longrightarrow> length ps' \<le> length ps"
  by (auto simp: read_call_def Let_def split: if_splits sum.splits option.splits dest!: refill_shorter)

text \<open>The parent process. \<open>due k\<close> says whether a tenth of a second has passed when the
  \<open>k\<close>-th call is entered; the result is the list, the total and the outputs of \<open>show\<close>.
  \<open>append\<close> never returns an empty list, so the assertion of \<open>sort\<close> after it holds.\<close>

function sp_loop ::
  "('t :: linorder \<Rightarrow> 't \<Rightarrow> 't) \<Rightarrow> (string \<Rightarrow> 't) \<Rightarrow> ('t \<Rightarrow> 't \<Rightarrow> nat) \<Rightarrow> (nat \<Rightarrow> bool) \<Rightarrow> nat \<Rightarrow> string \<Rightarrow>
   string list \<Rightarrow> 't func_time list \<Rightarrow> 't \<Rightarrow> ('t func_time list \<times> 't \<times> (string \<times> nat) list list) res option" where
  "sp_loop add scan_lf pct due k s [] head tot = Some (Inr (head, tot, []))"
| "sp_loop add scan_lf pct due k s (piece # ps) head tot =
     (case read_call scan_lf s piece ps of
        None \<Rightarrow> None
      | Some (Inl e) \<Rightarrow> Some (Inl e)
      | Some (Inr (None, s', ps')) \<Rightarrow> sp_loop add scan_lf pct due k s' ps' head tot
      | Some (Inr (Some p, s', ps')) \<Rightarrow>
          (let tot' = add tot (ftime p); head' = sort_from (sp_append add head p)
           in map_option (\<lambda>r. rbind r (\<lambda>(h, t, out).
                Inr (h, t, if due k then show_loop pct tot' 1 head' # out else out)))
              (sp_loop add scan_lf pct due (k + 1) s' ps' head' tot')))"
  by pat_completeness auto

termination
  by (relation "measure (\<lambda>(_, _, _, _, _, _, ps, _, _). length ps)") (auto dest!: read_call_shorter)

definition sp_parent ::
  "('t :: linorder \<Rightarrow> 't \<Rightarrow> 't) \<Rightarrow> 't \<Rightarrow> (string \<Rightarrow> 't) \<Rightarrow> ('t \<Rightarrow> 't \<Rightarrow> nat) \<Rightarrow> (nat \<Rightarrow> bool) \<Rightarrow> string list \<Rightarrow>
   (string \<times> nat) list list res option" where
  "sp_parent add zero scan_lf pct due pieces =
     map_option (\<lambda>r. rbind r (\<lambda>(head, tot, out).
         rbind (sp_sort head) (\<lambda>head'. rbind (sp_show pct head' tot) (\<lambda>last. Inr (out @ [last])))))
       (sp_loop add scan_lf pct due 0 sp_clear pieces [] zero)"

section \<open>Sorting and accumulation\<close>

lemma exchange_mset: "add_mset (fst (exchange p qs)) (mset (snd (exchange p qs))) = add_mset p (mset qs)"
proof (induction qs arbitrary: p)
  case (Cons q qs)
  show ?case
    using Cons[of q] Cons[of p] by (auto simp: Let_def case_prod_beta add_mset_commute)
qed simp

lemma exchange_max:
  fixes p :: "'t :: linorder func_time"
  shows "ftime p \<le> ftime (fst (exchange p qs)) \<and> (\<forall>q \<in> set (snd (exchange p qs)). ftime q \<le> ftime (fst (exchange p qs)))"
proof (induction qs arbitrary: p)
  case (Cons q qs)
  show ?case
    using Cons[of q] Cons[of p] by (auto simp: Let_def case_prod_beta)
qed simp

lemma sort_from_mset: "mset (sort_from xs) = mset xs"
  by (induction xs rule: sort_from.induct) (simp_all add: Let_def exchange_mset)

lemma sort_from_sorted: "sorted_wrt (\<lambda>x y. ftime x \<ge> ftime y) (sort_from (xs :: 't :: linorder func_time list))"
proof (induction xs rule: sort_from.induct)
  case (2 p qs)
  have "set (sort_from (snd (exchange p qs))) = set (snd (exchange p qs))"
    by (metis mset_eq_setD sort_from_mset)
  with 2 exchange_max[of p qs] show ?case by (auto simp: Let_def)
qed simp

text \<open>The times accumulated per name; the order of the list does not matter to them.\<close>

definition times :: "'t func_time list \<Rightarrow> string \<rightharpoonup> 't" where
  "times xs = map_of (map (\<lambda>p. (func p, ftime p)) xs)"

lemma times_mset:
  assumes "mset xs = mset ys" and "distinct (map func xs)"
  shows "times xs = times ys" "distinct (map func ys)"
proof -
  have d: "distinct (map func ys)" using assms mset_eq_imp_distinct_iff[of "map func xs" "map func ys"] by simp
  show "distinct (map func ys)" by (rule d)
  have "set (map (\<lambda>p. (func p, ftime p)) xs) = set (map (\<lambda>p. (func p, ftime p)) ys)"
    using assms(1) by (metis mset_eq_setD mset_map)
  moreover have "distinct (map fst (map (\<lambda>p. (func p, ftime p)) zs))" if "distinct (map func zs)" for zs :: "'a func_time list"
    using that by (simp add: comp_def)
  ultimately show "times xs = times ys" unfolding times_def using assms(2) d by (intro map_of_inject_set[THEN iffD2]) auto
qed

lemma sp_append_func:
  "set (map func (sp_append add xs p)) = insert (func p) (set (map func xs)) \<and>
   (distinct (map func xs) \<longrightarrow> distinct (map func (sp_append add xs p)))"
  by (induction add xs p rule: sp_append.induct) auto

lemma sp_append_times:
  "times (sp_append add xs p) =
     (times xs)(func p \<mapsto> (case times xs (func p) of None \<Rightarrow> ftime p | Some t \<Rightarrow> add t (ftime p)))"
  by (induction add xs p rule: sp_append.induct) (auto simp: times_def fun_upd_twist)

lemma sp_append_nonempty [simp]: "sp_append add xs p \<noteq> []"
  by (cases "(add, xs, p)" rule: sp_append.cases) auto

text \<open>What the calls of a trace add up to, in the order they were made.\<close>

definition charge :: "('t \<Rightarrow> 't \<Rightarrow> 't) \<Rightarrow> 't func_time \<Rightarrow> (string \<rightharpoonup> 't) \<Rightarrow> (string \<rightharpoonup> 't)" where
  "charge add p m = m(func p \<mapsto> (case m (func p) of None \<Rightarrow> ftime p | Some t \<Rightarrow> add t (ftime p)))"

definition enter :: "('t :: linorder \<Rightarrow> 't \<Rightarrow> 't) \<Rightarrow> 't func_time \<Rightarrow> 't func_time list \<Rightarrow> 't func_time list" where
  "enter add p head = sort_from (sp_append add head p)"

lemma enter_ok:
  assumes "distinct (map func xs)"
  shows "distinct (map func (enter add p xs)) \<and> times (enter add p xs) = charge add p (times xs)"
proof -
  have "distinct (map func (sp_append add xs p))" using sp_append_func assms by blast
  with times_mset[OF sort_from_mset[symmetric] this] show ?thesis
    by (simp add: enter_def charge_def sp_append_times)
qed

lemma fold_enter_ok:
  "distinct (map func xs) \<Longrightarrow>
   distinct (map func (fold (enter add) ps xs)) \<and> times (fold (enter add) ps xs) = fold (charge add) ps (times xs)"
proof (induction ps arbitrary: xs)
  case (Cons p ps)
  with enter_ok[OF Cons.prems, of add p] show ?case by simp
qed simp

section \<open>Reading a trace\<close>

text \<open>A line of \<open>strace -T\<close>: name, arguments and result, time in eight characters.\<close>

definition call_line :: "string \<times> string \<times> string \<Rightarrow> string" where
  "call_line = (\<lambda>(nm, args, tm). nm @ ''('' @ args @ ''<'' @ tm @ ''>'' @ [CHR 0x0A])"

definition call_ok :: "string \<times> string \<times> string \<Rightarrow> bool" where
  "call_ok = (\<lambda>(nm, args, tm). nm \<noteq> [] \<and> is_lower (hd nm) \<and> CHR ''('' \<notin> set nm \<and> NUL \<notin> set nm \<and> nm \<noteq> ''exit_group'' \<and>
     length tm = 8 \<and> CHR ''<'' \<notin> set tm \<and> NUL \<notin> set tm \<and> length (call_line (nm, args, tm)) \<le> 299)"

definition call_of :: "(string \<Rightarrow> 't) \<Rightarrow> string \<times> string \<times> string \<Rightarrow> 't func_time" where
  "call_of scan_lf = (\<lambda>(nm, args, tm). \<lparr>func = nm, ftime = scan_lf tm\<rparr>)"

lemma find_lt_last:
  "k \<le> n \<Longrightarrow> 0 < k \<Longrightarrow> s ! k = CHR ''<'' \<Longrightarrow> (\<And>j. k < j \<Longrightarrow> j \<le> n \<Longrightarrow> s ! j \<noteq> CHR ''<'') \<Longrightarrow> find_lt s n = k"
  by (induction n) (auto simp: le_Suc_eq)

lemma find_lt_none: "(\<And>j. 0 < j \<Longrightarrow> j \<le> n \<Longrightarrow> s ! j \<noteq> CHR ''<'') \<Longrightarrow> find_lt s n = 0"
  by (induction n) auto

lemma fill_clear: "length piece \<le> 299 \<Longrightarrow> fill sp_clear piece = piece @ replicate (300 - length piece) NUL"
proof -
  assume "length piece \<le> 299"
  then have "300 - length piece = Suc (300 - Suc (length piece))" by simp
  then show ?thesis by (simp add: fill_def sp_clear_def)
qed

lemma takeWhile_bracket: "CHR ''('' \<notin> set nm \<Longrightarrow> takeWhile (\<lambda>c. c \<noteq> CHR ''('') (nm @ CHR ''('' # r) = nm"
  by (induction nm) auto

lemma read_call_ok:
  assumes "call_ok (nm, args, tm)"
  shows "read_call scan_lf sp_clear (call_line (nm, args, tm)) ps =
    Some (Inr (Some (call_of scan_lf (nm, args, tm)), sp_clear, ps))"
proof -
  let ?k = "length nm + 1 + length args"
  let ?pad = "replicate (300 - length (call_line (nm, args, tm))) NUL"
  define s where "s = fill sp_clear (call_line (nm, args, tm))"
  have len: "length (call_line (nm, args, tm)) \<le> 299" and tm: "length tm = 8" "CHR ''<'' \<notin> set tm" "NUL \<notin> set tm"
    and nm: "nm \<noteq> []" "is_lower (hd nm)" "CHR ''('' \<notin> set nm" "NUL \<notin> set nm" "nm \<noteq> ''exit_group''"
    using assms by (auto simp: call_ok_def)
  have s: "s = (nm @ ''('' @ args) @ CHR ''<'' # tm @ (''>'' @ [CHR 0x0A] @ ?pad)"
    unfolding s_def fill_clear[OF len] by (simp add: call_line_def)
  have k: "?k = length (nm @ ''('' @ args)" by simp
  have kl: "?k + 11 \<le> 299" using len tm(1) by (simp add: call_line_def)
  have sk: "s ! ?k = CHR ''<''" unfolding s k by (rule nth_append_length)
  have after: "s ! j \<noteq> CHR ''<''" if "?k < j" "j \<le> 299" for j
  proof -
    have "s ! j = (tm @ (''>'' @ [CHR 0x0A] @ ?pad)) ! (j - Suc ?k)"
    proof -
      have "s ! j = (CHR ''<'' # tm @ (''>'' @ [CHR 0x0A] @ ?pad)) ! (j - ?k)"
        unfolding s nth_append[of "nm @ ''('' @ args"] using that by (simp only: k[symmetric]) simp
      moreover have "j - ?k = Suc (j - Suc ?k)" using that by simp
      ultimately show ?thesis by simp
    qed
    moreover have "j - Suc ?k < length (tm @ (''>'' @ [CHR 0x0A] @ ?pad))"
      using that len by (simp add: call_line_def)
    ultimately have "s ! j \<in> set (tm @ (''>'' @ [CHR 0x0A] @ ?pad))" using nth_mem by metis
    then show ?thesis using tm(2) by auto
  qed
  have lt: "find_lt s 299 = ?k" using find_lt_last[of ?k 299 s] sk after kl by simp
  have "s ! 0 = hd nm" using nm(1) unfolding s by (simp add: nth_append hd_conv_nth)
  moreover have "scan_name s = Inr nm"
    unfolding scan_name_def s using takeWhile_bracket[OF nm(3)] by simp
  moreover have "take 8 (drop (?k + 1) s) = tm"
    unfolding s using tm(1) by simp
  then have "read_time scan_lf s ?k = Inr (scan_lf tm)" using kl tm(3) by (simp add: read_time_def)
  ultimately show ?thesis
    using nm lt by (simp add: read_call_def s_def[symmetric] Let_def call_of_def)
qed

lemma sp_loop_calls:
  assumes "\<forall>c \<in> set cs. call_ok c"
  shows "\<exists>out. sp_loop add scan_lf pct due k sp_clear (map call_line cs) head tot =
    Some (Inr (fold (enter add) (map (call_of scan_lf) cs) head,
      fold (\<lambda>p t. add t (ftime p)) (map (call_of scan_lf) cs) tot, out))"
  using assms
proof (induction cs arbitrary: k head tot)
  case (Cons c cs)
  obtain nm args tm where c: "c = (nm, args, tm)" by (cases c)
  from Cons.prems have ok: "call_ok (nm, args, tm)" by (simp add: c)
  from Cons.IH[of "k + 1" "enter add (call_of scan_lf c) head" "add tot (ftime (call_of scan_lf c))"] Cons.prems
  obtain out where "sp_loop add scan_lf pct due (k + 1) sp_clear (map call_line cs) (enter add (call_of scan_lf c) head)
      (add tot (ftime (call_of scan_lf c))) =
    Some (Inr (fold (enter add) (map (call_of scan_lf) (c # cs)) head,
      fold (\<lambda>p t. add t (ftime p)) (map (call_of scan_lf) (c # cs)) tot, out))" by auto
  then show ?case unfolding list.map(2)[of call_line] sp_loop.simps(2)
    by (simp add: c read_call_ok[OF ok] enter_def[symmetric] Let_def)
qed simp

lemma show_loop_take: "num \<le> Max_Output_Num \<Longrightarrow>
  show_loop pct tot num ps = map (\<lambda>p. (func p, pct (ftime p) tot)) (take (Suc Max_Output_Num - num) ps)"
proof (induction ps arbitrary: num)
  case (Cons p ps)
  then show ?case
    using Cons.IH[of "Suc num"] by (cases "num = Max_Output_Num") (auto simp: Suc_diff_le)
qed simp

section \<open>Properties\<close>

text \<open>
  \<open>sort\<close> puts the entries in order of decreasing time and only rearranges them; on an empty
  list its assertion fails.
\<close>

theorem sort_sorts:
  "case sp_sort (xs :: 't :: linorder func_time list) of
     Inl e \<Rightarrow> e = AssertFailed \<and> xs = []
   | Inr ys \<Rightarrow> sorted_wrt (\<lambda>x y. ftime x \<ge> ftime y) ys \<and> mset ys = mset xs"
  by (simp add: sp_sort_def sort_from_sorted sort_from_mset)

lemma sp_parent_totals:
  fixes add :: "'t :: linorder \<Rightarrow> 't \<Rightarrow> 't"
  assumes "cs \<noteq> []" and "\<forall>c \<in> set cs. call_ok c"
  shows "\<exists>head out. sp_parent add zero scan_lf pct due (map call_line cs) = Some (Inr (out @
      [map (\<lambda>p. (func p, pct (ftime p) (fold (\<lambda>p t. add t (ftime p)) (map (call_of scan_lf) cs) zero))) (take 8 head)])) \<and>
    distinct (map func head) \<and> sorted_wrt (\<lambda>x y. ftime x \<ge> ftime y) head \<and>
    times head = fold (charge add) (map (call_of scan_lf) cs) Map.empty"
proof -
  let ?calls = "map (call_of scan_lf) cs"
  let ?h = "fold (enter add) ?calls []"
  from sp_loop_calls[OF assms(2), of add scan_lf pct due 0 "[]" zero] obtain out where
    l: "sp_loop add scan_lf pct due 0 sp_clear (map call_line cs) [] zero =
      Some (Inr (?h, fold (\<lambda>p t. add t (ftime p)) ?calls zero, out))" by blast
  have sf: "sort_from xs = [] \<longleftrightarrow> xs = []" for xs :: "'t func_time list"
    using sort_from_mset[of xs] by (metis mset_zero_iff)
  have "fold (enter add) ps xs \<noteq> []" if "ps \<noteq> [] \<or> xs \<noteq> []" for ps xs
    using that by (induction ps arbitrary: xs) (auto simp: enter_def sf)
  then have ne: "?h \<noteq> []" using assms(1) by simp
  have f: "distinct (map func ?h)" "times ?h = fold (charge add) ?calls Map.empty"
    using fold_enter_ok[of "[]" add ?calls] by (simp_all add: times_def)
  note g = times_mset[OF sort_from_mset[symmetric] f(1)]
  have "sp_parent add zero scan_lf pct due (map call_line cs) = Some (Inr (out @
      [map (\<lambda>p. (func p, pct (ftime p) (fold (\<lambda>p t. add t (ftime p)) ?calls zero))) (take 8 (sort_from ?h))]))"
    using l ne by (simp add: sp_parent_def sp_sort_def sp_show_def sf show_loop_take Max_Output_Num_def)
  moreover have "distinct (map func (sort_from ?h))" "times (sort_from ?h) = fold (charge add) ?calls Map.empty"
    using g f(2) by simp_all
  ultimately show ?thesis using sort_from_sorted[of ?h] by blast
qed

text \<open>
  For a trace of complete lines the parent ends, and its last report shows up to eight
  entries of a list with one entry per system call, in order of decreasing time; the time of each
  entry is the sum of the times of its calls, added in the order of the trace.
\<close>

theorem sperf_reports_totals:
  fixes add :: "'t :: linorder \<Rightarrow> 't \<Rightarrow> 't"
  assumes "cs \<noteq> []" and "\<forall>c \<in> set cs. call_ok c"
  shows "\<exists>head out. sp_parent add zero scan_lf pct due (map call_line cs) = Some (Inr (out @
      [map (\<lambda>p. (func p, pct (ftime p) (fold (\<lambda>p t. add t (ftime p)) (map (call_of scan_lf) cs) zero))) (take 8 head)])) \<and>
    distinct (map func head) \<and> sorted_wrt (\<lambda>x y. ftime x \<ge> ftime y) head \<and>
    times head = fold (charge add) (map (call_of scan_lf) cs) Map.empty"
  using assms by (rule sp_parent_totals)

theorem sperf_reports_totals_witness:
  "\<exists>head out. sp_parent (+) (0 :: int) (\<lambda>s. if s = ''0.000009'' then 9 else 2) (\<lambda>t tot. nat (100 * t div tot)) (\<lambda>k. False)
      (map call_line [(''read'', ''3) = 5 '', ''0.000009''), (''write'', ''1) = 5 '', ''0.000002'')]) = Some (Inr (out @
      [map (\<lambda>p. (func p, nat (100 * ftime p div (fold (\<lambda>p t. t + ftime p) (map (call_of (\<lambda>s. if s = ''0.000009'' then 9 else 2))
        [(''read'', ''3) = 5 '', ''0.000009''), (''write'', ''1) = 5 '', ''0.000002'')]) 0)))) (take 8 head)])) \<and>
    distinct (map func head) \<and> sorted_wrt (\<lambda>x y. ftime x \<ge> ftime y) head \<and>
    times head = fold (charge (+)) (map (call_of (\<lambda>s. if s = ''0.000009'' then 9 else 2))
      [(''read'', ''3) = 5 '', ''0.000009''), (''write'', ''1) = 5 '', ''0.000002'')]) Map.empty"
  by (rule sperf_reports_totals) (auto simp: call_ok_def call_line_def is_lower_def)

text \<open>
  Inputs on which the parent goes wrong: with no call at all the assertion of \<open>sort\<close>
  fails; a line that starts with a lower-case letter and has no opening bracket is scanned past
  the end of the buffer; and when the input ends inside a call, the loop that waits for its time
  never ends.
\<close>

theorem sperf_goes_wrong:
  fixes add :: "'t :: linorder \<Rightarrow> 't \<Rightarrow> 't"
  assumes "piece \<noteq> []" "length piece \<le> 299" "is_lower (hd piece)" "CHR ''('' \<notin> set piece" "CHR ''<'' \<notin> set piece"
    and "CHR ''<'' \<notin> set args" "length args < 290"
  shows "sp_parent add zero scan_lf pct due [] = Some (Inl AssertFailed) \<and>
    sp_parent add zero scan_lf pct due [piece] = Some (Inl OutOfBounds) \<and>
    sp_parent add zero scan_lf pct due [''pause('' @ args] = None"
proof -
  have f: "fill sp_clear piece = piece @ replicate (300 - length piece) NUL" by (rule fill_clear[OF assms(2)])
  have "is_lower (fill sp_clear piece ! 0)" using assms(1,3) by (simp add: f nth_append hd_conv_nth)
  moreover have "scan_name (fill sp_clear piece) = Inl OutOfBounds" using assms(4) by (simp add: f scan_name_def)
  ultimately have 2: "sp_parent add zero scan_lf pct due [piece] = Some (Inl OutOfBounds)"
    by (simp add: sp_parent_def read_call_def Let_def)
  define s where "s = fill sp_clear (''pause('' @ args)"
  have s: "s = ''pause('' @ args @ replicate (300 - length (''pause('' @ args)) NUL"
    using fill_clear[of "''pause('' @ args"] assms(7) by (simp add: s_def)
  have "CHR ''<'' \<notin> set s" "length s = 300" using assms(6,7) by (auto simp: s)
  moreover have "s ! j \<in> set s" if "j \<le> 299" for j using that \<open>length s = 300\<close> by (intro nth_mem) simp
  ultimately have "find_lt s 299 = 0" by (intro find_lt_none) metis
  moreover have "scan_name s = Inr ''pause''" "is_lower (s ! 0)" by (simp_all add: s scan_name_def is_lower_def)
  ultimately have "read_call scan_lf sp_clear (''pause('' @ args) [] = None"
    unfolding read_call_def s_def[symmetric] by (simp add: cstr_def Let_def)
  then have 3: "sp_parent add zero scan_lf pct due [''pause('' @ args] = None" by (simp add: sp_parent_def)
  show ?thesis using 2 3 by (simp add: sp_parent_def sp_sort_def)
qed

theorem sperf_goes_wrong_witness:
  "sp_parent (+) (0 :: int) (\<lambda>s. 0) (\<lambda>t tot. 0) (\<lambda>k. False) [] = Some (Inl AssertFailed) \<and>
   sp_parent (+) (0 :: int) (\<lambda>s. 0) (\<lambda>t tot. 0) (\<lambda>k. False) [''strace: no such file''] = Some (Inl OutOfBounds) \<and>
   sp_parent (+) (0 :: int) (\<lambda>s. 0) (\<lambda>t tot. 0) (\<lambda>k. False) [''pause('' @ []] = None"
  by (rule sperf_goes_wrong) (auto simp: is_lower_def)

end
