(* ===== verification/SperfChild.thy ===== *)
theory SperfChild
  imports Prelude
begin

text \<open>
  \<open>mycode/sperf.c\<close>, the child process: it builds the argument vector of \<open>strace\<close> and tries
  \<open>execve\<close> on \<open>strace\<close> in each directory of \<open>PATH\<close>. Whether \<open>execve\<close> succeeds on a file is a
  parameter; when it does, it does not return. \<open>strtok\<close> is modelled by what is left of the
  string after each call.
\<close>

section \<open>Definitions\<close>

datatype slot = Uninit | Ptr string | Null

definition store :: "slot list \<Rightarrow> nat \<Rightarrow> slot \<Rightarrow> slot list res" where
  "store a i x = (if i < length a then Inr (a[i := x]) else Inl OutOfBounds)"

fun copy_args :: "string list \<Rightarrow> nat \<Rightarrow> slot list \<Rightarrow> slot list res" where
  "copy_args [] i a = Inr a"
| "copy_args (x # xs) i a = rbind (store a (i + 1) (Ptr x)) (copy_args xs (i + 1))"

definition exec_argv :: "string list \<Rightarrow> slot list res" where
  "exec_argv argv =
     rbind (copy_args argv 0 (replicate (length argv + 2) Uninit)) (\<lambda>a1.
     rbind (store a1 0 (Ptr ''strace'')) (\<lambda>a2.
     rbind (store a2 1 (Ptr ''-T'')) (\<lambda>a3.
       store a3 (length argv + 1) Null)))"

definition strtok :: "string \<Rightarrow> (string \<times> string) option" where
  "strtok s =
     (let r = dropWhile (\<lambda>c. c = CHR '':'') s
      in if r = [] then None else Some (takeWhile (\<lambda>c. c \<noteq> CHR '':'') r, drop 1 (dropWhile (\<lambda>c. c \<noteq> CHR '':'') r)))"

lemma strtok_shorter [simp]: "strtok s = Some (path, rest) \<Longrightarrow> length rest < length s"
proof -
  assume a: "strtok s = Some (path, rest)"
  define r where "r = dropWhile (\<lambda>c. c = CHR '':'') s"
  have r: "r \<noteq> []" "rest = drop 1 (dropWhile (\<lambda>c. c \<noteq> CHR '':'') r)" using a by (auto simp: strtok_def r_def Let_def split: if_splits)
  have "length (dropWhile (\<lambda>c. c \<noteq> CHR '':'') r) \<le> length r" "length r \<le> length s" by (simp_all add: r_def length_dropWhile_le)
  with r show ?thesis by (cases r) (auto simp: length_dropWhile_le)
qed

text \<open>\<open>char filename[strlen(path)+8]\<close>, then \<open>strcpy\<close> and \<open>strcat\<close>.\<close>

definition strace_file :: "string \<Rightarrow> string res" where
  "strace_file path =
     rbind (strcpy (replicate (strlen path + 8) CHR ''?'') path) (\<lambda>f. rbind (strcat f ''/strace'') (\<lambda>g. Inr (cstr g)))"

text \<open>The files tried and the one that was executed, if any.\<close>

function path_loop :: "(string \<Rightarrow> bool) \<Rightarrow> string \<Rightarrow> (string list \<times> string option) res" where
  "path_loop runs s =
     (case strtok s of
        None \<Rightarrow> Inr ([], None)
      | Some (path, rest) \<Rightarrow>
          rbind (strace_file path) (\<lambda>filename.
            if runs filename then Inr ([filename], Some filename)
            else rbind (path_loop runs rest) (\<lambda>(tried, r). Inr (filename # tried, r))))"
  by pat_completeness auto

termination
  by (relation "measure (\<lambda>(_, s). length s)") auto

declare path_loop.simps [simp del]

definition sp_child :: "(string \<Rightarrow> bool) \<Rightarrow> string option \<Rightarrow> string list \<Rightarrow> (slot list \<times> string list \<times> string option) res" where
  "sp_child runs PATH argv =
     rbind (exec_argv argv) (\<lambda>av.
       case PATH of
         None \<Rightarrow> Inl NullDeref
       | Some path \<Rightarrow> rbind (path_loop runs path) (\<lambda>(tried, r). Inr (av, tried, r)))"

section \<open>The directories of \<open>PATH\<close>\<close>

fun split_path :: "string \<Rightarrow> string list" where
  "split_path [] = [[]]"
| "split_path (c # cs) =
     (if c = CHR '':'' then [] # split_path cs else (case split_path cs of d # ds \<Rightarrow> (c # d) # ds | [] \<Rightarrow> [[c]]))"

definition path_dirs :: "string \<Rightarrow> string list" where
  "path_dirs s = filter (\<lambda>d. d \<noteq> []) (split_path s)"

lemma split_path_ne [simp]: "split_path s \<noteq> []"
  by (cases s) (auto split: list.splits)

lemma split_path_first:
  "split_path s = takeWhile (\<lambda>c. c \<noteq> CHR '':'') s #
     (case dropWhile (\<lambda>c. c \<noteq> CHR '':'') s of [] \<Rightarrow> [] | _ # rest \<Rightarrow> split_path rest)"
  by (induction s) (auto split: list.splits)

lemma path_dirs_strtok:
  "path_dirs s = (case strtok s of None \<Rightarrow> [] | Some (path, rest) \<Rightarrow> path # path_dirs rest)"
proof (induction s)
  case Nil
  then show ?case by (simp add: path_dirs_def strtok_def)
next
  case (Cons c cs)
  show ?case
  proof (cases "c = CHR '':''")
    case True
    then have "path_dirs (c # cs) = path_dirs cs" "strtok (c # cs) = strtok cs" by (simp_all add: path_dirs_def strtok_def)
    with Cons show ?thesis by simp
  next
    case False
    then have "strtok (c # cs) = Some (takeWhile (\<lambda>c. c \<noteq> CHR '':'') (c # cs), drop 1 (dropWhile (\<lambda>c. c \<noteq> CHR '':'') (c # cs)))"
      by (simp add: strtok_def)
    moreover have "path_dirs [] = []" by (simp add: path_dirs_def)
    moreover have "path_dirs (c # cs) = takeWhile (\<lambda>c. c \<noteq> CHR '':'') (c # cs) # path_dirs (drop 1 (dropWhile (\<lambda>c. c \<noteq> CHR '':'') (c # cs)))"
    proof -
      have t: "filter (\<lambda>d. d \<noteq> []) (case t of [] \<Rightarrow> [] | _ # r \<Rightarrow> split_path r) = filter (\<lambda>d. d \<noteq> []) (split_path (drop 1 t))" for t
        by (cases t) simp_all
      show ?thesis unfolding path_dirs_def using False by (subst split_path_first) (simp add: t[simplified])
    qed
    ultimately show ?thesis by simp
  qed
qed

lemma strace_file_ok: "NUL \<notin> set path \<Longrightarrow> strace_file path = Inr (path @ ''/strace'')"
proof -
  assume n: "NUL \<notin> set path"
  then have l: "strlen path = length path" by (simp add: strlen_def)
  obtain f where f: "strcpy (replicate (strlen path + 8) CHR ''?'') path = Inr f" by (simp add: strcpy_def)
  from cstr_strcpy[OF f] n l have c: "cstr f = path" "length f = length path + 8" by simp_all
  have s: "strlen ''/strace'' = 7" "cstr ''/strace'' = ''/strace''" by (simp_all add: strlen_def)
  from c s strcat_total[of f "''/strace''"] obtain g where g: "strcat f ''/strace'' = Inr g" by (auto simp: strlen_def)
  from cstr_strcat[OF g] c s f g show ?thesis by (simp add: strace_file_def)
qed

lemma path_dirs_no_NUL: "NUL \<notin> set s \<Longrightarrow> d \<in> set (path_dirs s) \<Longrightarrow> NUL \<notin> set d"
proof (induction s rule: length_induct)
  case (1 s)
  then obtain path rest where st: "strtok s = Some (path, rest)" by (cases "strtok s") (auto simp: path_dirs_strtok[of s])
  then have "set path \<subseteq> set s" "set rest \<subseteq> set s"
    by (auto simp: strtok_def Let_def split: if_splits dest!: in_set_dropD set_takeWhileD set_dropWhileD)
  moreover have "NUL \<notin> set d" if "d \<in> set (path_dirs rest)" using 1 that strtok_shorter[OF st] calculation(2) by blast
  ultimately show ?case using 1(2,3) st by (auto simp: path_dirs_strtok[of s])
qed

fun until :: "('a \<Rightarrow> bool) \<Rightarrow> 'a list \<Rightarrow> 'a list" where
  "until P [] = []"
| "until P (x # xs) = (if P x then [x] else x # until P xs)"

lemma path_loop_dirs:
  "NUL \<notin> set s \<Longrightarrow> path_loop runs s =
     (let fs = map (\<lambda>d. d @ ''/strace'') (path_dirs s) in Inr (until runs fs, find runs fs))"
proof (induction runs s rule: path_loop.induct)
  case (1 runs s)
  show ?case
  proof (cases "strtok s")
    case None
    then show ?thesis by (subst path_loop.simps) (simp add: path_dirs_strtok[of s])
  next
    case (Some pr)
    obtain path rest where pr: "pr = (path, rest)" by (cases pr)
    have d: "path_dirs s = path # path_dirs rest" using Some pr by (simp add: path_dirs_strtok[of s])
    have n: "NUL \<notin> set path" using path_dirs_no_NUL[OF 1(2), of path] d by simp
    have "set rest \<subseteq> set s" using Some pr by (auto simp: strtok_def Let_def split: if_splits dest!: in_set_dropD set_dropWhileD)
    then have r: "NUL \<notin> set rest" using 1(2) by blast
    show ?thesis
    proof (cases "runs (path @ ''/strace'')")
      case True
      with Some pr n d show ?thesis by (subst path_loop.simps) (simp add: strace_file_ok)
    next
      case False
      with 1(1)[OF Some pr[symmetric] _ _ r] Some pr n d show ?thesis
        by (subst path_loop.simps) (simp add: strace_file_ok Let_def)
    qed
  qed
qed

lemma copy_args_ok:
  "length pre = i + 1 \<Longrightarrow> length post = length xs + 1 \<Longrightarrow>
   copy_args xs i (pre @ post) = Inr (pre @ map Ptr xs @ [last post])"
proof (induction xs arbitrary: i pre post)
  case Nil
  then show ?case by (auto simp: length_Suc_conv)
next
  case (Cons x xs)
  then obtain y ys where post: "post = y # ys" by (cases post) auto
  moreover from this Cons.prems(2) have "ys \<noteq> []" by auto
  ultimately show ?case using Cons.prems Cons.IH[of "pre @ [Ptr x]" "i + 1" ys]
    by (simp add: store_def list_update_append)
qed

section \<open>Properties\<close>

lemma sp_child_strace:
  assumes "NUL \<notin> set path"
  shows "sp_child runs (Some path) (cmd # args) =
      (let fs = map (\<lambda>d. d @ ''/strace'') (path_dirs path)
       in Inr (Ptr ''strace'' # Ptr ''-T'' # map Ptr args @ [Null], until runs fs, find runs fs)) \<and>
    sp_child runs None (cmd # args) = Inl NullDeref"
proof -
  let ?argv = "cmd # args"
  have "replicate (length ?argv + 2) Uninit = [Uninit] @ replicate (length ?argv + 1) Uninit" by simp
  moreover have "last (replicate (length ?argv + 1) Uninit) = Uninit" by (rule last_replicate) simp
  ultimately have c: "copy_args ?argv 0 (replicate (length ?argv + 2) Uninit) = Inr ([Uninit] @ map Ptr ?argv @ [Uninit])"
    using copy_args_ok[of "[Uninit]" 0 "replicate (length ?argv + 1) Uninit" ?argv] by (simp only: length_replicate) simp
  have "exec_argv ?argv = Inr (Ptr ''strace'' # Ptr ''-T'' # map Ptr args @ [Null])"
    unfolding exec_argv_def c by (simp add: store_def list_update_append)
  with path_loop_dirs[OF assms, of runs] show ?thesis by (simp add: sp_child_def Let_def)
qed

text \<open>
  The child runs \<open>strace -T\<close> on the command of the user, with an argument vector that ends in a
  null pointer and has no element that was not set, from the first non-empty directory of
  \<open>PATH\<close> that has an executable \<open>strace\<close>, after trying the ones before it in order; all
  writes stay inside \<open>exec_argv\<close> and \<open>filename\<close>. Without the variable \<open>PATH\<close> it
  follows a null pointer.
\<close>

theorem sp_child_runs_strace:
  assumes "NUL \<notin> set path"
  shows "sp_child runs (Some path) (cmd # args) =
      (let fs = map (\<lambda>d. d @ ''/strace'') (path_dirs path)
       in Inr (Ptr ''strace'' # Ptr ''-T'' # map Ptr args @ [Null], until runs fs, find runs fs)) \<and>
    sp_child runs None (cmd # args) = Inl NullDeref"
  using assms by (rule sp_child_strace)

theorem sp_child_runs_strace_witness:
  "sp_child (\<lambda>f. f = ''/usr/bin/strace'') (Some ''/bin::/usr/bin:/x'') [''sperf'', ''ls''] =
     Inr ([Ptr ''strace'', Ptr ''-T'', Ptr ''ls'', Null], [''/bin/strace'', ''/usr/bin/strace''], Some ''/usr/bin/strace'')"
proof -
  have "path_dirs ''/bin::/usr/bin:/x'' = [''/bin'', ''/usr/bin'', ''/x'']" by (simp add: path_dirs_def)
  with sp_child_runs_strace[of "''/bin::/usr/bin:/x''" "\<lambda>f. f = ''/usr/bin/strace''" "''sperf''" "[''ls'']"]
  show ?thesis by (simp add: Let_def)
qed

end
