(* ===== verification/SperfMain.thy ===== *)
theory SperfMain
  imports Sperf SperfChild
begin

text \<open>
  \<open>mycode/sperf.c\<close>, the whole program: \<open>main\<close> makes a pipe and forks; the child sends its standard
  error into the pipe and becomes \<open>strace\<close>, the parent takes the pipe as its standard input and
  reports what it reads. Here are the file descriptors of the two processes, the composition of
  the child of theory SperfChild with the parent of theory Sperf, and \<open>Free\<close>.

  A table of file descriptors is a list of open files; a new descriptor is the lowest free one, and
  a forked process has a copy of the table. What \<open>strace\<close> writes for an argument vector
  is an argument: the pieces in which \<open>fgets\<close> returns it.
\<close>

section \<open>File descriptors\<close>

datatype ofile = Inherited nat | PipeRead | PipeWrite | DevNull

type_synonym fd_table = "ofile option list"

fun fd_free :: "fd_table \<Rightarrow> nat" where
  "fd_free [] = 0"
| "fd_free (None # t) = 0"
| "fd_free (Some f # t) = Suc (fd_free t)"

definition fd_set :: "nat \<Rightarrow> ofile option \<Rightarrow> fd_table \<Rightarrow> fd_table" where
  "fd_set n f t = (t @ replicate (Suc n - length t) None)[n := f]"

definition fd_get :: "fd_table \<Rightarrow> nat \<Rightarrow> ofile option" where
  "fd_get t n = (if n < length t then t ! n else None)"

definition fd_open :: "ofile \<Rightarrow> fd_table \<Rightarrow> nat \<times> fd_table" where
  "fd_open f t = (fd_free t, fd_set (fd_free t) (Some f) t)"

definition fd_close :: "nat \<Rightarrow> fd_table \<Rightarrow> fd_table" where
  "fd_close n t = fd_set n None t"

text \<open>\<open>dup2\<close> of a descriptor that is not open fails and changes nothing.\<close>

definition fd_dup2 :: "nat \<Rightarrow> nat \<Rightarrow> fd_table \<Rightarrow> fd_table" where
  "fd_dup2 old new t = (case fd_get t old of None \<Rightarrow> t | Some f \<Rightarrow> fd_set new (Some f) t)"

definition fd_pipe :: "fd_table \<Rightarrow> (nat \<times> nat) \<times> fd_table" where
  "fd_pipe t = (let (r, t1) = fd_open PipeRead t; (w, t2) = fd_open PipeWrite t1 in ((r, w), t2))"

definition child_fds :: "nat \<times> nat \<Rightarrow> fd_table \<Rightarrow> fd_table" where
  "child_fds fildes t =
     (let t1 = fd_close (fst fildes) t;
          t2 = fd_dup2 (snd fildes) 2 t1;
          (fd, t3) = fd_open DevNull t2
      in fd_dup2 fd 1 t3)"

definition parent_fds :: "nat \<times> nat \<Rightarrow> fd_table \<Rightarrow> fd_table" where
  "parent_fds fildes t = fd_dup2 (fst fildes) 0 (fd_close (snd fildes) t)"

section \<open>The program\<close>

text \<open>What the parent reads from descriptor 0 when the child, and it alone, writes \<open>written\<close> to
  descriptor 2 and ends: \<open>None\<close> when the read never returns, because the parent itself holds the
  writing end.\<close>

definition pipe_input :: "fd_table \<Rightarrow> fd_table \<Rightarrow> string list \<Rightarrow> string list option" where
  "pipe_input parent child written =
     (if fd_get parent 0 \<noteq> Some PipeRead then Some []
      else if Some PipeWrite \<in> set parent then None
      else if fd_get child 2 = Some PipeWrite then Some written else Some [])"

text \<open>\<open>rc\<close> is the result of \<open>fork\<close> in the parent, \<open>pipe_rc\<close> the result of \<open>pipe\<close>. The child writes
  nothing when it fails or finds no \<open>strace\<close>.\<close>

definition sp_main ::
  "('t :: linorder \<Rightarrow> 't \<Rightarrow> 't) \<Rightarrow> 't \<Rightarrow> (string \<Rightarrow> 't) \<Rightarrow> ('t \<Rightarrow> 't \<Rightarrow> nat) \<Rightarrow> (nat \<Rightarrow> bool) \<Rightarrow>
   int \<Rightarrow> int \<Rightarrow> fd_table \<Rightarrow> (string \<Rightarrow> bool) \<Rightarrow> (string \<Rightarrow> slot list \<Rightarrow> string list) \<Rightarrow> string option \<Rightarrow> string list \<Rightarrow>
   (string \<times> nat) list list res option" where
  "sp_main add zero scan_lf pct due pipe_rc rc fds runs strace PATH argv =
     (if pipe_rc \<noteq> 0 then Some (Inl (ExitCode 1))
      else
        let (fildes, t) = fd_pipe fds in
        if rc < 0 then Some (Inl (ExitCode 1))
        else
          let written = (case sp_child runs PATH argv of
                 Inr (av, _, Some file) \<Rightarrow> strace file av
               | _ \<Rightarrow> [])
          in Option.bind (pipe_input (parent_fds fildes t) (child_fds fildes t) written)
               (sp_parent add zero scan_lf pct due))"

section \<open>Free\<close>

text \<open>The list in memory: the nodes with the address of their name and their link, and the blocks
  of the names.\<close>

record fheap =
  f_nodes :: "nat \<rightharpoonup> nat \<times> nat option"
  f_names :: "nat set"

partial_function (option) Free :: "fheap \<Rightarrow> nat option \<Rightarrow> (fheap res) option" where
  "Free h p =
     (case p of
        None \<Rightarrow> Some (Inr h)
      | Some a \<Rightarrow>
          (case f_nodes h a of
             None \<Rightarrow> Some (Inl DanglingPtr)
           | Some (fn, nx) \<Rightarrow>
               if fn \<notin> f_names h then Some (Inl DanglingPtr)
               else Free \<lparr>f_nodes = (f_nodes h)(a := None), f_names = f_names h - {fn}\<rparr> nx))"

section \<open>Lemmas\<close>

lemma fd_get_set [simp]: "fd_get (fd_set n f t) m = (if m = n then f else fd_get t m)"
  by (auto simp: fd_get_def fd_set_def nth_list_update nth_append)

lemma fd_get_free: "fd_get t (fd_free t) = None"
  by (induction t rule: fd_free.induct) (auto simp: fd_get_def)

lemma in_set_fd_get: "Some f \<in> set t \<longleftrightarrow> (\<exists>n. fd_get t n = Some f)"
  by (auto simp: fd_get_def in_set_conv_nth)

definition no_pipes :: "fd_table \<Rightarrow> bool" where
  "no_pipes t \<longleftrightarrow> Some PipeRead \<notin> set t \<and> Some PipeWrite \<notin> set t"

lemma wiring:
  assumes "no_pipes t" "fd_pipe t = (fildes, t')"
  shows "fd_get (child_fds fildes t') 1 = Some DevNull \<and> fd_get (child_fds fildes t') 2 = Some PipeWrite \<and>
    Some PipeRead \<notin> set (child_fds fildes t') \<and>
    fd_get (parent_fds fildes t') 0 = Some PipeRead \<and> Some PipeWrite \<notin> set (parent_fds fildes t')"
proof -
  define r where "r = fd_free t"
  define w where "w = fd_free (fd_set r (Some PipeRead) t)"
  have fd: "fildes = (r, w)" "t' = fd_set w (Some PipeWrite) (fd_set r (Some PipeRead) t)"
    using assms(2) by (auto simp: fd_pipe_def fd_open_def Let_def r_def w_def)
  have "fd_get (fd_set r (Some PipeRead) t) w = None" unfolding w_def by (rule fd_get_free)
  then have w: "w \<noteq> r" by auto
  have t: "fd_get t n \<noteq> Some PipeRead" "fd_get t n \<noteq> Some PipeWrite" for n
    using assms(1) in_set_fd_get by (auto simp: no_pipes_def)
  define t2 where "t2 = fd_set 2 (Some PipeWrite) (fd_close r t')"
  have "fd_get t2 (fd_free t2) = None" by (rule fd_get_free)
  then have f: "fd_free t2 \<noteq> 2" by (auto simp: t2_def)
  have "fd_get (fd_close r t') w = Some PipeWrite" using w by (simp add: fd fd_close_def)
  then have c: "child_fds fildes t' = fd_set 1 (Some DevNull) (fd_set (fd_free t2) (Some DevNull) t2)"
    by (simp add: child_fds_def fd_dup2_def fd_open_def Let_def fd(1) t2_def)
  have "fd_get (fd_close w t') r = Some PipeRead" using w by (simp add: fd fd_close_def)
  then have p: "parent_fds fildes t' = fd_set 0 (Some PipeRead) (fd_close w t')"
    by (simp add: parent_fds_def fd_dup2_def fd(1))
  show ?thesis
    using w f t unfolding c p in_set_fd_get
    by (auto simp: t2_def fd fd_close_def split: if_splits)
qed

lemma pipe_wired:
  assumes "no_pipes t" "fd_pipe t = (fildes, t')"
  shows "pipe_input (parent_fds fildes t') (child_fds fildes t') written = Some written"
  using wiring[OF assms] by (simp add: pipe_input_def)

definition strace_found :: "(string \<Rightarrow> bool) \<Rightarrow> string \<Rightarrow> string option" where
  "strace_found runs path = find runs (map (\<lambda>d. d @ ''/strace'') (path_dirs path))"

definition strace_argv :: "string list \<Rightarrow> slot list" where
  "strace_argv args = Ptr ''strace'' # Ptr ''-T'' # map Ptr args @ [Null]"

lemma sp_main_parent:
  assumes "no_pipes fds" "NUL \<notin> set path" "0 \<le> rc"
  shows "sp_main add zero scan_lf pct due 0 rc fds runs strace (Some path) (cmd # args) =
    sp_parent add zero scan_lf pct due
      (case strace_found runs path of None \<Rightarrow> [] | Some file \<Rightarrow> strace file (strace_argv args))"
proof -
  obtain fildes t where f: "fd_pipe fds = (fildes, t)" by fastforce
  show ?thesis
    using assms(3) pipe_wired[OF assms(1) f] conjunct1[OF sp_child_strace[OF assms(2), of runs cmd args]] f
    by (simp add: sp_main_def Let_def strace_found_def strace_argv_def split: option.splits)
qed

text \<open>\<open>Free\<close> returns, frees every node of the list and its name once, and nothing else.\<close>

definition node_next :: "fheap \<Rightarrow> nat \<Rightarrow> nat option" where
  "node_next h a = (case f_nodes h a of None \<Rightarrow> None | Some (fn, nx) \<Rightarrow> nx)"

definition node_name :: "fheap \<Rightarrow> nat \<Rightarrow> nat" where
  "node_name h a = (case f_nodes h a of None \<Rightarrow> 0 | Some (fn, nx) \<Rightarrow> fn)"

lemma Free_frees_list:
  assumes "chain (node_next h) p as" "set as \<subseteq> dom (f_nodes h)"
    and "distinct (map (node_name h) as)" "node_name h ` set as \<subseteq> f_names h"
  shows "Free h p = Some (Inr \<lparr>f_nodes = f_nodes h |` (- set as), f_names = f_names h - node_name h ` set as\<rparr>)"
  using assms
proof (induction as arbitrary: h p)
  case Nil
  then show ?case by (subst Free.simps) (cases h; simp add: restrict_map_def)
next
  case (Cons a as)
  then obtain fn nx where a: "f_nodes h a = Some (fn, nx)" "p = Some a" by auto
  define h' where "h' = \<lparr>f_nodes = (f_nodes h)(a := None), f_names = f_names h - {fn}\<rparr>"
  have notin: "a \<notin> set as" using chain_distinct[OF Cons.prems(1)] by simp
  then have same: "node_next h' x = node_next h x" "node_name h' x = node_name h x" if "x \<in> set as" for x
    using that by (auto simp: h'_def node_next_def node_name_def)
  have fn: "node_name h a = fn" "node_next h a = nx" using a by (auto simp: node_name_def node_next_def)
  have img: "node_name h' ` set as = node_name h ` set as" using same by force
  have "chain (node_next h) nx as" using Cons.prems(1) fn a by simp
  then have "chain (node_next h') nx as" using chain_cong[of as "node_next h'" "node_next h" nx] same by simp
  moreover have "set as \<subseteq> dom (f_nodes h')" using Cons.prems(2) notin by (auto simp: h'_def)
  moreover have "map (node_name h') as = map (node_name h) as" using same by simp
  then have "distinct (map (node_name h') as)" using Cons.prems(3) by (metis distinct.simps(2) list.simps(9))
  moreover have "node_name h ` set as \<subseteq> f_names h'" using Cons.prems(3,4) fn by (auto simp: h'_def) (metis image_eqI)
  ultimately have "Free h' nx = Some (Inr \<lparr>f_nodes = f_nodes h' |` (- set as), f_names = f_names h' - node_name h ` set as\<rparr>)"
    using Cons.IH[of h' nx] Cons.prems(3) img by simp
  moreover have "f_nodes h' |` (- set as) = f_nodes h |` (- set (a # as))"
    "f_names h' - node_name h ` set as = f_names h - node_name h ` set (a # as)"
    using fn by (auto simp: h'_def restrict_map_def)
  moreover have "fn \<in> f_names h" using Cons.prems(4) fn by auto
  ultimately show ?case using a by (subst Free.simps) (simp add: h'_def)
qed

section \<open>Properties\<close>



text \<open>
  Without an executable \<open>strace\<close> in \<open>PATH\<close> the child ends silently, the parent reads an empty
  trace, and the program dies in the assertion of \<open>sort\<close>; a \<open>pipe\<close> or \<open>fork\<close> that fails ends it with
  status 1.
\<close>

theorem sp_main_without_strace:
  fixes add :: "'t :: linorder \<Rightarrow> 't \<Rightarrow> 't"
  assumes "no_pipes fds" "NUL \<notin> set path" "0 \<le> rc" "strace_found runs path = None" "pipe_rc \<noteq> 0" "rc' < 0"
  shows "sp_main add zero scan_lf pct due 0 rc fds runs strace (Some path) (cmd # args) = Some (Inl AssertFailed) \<and>
    sp_main add zero scan_lf pct due pipe_rc rc fds runs strace PATH argv = Some (Inl (ExitCode 1)) \<and>
    sp_main add zero scan_lf pct due 0 rc' fds runs strace PATH argv = Some (Inl (ExitCode 1))"
  using sp_main_parent[OF assms(1-3), of add zero scan_lf pct due runs strace cmd args] assms(4-6)
  by (simp add: sp_parent_def sp_sort_def) (simp add: sp_main_def Let_def case_prod_beta)

theorem sp_main_without_strace_witness:
  "sp_main (+) (0 :: int) (\<lambda>s. 0) (\<lambda>t tot. 0) (\<lambda>k. False) 0 7 [Some (Inherited 0)] (\<lambda>f. False) (\<lambda>f av. []) (Some ''/bin'') (''sperf'' # [''ls'']) =
     Some (Inl AssertFailed)"
proof -
  have "no_pipes [Some (Inherited 0)]" "strace_found (\<lambda>f. False) ''/bin'' = None"
    by (auto simp: no_pipes_def strace_found_def path_dirs_def find_None_iff)
  from sp_main_without_strace[OF this(1) _ _ this(2), where ?'t = int and rc = 7 and pipe_rc = 1 and rc' = "-1"] show ?thesis by simp
qed

end
