(* ===== verification/Sched.thy ===== *)
theory Sched
  imports Prelude
begin

text \<open>
  The round-robin schedulers: \<open>on_interrupt\<close> of \<open>multi-threads/thread-os.c\<close> (one processor), of
  \<open>multi-threads/thread-os-mp.c\<close> (several processors, \<open>thread-os-mp-full.c\<close> is the same text),
  and \<open>schedule\<close> and \<open>kalloc\<close> of \<open>multi-threads/trivial-os.c\<close>, the rest of which is in \<open>Kernel\<close>.

  A task is its index in the array \<open>tasks\<close> of length \<open>n\<close>; a context is a value of any type. The
  state has the current task of each processor and the saved context of each task. The loops that
  look for a task of the processor may run forever: their value is then \<open>None\<close>. The locale
  \<open>round_robin\<close> states what the three searches have in common, and the properties of a whole
  system of processors are proved once from it.
\<close>

section \<open>Definitions\<close>

record 'c sched =
  s_current :: "nat \<Rightarrow> nat option"
  s_context :: "nat \<Rightarrow> 'c"

text \<open>\<open>thread-os.c\<close>: the \<open>next\<close> link of task \<open>i\<close> is \<open>(i + 1) % LENGTH(tasks)\<close>.\<close>

definition task_next :: "nat \<Rightarrow> nat \<Rightarrow> nat" where
  "task_next n i = (i + 1) mod n"

definition on_interrupt :: "nat \<Rightarrow> 'c \<Rightarrow> 'c sched \<Rightarrow> 'c \<times> 'c sched" where
  "on_interrupt n ctx s =
     (let s1 = (case s_current s 0 of
                  None \<Rightarrow> s\<lparr>s_current := (s_current s)(0 := Some 0)\<rparr>
                | Some t \<Rightarrow> s\<lparr>s_context := (s_context s)(t := ctx), s_current := (s_current s)(0 := Some (task_next n t))\<rparr>)
      in (s_context s1 (the (s_current s1 0)), s1))"

text \<open>\<open>thread-os-mp.c\<close>: the loop goes on until the index belongs to the processor.\<close>

partial_function (option) mp_next :: "nat \<Rightarrow> nat \<Rightarrow> nat \<Rightarrow> nat \<Rightarrow> nat option" where
  "mp_next n ncpu cpu t =
     (let u = task_next n t in if u mod ncpu \<noteq> cpu then mp_next n ncpu cpu u else Some u)"

text \<open>\<open>trivial-os.c\<close>: the pointer is advanced and wraps at the end of the array.\<close>

partial_function (option) sc_next :: "nat \<Rightarrow> nat \<Rightarrow> nat \<Rightarrow> nat \<Rightarrow> nat option" where
  "sc_next n ncpu cpu t =
     (let u = (if t + 1 = n then 0 else t + 1) in if u mod ncpu \<noteq> cpu then sc_next n ncpu cpu u else Some u)"

definition resched ::
  "(nat \<Rightarrow> nat \<Rightarrow> nat option) \<Rightarrow> nat \<Rightarrow> 'c \<Rightarrow> 'c sched \<Rightarrow> ('c \<times> 'c sched) option" where
  "resched search cpu ctx s =
     (let s1 = (case s_current s cpu of
                  None \<Rightarrow> s\<lparr>s_current := (s_current s)(cpu := Some 0)\<rparr>
                | Some t \<Rightarrow> s\<lparr>s_context := (s_context s)(t := ctx)\<rparr>)
      in map_option (\<lambda>u. (s_context s1 u, s1\<lparr>s_current := (s_current s1)(cpu := Some u)\<rparr>))
           (search cpu (the (s_current s1 cpu))))"

definition mp_on_interrupt :: "nat \<Rightarrow> nat \<Rightarrow> nat \<Rightarrow> 'c \<Rightarrow> 'c sched \<Rightarrow> ('c \<times> 'c sched) option" where
  "mp_on_interrupt n ncpu = resched (mp_next n ncpu)"

definition schedule :: "nat \<Rightarrow> nat \<Rightarrow> nat \<Rightarrow> 'c \<Rightarrow> 'c sched \<Rightarrow> ('c \<times> 'c sched) option" where
  "schedule n ncpu = resched (sc_next n ncpu)"

text \<open>Interrupts arrive at the processors in any order, each with the context it interrupts.\<close>

fun interrupts ::
  "(nat \<Rightarrow> 'c \<Rightarrow> 'c sched \<Rightarrow> ('c \<times> 'c sched) option) \<Rightarrow> (nat \<times> 'c) list \<Rightarrow> 'c sched \<Rightarrow> 'c sched option" where
  "interrupts handler [] s = Some s"
| "interrupts handler ((cpu, ctx) # is) s = Option.bind (handler cpu ctx s) (\<lambda>(_, s'). interrupts handler is s')"

definition sched_init :: "(nat \<Rightarrow> 'c) \<Rightarrow> 'c sched" where
  "sched_init ctxs = \<lparr>s_current = (\<lambda>_. None), s_context = ctxs\<rparr>"

text \<open>\<open>kalloc\<close> of \<open>trivial-os.c\<close>; the macro \<open>ROUNDUP\<close> and the start of the heap belong to the
  abstract machine and are parameters.\<close>

definition kalloc :: "(nat \<Rightarrow> nat \<Rightarrow> nat) \<Rightarrow> nat \<Rightarrow> nat \<Rightarrow> nat \<Rightarrow> nat \<times> nat" where
  "kalloc ROUNDUP heap_start sz brk =
     (let brk' = (if brk \<noteq> 0 then ROUNDUP brk sz + sz else heap_start + sz) in (brk' - sz, brk'))"

fun kallocs :: "(nat \<Rightarrow> nat \<Rightarrow> nat) \<Rightarrow> nat \<Rightarrow> nat list \<Rightarrow> nat \<Rightarrow> (nat \<times> nat) list" where
  "kallocs ROUNDUP heap_start [] brk = []"
| "kallocs ROUNDUP heap_start (sz # szs) brk =
     (let (p, brk') = kalloc ROUNDUP heap_start sz brk in (p, sz) # kallocs ROUNDUP heap_start szs brk')"

section \<open>Searching for the next task\<close>

text \<open>The first task after \<open>t\<close>, in cyclic order, that belongs to the processor.\<close>

definition rr_next :: "nat \<Rightarrow> nat \<Rightarrow> nat \<Rightarrow> nat \<Rightarrow> nat option" where
  "rr_next n ncpu cpu t = find (\<lambda>u. u mod ncpu = cpu) ([Suc t..<n] @ [0..<Suc t])"

lemma rr_next_Some: "rr_next n ncpu cpu t = Some u \<Longrightarrow> t < n \<Longrightarrow> u < n \<and> u mod ncpu = cpu"
  unfolding rr_next_def find_Some_iff by (auto simp: nth_append split: if_splits)

lemma rr_next_ex: "cpu < ncpu \<Longrightarrow> cpu < n \<Longrightarrow> t < n \<Longrightarrow> \<exists>u. rr_next n ncpu cpu t = Some u"
proof -
  assume a: "cpu < ncpu" "cpu < n" "t < n"
  then have "cpu \<in> set ([Suc t..<n] @ [0..<Suc t])" by auto
  then have "rr_next n ncpu cpu t \<noteq> None" unfolding rr_next_def find_None_iff using a(1) by auto
  then show ?thesis by blast
qed

lemma rr_next_None: "n \<le> cpu \<Longrightarrow> t < n \<Longrightarrow> rr_next n ncpu cpu t = None"
proof -
  assume a: "n \<le> cpu" "t < n"
  have "u mod ncpu \<noteq> cpu" if "u < n" for u using mod_less_eq_dividend[of u ncpu] that a(1) by linarith
  moreover have "u < n" if "u \<in> set ([Suc t..<n] @ [0..<Suc t])" for u using that a(2) by auto
  ultimately show ?thesis unfolding rr_next_def find_None_iff by blast
qed

lemma find_upt_steps:
  assumes "\<And>t. t < n \<Longrightarrow> nx t = (let u = (if Suc t = n then 0 else Suc t) in if \<not> Q u then nx u else Some u)"
    and "find Q ([Suc t..<n] @ [0..<Suc t]) = Some v" and "t < n"
  shows "nx t = Some v"
proof -
  have low: "nx i = Some v" if "find Q [Suc i..<n] = Some v" "i < n" for i
    using that
  proof (induction "n - i" arbitrary: i)
    case (Suc d)
    then show ?case by (cases "Suc i = n") (auto simp: assms(1)[of i] upt_conv_Cons Let_def split: if_splits)
  qed simp
  have high: "nx i = nx (n - 1)" if "find Q [Suc i..<n] = None" "i < n" for i
    using that
  proof (induction "n - i" arbitrary: i)
    case (Suc d)
    then show ?case by (cases "Suc i = n") (auto simp: assms(1)[of i] upt_conv_Cons Let_def split: if_splits)
  qed simp
  have app: "find Q (xs @ ys) = (case find Q xs of None \<Rightarrow> find Q ys | Some x \<Rightarrow> Some x)" for xs ys
    by (induction xs) auto
  show ?thesis
  proof (cases "find Q [Suc t..<n]")
    case None
    with assms(2) have f: "find Q [0..<Suc t] = Some v" by (simp add: app)
    have "[0..<n] = [0..<Suc t] @ [Suc t..<n]" using upt_add_eq_append[of 0 "Suc t" "n - Suc t"] assms(3) by simp
    then have "find Q [0..<n] = Some v" using f by (simp only: app) simp
    moreover have "nx (n - 1) = (if \<not> Q 0 then nx 0 else Some 0)" using assms(1)[of "n - 1"] assms(3) by simp
    ultimately have "nx (n - 1) = Some v"
      using low[of 0] assms(3) by (auto simp: upt_conv_Cons split: if_splits)
    with high[OF None assms(3)] show ?thesis by simp
  next
    case (Some x)
    with assms(2,3) low show ?thesis by (simp add: app)
  qed
qed

lemma mp_next_sound:
  assumes "mp_next n ncpu cpu t = Some u" and "0 < n"
  shows "u < n \<and> u mod ncpu = cpu"
proof -
  have "0 < n \<longrightarrow> u < n \<and> u mod ncpu = cpu"
    by (rule mp_next.raw_induct[where P = "\<lambda>n ncpu cpu t u. 0 < n \<longrightarrow> u < n \<and> u mod ncpu = cpu", OF _ assms(1)])
      (auto simp: Let_def task_next_def split: if_splits)
  with assms(2) show ?thesis by blast
qed

lemma sc_next_sound:
  assumes "sc_next n ncpu cpu t = Some u" and "t < n"
  shows "u < n \<and> u mod ncpu = cpu"
proof -
  have "t < n \<longrightarrow> u < n \<and> u mod ncpu = cpu"
    by (rule sc_next.raw_induct[where P = "\<lambda>n ncpu cpu t u. t < n \<longrightarrow> u < n \<and> u mod ncpu = cpu", OF _ assms(1)])
      (auto simp: Let_def split: if_splits)
  with assms(2) show ?thesis by blast
qed

lemma mp_next_rr: "t < n \<Longrightarrow> mp_next n ncpu cpu t = rr_next n ncpu cpu t"
proof (cases "rr_next n ncpu cpu t")
  case None
  assume t: "t < n"
  have "u mod ncpu \<noteq> cpu" if "u < n" for u
    using None that t unfolding rr_next_def find_None_iff by auto
  with mp_next_sound t show ?thesis by (metis None not_None_eq gr_zeroI not_less_zero)
next
  case (Some v)
  assume t: "t < n"
  have "mp_next n ncpu cpu i = (let u = (if Suc i = n then 0 else Suc i) in if \<not> u mod ncpu = cpu then mp_next n ncpu cpu u else Some u)"
    if "i < n" for i
    using that by (subst mp_next.simps) (auto simp: task_next_def)
  from find_upt_steps[of n "mp_next n ncpu cpu", OF this] Some t show ?thesis by (simp add: rr_next_def)
qed

lemma sc_next_rr: "t < n \<Longrightarrow> sc_next n ncpu cpu t = rr_next n ncpu cpu t"
proof (cases "rr_next n ncpu cpu t")
  case None
  assume t: "t < n"
  have "u mod ncpu \<noteq> cpu" if "u < n" for u
    using None that t unfolding rr_next_def find_None_iff by auto
  with sc_next_sound[OF _ t] show ?thesis by (metis None not_None_eq)
next
  case (Some v)
  assume t: "t < n"
  have "sc_next n ncpu cpu i = (let u = (if Suc i = n then 0 else Suc i) in if \<not> u mod ncpu = cpu then sc_next n ncpu cpu u else Some u)"
    if "i < n" for i
    using that by (subst sc_next.simps) simp
  from find_upt_steps[of n "sc_next n ncpu cpu", OF this] Some t show ?thesis by (simp add: rr_next_def)
qed

text \<open>From a task of its own, a processor goes on to the next index that is congruent to its
  number, and after the last one to its first.\<close>

lemma rr_next_own:
  assumes "cpu < ncpu" and "t < n" and "t mod ncpu = cpu"
  shows "rr_next n ncpu cpu t = Some (if t + ncpu < n then t + ncpu else cpu)"
proof -
  let ?Q = "\<lambda>u. u mod ncpu = cpu"
  have first: "find ?Q (xs @ x # ys) = Some x" if "\<forall>y \<in> set xs. \<not> ?Q y" "?Q x" for xs x ys
    using that by (induction xs) auto
  have gap: "\<not> ?Q u" if "t < u" "u < t + ncpu" for u
  proof
    assume "?Q u"
    with assms(3) that(1) have "ncpu dvd u - t" using mod_eq_dvd_iff_nat[of t u ncpu] by simp
    with that show False using nat_dvd_not_less[of "u - t" ncpu] by auto
  qed
  have low: "\<not> ?Q u" if "u < cpu" for u using mod_less_eq_dividend[of u ncpu] that by linarith
  have le: "cpu \<le> t" using mod_less_eq_dividend[of t ncpu] assms(3) by simp
  show ?thesis
  proof (cases "t + ncpu < n")
    case True
    have "[Suc t..<n] = [Suc t..<t + ncpu] @ (t + ncpu) # [Suc (t + ncpu)..<n]"
      using upt_add_eq_append[of "Suc t" "t + ncpu" "n - (t + ncpu)"] True assms(1) upt_conv_Cons[of "t + ncpu" n] by simp
    with True assms(3) gap first[of "[Suc t..<t + ncpu]" "t + ncpu"] show ?thesis by (simp add: rr_next_def)
  next
    case False
    have "[0..<Suc t] = [0..<cpu] @ cpu # [Suc cpu..<Suc t]"
      using upt_add_eq_append[of 0 cpu "Suc t - cpu"] le upt_conv_Cons[of cpu "Suc t"] by simp
    moreover have "\<forall>y \<in> set ([Suc t..<n] @ [0..<cpu]). \<not> ?Q y"
    proof
      fix y assume "y \<in> set ([Suc t..<n] @ [0..<cpu])"
      then consider "t < y" "y < n" | "y < cpu" by auto
      then show "\<not> ?Q y" using gap[of y] low[of y] False by (cases) auto
    qed
    ultimately have "rr_next n ncpu cpu t = Some cpu"
      using first[of "[Suc t..<n] @ [0..<cpu]" cpu "[Suc cpu..<Suc t]"] assms(1) by (simp only: rr_next_def append_assoc) simp
    with False show ?thesis by simp
  qed
qed

text \<open>The task a processor runs after its \<open>j\<close>-th interrupt from its first task on.\<close>

definition share :: "nat \<Rightarrow> nat \<Rightarrow> nat \<Rightarrow> nat" where
  "share n ncpu cpu = (n - cpu + ncpu - 1) div ncpu"

lemma share_le: "0 < ncpu \<Longrightarrow> cpu < n \<Longrightarrow> (cpu + i * ncpu < n \<longleftrightarrow> i < share n ncpu cpu)"
proof -
  assume a: "0 < ncpu" "cpu < n"
  have "i < share n ncpu cpu \<longleftrightarrow> Suc i * ncpu \<le> n - cpu + ncpu - 1"
    using a(1) unfolding share_def less_eq_Suc_le by (simp add: less_eq_div_iff_mult_less_eq)
  then show ?thesis using a by auto
qed

section \<open>What the schedulers have in common\<close>

definition sched_ok :: "nat \<Rightarrow> nat \<Rightarrow> 'c sched \<Rightarrow> bool" where
  "sched_ok n ncpu s \<longleftrightarrow> (\<forall>c t. s_current s c = Some t \<longrightarrow> t < n \<and> t mod ncpu = c)"

text \<open>The number of interrupts a list holds for a processor, and the task of a position in the
  turn of a processor.\<close>

definition hits :: "nat \<Rightarrow> (nat \<times> 'c) list \<Rightarrow> nat" where
  "hits cpu is = length (filter (\<lambda>i. fst i = cpu) is)"

lemma hits_simps [simp]: "hits cpu [] = 0" "hits cpu (i # is) = (if fst i = cpu then Suc (hits cpu is) else hits cpu is)"
  by (simp_all add: hits_def)

locale round_robin =
  fixes n ncpu :: nat and search :: "nat \<Rightarrow> nat \<Rightarrow> nat option"
  assumes tasks: "0 < n" and cpus: "0 < ncpu"
    and search_rr: "t < n \<Longrightarrow> search cpu t = rr_next n ncpu cpu t"
begin

lemma resched_cases:
  assumes "sched_ok n ncpu s" and "resched search cpu ctx s = Some (c, s')"
  shows "sched_ok n ncpu s' \<and> (\<exists>u. s_current s' = (s_current s)(cpu := Some u) \<and> c = s_context s' u \<and>
    (case s_current s cpu of
       None \<Rightarrow> rr_next n ncpu cpu 0 = Some u \<and> s_context s' = s_context s
     | Some t \<Rightarrow> rr_next n ncpu cpu t = Some u \<and> s_context s' = (s_context s)(t := ctx)))"
proof -
  have ok: "sched_ok n ncpu s'" if "s_current s' = (s_current s)(cpu := Some u)" "rr_next n ncpu cpu t = Some u" "t < n" for u t
    using assms(1) rr_next_Some[OF that(2,3)] unfolding sched_ok_def that(1) by simp
  show ?thesis
  proof (cases "s_current s cpu")
    case None
    with assms(2) search_rr[OF tasks, of cpu] obtain u where u: "rr_next n ncpu cpu 0 = Some u" "c = s_context s u"
      "s' = s\<lparr>s_current := (s_current s)(cpu := Some u)\<rparr>"
      by (auto simp: resched_def)
    with None ok[OF _ u(1) tasks] show ?thesis by simp
  next
    case (Some t)
    then have t: "t < n" using assms(1) by (simp add: sched_ok_def)
    from Some assms(2) search_rr[OF t, of cpu] obtain u where u: "rr_next n ncpu cpu t = Some u"
      "c = ((s_context s)(t := ctx)) u" "s_current s' = (s_current s)(cpu := Some u)" "s_context s' = (s_context s)(t := ctx)"
      by (auto simp: resched_def)
    with Some ok[OF u(3,1) t] show ?thesis by simp
  qed
qed

lemma resched_total:
  assumes "sched_ok n ncpu s" and "cpu < ncpu" and "cpu < n"
  shows "\<exists>c s'. resched search cpu ctx s = Some (c, s')"
proof (cases "s_current s cpu")
  case None
  with rr_next_ex[OF assms(2,3) tasks] show ?thesis by (auto simp: resched_def search_rr[OF tasks])
next
  case (Some t)
  then have t: "t < n" using assms(1) by (simp add: sched_ok_def)
  with Some rr_next_ex[OF assms(2,3) t] show ?thesis by (auto simp: resched_def search_rr[OF t])
qed

lemma resched_stuck: "s_current s cpu = None \<Longrightarrow> n \<le> cpu \<Longrightarrow> resched search cpu ctx s = None"
  using rr_next_None[of n cpu 0 ncpu] tasks by (simp add: resched_def search_rr[OF tasks])

lemma interrupts_ok:
  "sched_ok n ncpu s \<Longrightarrow> interrupts (resched search) is s = Some s' \<Longrightarrow> sched_ok n ncpu s'"
proof (induction "is" arbitrary: s)
  case (Cons i "is")
  obtain cpu ctx where i: "i = (cpu, ctx)" by fastforce
  with Cons.prems(2) obtain c s1 where r: "resched search cpu ctx s = Some (c, s1)" "interrupts (resched search) is s1 = Some s'"
    by (auto simp: bind_eq_Some_conv)
  from resched_cases[OF Cons.prems(1) r(1)] have "sched_ok n ncpu s1" by blast
  from Cons.IH[OF this r(2)] show ?case .
qed simp

lemma interrupts_total:
  "sched_ok n ncpu s \<Longrightarrow> \<forall>i \<in> set is. fst i < ncpu \<and> fst i < n \<Longrightarrow> \<exists>s'. interrupts (resched search) is s = Some s'"
proof (induction "is" arbitrary: s)
  case (Cons i "is")
  obtain cpu ctx where i: "i = (cpu, ctx)" by fastforce
  with Cons.prems(2) have "cpu < ncpu" "cpu < n" by simp_all
  from resched_total[OF Cons.prems(1) this, of ctx] obtain c s1 where r: "resched search cpu ctx s = Some (c, s1)" by blast
  from resched_cases[OF Cons.prems(1) r] have "sched_ok n ncpu s1" by blast
  from Cons.IH[OF this] Cons.prems(2) r i show ?case by simp
qed simp

lemma sched_ok_init: "sched_ok n ncpu (sched_init ctxs)"
  by (simp add: sched_ok_def sched_init_def)

lemma exclusive:
  "interrupts (resched search) is (sched_init ctxs) = Some s \<Longrightarrow> s_current s c = Some t \<Longrightarrow> s_current s d = Some t \<Longrightarrow> c = d"
  using interrupts_ok[OF sched_ok_init] unfolding sched_ok_def by metis

lemma own_turn:
  assumes "cpu < ncpu" and "cpu < n"
  shows "rr_next n ncpu cpu (cpu + (j mod share n ncpu cpu) * ncpu) =
    Some (cpu + (Suc j mod share n ncpu cpu) * ncpu)"
proof -
  let ?m = "share n ncpu cpu"
  have m: "0 < ?m" using share_le[OF cpus assms(2), of 0] assms(2) by simp
  let ?i = "j mod ?m"
  have i: "?i < ?m" using m by simp
  have "Suc j mod ?m = (if Suc ?i = ?m then 0 else Suc ?i)" by (simp add: mod_Suc)
  moreover have "rr_next n ncpu cpu (cpu + ?i * ncpu) = Some (if cpu + ?i * ncpu + ncpu < n then cpu + ?i * ncpu + ncpu else cpu)"
    using rr_next_own[of cpu ncpu "cpu + ?i * ncpu" n] assms share_le[OF cpus assms(2), of ?i] i by simp
  moreover have "cpu + ?i * ncpu + ncpu < n \<longleftrightarrow> Suc ?i < ?m"
    using share_le[OF cpus assms(2), of "Suc ?i"] by (simp add: algebra_simps)
  ultimately show ?thesis using i by auto
qed

text \<open>A processor takes its tasks in turn, whatever the others do, and a task that is resumed gets
  the context it was interrupted with.\<close>

lemma turns:
  assumes c: "cpu < ncpu" "cpu < n" and "sched_ok n ncpu s"
    and "s_current s cpu = Some (cpu + (j mod share n ncpu cpu) * ncpu)"
    and "interrupts (resched search) is s = Some s'"
  shows "s_current s' cpu = Some (cpu + ((j + hits cpu is) mod share n ncpu cpu) * ncpu)"
  using assms(3-)
proof (induction "is" arbitrary: s j)
  case (Cons i "is")
  obtain d ctx where i: "i = (d, ctx)" by fastforce
  with Cons.prems(3) obtain x s1 where r: "resched search d ctx s = Some (x, s1)" "interrupts (resched search) is s1 = Some s'"
    by (auto simp: bind_eq_Some_conv)
  from resched_cases[OF Cons.prems(1) r(1)] obtain u where u: "sched_ok n ncpu s1" "s_current s1 = (s_current s)(d := Some u)"
    "case s_current s d of None \<Rightarrow> rr_next n ncpu d 0 = Some u | Some t \<Rightarrow> rr_next n ncpu d t = Some u"
    by (auto split: option.splits)
  show ?case
  proof (cases "d = cpu")
    case True
    with u(3) Cons.prems(2) own_turn[OF c, of j] have "u = cpu + (Suc j mod share n ncpu cpu) * ncpu" by simp
    with Cons.IH[OF u(1) _ r(2), of "Suc j"] u(2) True i show ?thesis by simp
  next
    case False
    with Cons.IH[OF u(1) _ r(2), of j] u(2) Cons.prems(2) i show ?thesis by simp
  qed
qed simp

lemma context_kept:
  assumes c: "cpu < ncpu" "cpu < n" and "sched_ok n ncpu s" and t: "t = cpu + (j mod share n ncpu cpu) * ncpu"
    and "s_current s cpu = Some (cpu + ((j + k) mod share n ncpu cpu) * ncpu)" and "0 < k"
    and "k + hits cpu is \<le> share n ncpu cpu" and "interrupts (resched search) is s = Some s'"
  shows "s_context s' t = s_context s t"
  using assms(3,5-)
proof (induction "is" arbitrary: s k)
  case (Cons i "is")
  let ?m = "share n ncpu cpu"
  obtain d ctx where i: "i = (d, ctx)" by fastforce
  with Cons.prems(5) obtain x s1 where r: "resched search d ctx s = Some (x, s1)" "interrupts (resched search) is s1 = Some s'"
    by (auto simp: bind_eq_Some_conv)
  from resched_cases[OF Cons.prems(1) r(1)] obtain u where u: "sched_ok n ncpu s1" "s_current s1 = (s_current s)(d := Some u)"
    "case s_current s d of None \<Rightarrow> s_context s1 = s_context s
       | Some v \<Rightarrow> rr_next n ncpu d v = Some u \<and> s_context s1 = (s_context s)(v := ctx)"
    by (auto split: option.splits)
  show ?case
  proof (cases "d = cpu")
    case True
    have k: "k < ?m" using Cons.prems(4) True i by simp
    have "(j + k) mod ?m \<noteq> j mod ?m"
    proof
      assume "(j + k) mod ?m = j mod ?m"
      then have "?m dvd k" using mod_eq_dvd_iff_nat[of j "j + k" ?m] by simp
      with k Cons.prems(3) show False using nat_dvd_not_less by blast
    qed
    then have "s_context s1 t = s_context s t" using u(3) True Cons.prems(2) cpus by (simp add: t)
    moreover have "s_current s1 cpu = Some (cpu + ((j + Suc k) mod ?m) * ncpu)"
      using u(2,3) True Cons.prems(2) own_turn[OF c, of "j + k"] by simp
    ultimately show ?thesis using Cons.IH[OF u(1) _ _ _ r(2), of "Suc k"] Cons.prems(4) True i by simp
  next
    case False
    have "t mod ncpu = cpu" using c(1) by (simp add: t)
    then have "s_current s d = Some v \<Longrightarrow> v \<noteq> t" for v
      using Cons.prems(1) False unfolding sched_ok_def by blast
    then have "s_context s1 t = s_context s t" using u(3) by (auto split: option.splits)
    moreover have "s_current s1 cpu = s_current s cpu" using u(2) False by simp
    ultimately show ?thesis using Cons.IH[OF u(1) _ _ _ r(2), of k] Cons.prems False i by simp
  qed
qed simp

end

interpretation mp: round_robin "Suc m" "Suc k" "mp_next (Suc m) (Suc k)" for m k
  by unfold_locales (simp_all add: mp_next_rr)

interpretation sc: round_robin "Suc m" "Suc k" "sc_next (Suc m) (Suc k)" for m k
  by unfold_locales (simp_all add: sc_next_rr)

text \<open>With one processor every task belongs to it; the handler of \<open>thread-os.c\<close> differs only at
  the first interrupt, where it starts with task 0.\<close>

definition one_next :: "nat \<Rightarrow> nat \<Rightarrow> nat \<Rightarrow> nat option" where
  "one_next n cpu t = (if cpu = 0 then Some (task_next n t) else None)"

lemma one_next_rr:
  assumes "t < n"
  shows "one_next n cpu t = rr_next n 1 cpu t"
proof (cases "cpu = 0")
  case True
  with rr_next_own[of 0 1 t n] assms show ?thesis
    by (auto simp: one_next_def task_next_def) (metis Suc_lessI mod_self)
next
  case False
  then show ?thesis by (simp add: one_next_def rr_next_def find_None_iff[THEN iffD2])
qed

interpretation one: round_robin "Suc m" 1 "one_next (Suc m)" for m
  by unfold_locales (simp_all add: one_next_rr del: One_nat_def)

lemma on_interrupt_resched:
  "s_current s 0 = Some t \<Longrightarrow> resched (one_next n) 0 ctx s = Some (on_interrupt n ctx s)"
  by (simp add: resched_def on_interrupt_def one_next_def Let_def)

section \<open>Properties\<close>

text \<open>
  C9. However the interrupts of the processors interleave, no two processors ever run the same
  task, in \<open>thread-os-mp.c\<close> and in \<open>trivial-os.c\<close>, and no interrupt hangs as long as each
  processor has a task.
\<close>

theorem sched_no_sharing:
  assumes "0 < n" and "0 < ncpu" and "handler = mp_on_interrupt n ncpu \<or> handler = schedule n ncpu"
    and "\<forall>i \<in> set is. fst i < ncpu \<and> fst i < n"
  shows "\<exists>s. interrupts handler is (sched_init ctxs) = Some s \<and>
    (\<forall>c d t. s_current s c = Some t \<and> s_current s d = Some t \<longrightarrow> c = d)"
proof -
  from assms(1,2) obtain m k where mk: "n = Suc m" "ncpu = Suc k" by (metis gr0_implies_Suc)
  have 1: "\<exists>s. interrupts (mp_on_interrupt n ncpu) is (sched_init ctxs) = Some s \<and>
    (\<forall>c d t. s_current s c = Some t \<and> s_current s d = Some t \<longrightarrow> c = d)"
    using mp.interrupts_total[OF mp.sched_ok_init, of "is" k m ctxs] assms(4) mp.exclusive
    unfolding mp_on_interrupt_def mk by blast
  have 2: "\<exists>s. interrupts (schedule n ncpu) is (sched_init ctxs) = Some s \<and>
    (\<forall>c d t. s_current s c = Some t \<and> s_current s d = Some t \<longrightarrow> c = d)"
    using sc.interrupts_total[OF sc.sched_ok_init, of "is" k m ctxs] assms(4) sc.exclusive
    unfolding schedule_def mk by blast
  show ?thesis using assms(3) 1 2 by blast
qed

theorem sched_no_sharing_witness:
  "\<exists>s. interrupts (mp_on_interrupt 5 2) [(0, ''a''), (1, ''b''), (0, ''c''), (1, ''d'')] (sched_init (\<lambda>t. [])) = Some s \<and>
    (\<forall>c d t. s_current s c = Some t \<and> s_current s d = Some t \<longrightarrow> c = d)"
  by (rule sched_no_sharing[where n = 5 and ncpu = 2]) simp_all



text \<open>
  A processor whose number is not below the number of tasks hangs in its first interrupt: the
  loop never meets a task of its own. \<open>MAX_CPU\<close> is 8 and there are five tasks.
\<close>

theorem sched_cpu_without_task_hangs:
  assumes "5 \<le> cpu" and "cpu < ncpu"
  shows "mp_on_interrupt 5 ncpu cpu ctx (sched_init ctxs) = None \<and> schedule 5 ncpu cpu ctx (sched_init ctxs) = None"
proof -
  from assms(2) obtain k where k: "ncpu = Suc k" by (metis gr0_implies_Suc less_imp_not_less not_less_zero neq0_conv)
  have five: "5 = Suc 4" by simp
  show ?thesis
    unfolding mp_on_interrupt_def schedule_def k five
    using mp.resched_stuck[of "sched_init ctxs" cpu 4 k ctx] sc.resched_stuck[of "sched_init ctxs" cpu 4 k ctx] assms(1)
    by (simp add: sched_init_def)
qed

theorem sched_cpu_without_task_hangs_witness:
  "mp_on_interrupt 5 8 7 ''boot'' (sched_init (\<lambda>t. [])) = None \<and> schedule 5 8 7 ''boot'' (sched_init (\<lambda>t. [])) = None"
  by (rule sched_cpu_without_task_hangs) simp_all

lemma kallocs_above:
  assumes "\<And>a sz. 0 < sz \<Longrightarrow> a \<le> ROUNDUP a sz" and "0 < brk" and "\<forall>z \<in> set szs. 0 < z"
    and "(p, sz) \<in> set (kallocs ROUNDUP h szs brk)"
  shows "brk \<le> p"
  using assms(2-)
proof (induction szs arbitrary: brk)
  case (Cons z szs)
  have le: "brk \<le> ROUNDUP brk z" using Cons.prems(2) by (intro assms(1)) simp
  with Cons.IH[of "ROUNDUP brk z + z"] Cons.prems show ?case by (auto simp: kalloc_def Let_def)
qed simp

text \<open>
  Blocks handed out by \<open>kalloc\<close> never overlap and come in increasing order, for a \<open>ROUNDUP\<close>
  that does not round down and blocks that are not empty.
\<close>

theorem kalloc_disjoint:
  assumes "\<And>a sz. 0 < sz \<Longrightarrow> a \<le> ROUNDUP a sz" and "0 < heap_start" and "\<forall>z \<in> set szs. 0 < z"
  shows "sorted_wrt (\<lambda>(p, a) (q, b). p + a \<le> q) (kallocs ROUNDUP heap_start szs brk)"
  using assms(3)
proof (induction szs arbitrary: brk)
  case (Cons z szs)
  define brk' where "brk' = (if brk \<noteq> 0 then ROUNDUP brk z + z else heap_start + z)"
  have pos: "0 < brk'" using Cons.prems by (simp add: brk'_def)
  have k: "kallocs ROUNDUP heap_start (z # szs) brk = (brk' - z, z) # kallocs ROUNDUP heap_start szs brk'"
    by (simp add: kalloc_def brk'_def Let_def)
  have "z \<le> brk'" by (simp add: brk'_def)
  with kallocs_above[of ROUNDUP brk' szs, OF assms(1) pos] Cons show ?case unfolding k by auto
qed simp

theorem kalloc_disjoint_witness:
  "sorted_wrt (\<lambda>(p, a) (q, b). p + a \<le> q) (kallocs (\<lambda>a sz. (a + sz - 1) div sz * sz) 4096 [16, 4096, 4096] 0)"
proof (rule kalloc_disjoint)
  fix a sz :: nat
  assume "0 < sz"
  then have "a + sz - 1 < Suc ((a + sz - 1) div sz) * sz" using dividend_less_div_times[of sz "a + sz - 1"] by simp
  then show "a \<le> (a + sz - 1) div sz * sz" by simp
qed simp_all

end
