(* ===== verification/Kernel.thy ===== *)
theory Kernel
  imports Sched "HOL-Library.Word"
begin

unbundle bit_operations_syntax

text \<open>
  The rest of \<open>multi-threads/trivial-os.c\<close>: the file system of two preloaded files, processes with
  page faults and one system call, start-up and the handler \<open>os_interrupt\<close>, on top of the
  scheduler and \<open>kalloc\<close> of \<open>Sched\<close>.

  The abstract machine is a parameter, the record \<open>machine\<close>: rounding, the heap, the number of
  processors, the page size, \<open>_ucontext\<close>, the register \<open>GPR1\<close> of a context, and the two files that
  the build includes. \<open>_protect\<close> and \<open>_map\<close> get pages for page tables from \<open>kalloc\<close>, which
  \<open>main\<close> hands to \<open>_vme_init\<close>, and write nowhere else; how many pages and what they write are
  parameters too. \<open>k_blocks\<close> lists the blocks that have been handed out after the first, with the
  process and the virtual address for a page of a process. An event is handled in one step; what
  happens when two processors are in \<open>kalloc\<close> at once is the last section.
\<close>

section \<open>Definitions\<close>

record 'c machine =
  m_roundup :: "nat \<Rightarrow> nat \<Rightarrow> nat"
  m_rounddown :: "nat \<Rightarrow> nat \<Rightarrow> nat"
  m_heap_start :: nat
  m_ncpu :: nat
  m_pgsize :: nat
  m_null :: 'c
  m_ucontext :: "nat \<Rightarrow> 'c"
  m_gpr1 :: "'c \<Rightarrow> nat"
  m_hello :: string
  m_counter :: string
  m_tables :: "(nat \<times> (nat \<times> nat) option) list \<Rightarrow> nat"
  m_fill :: "(nat \<times> (nat \<times> nat) option) list \<Rightarrow> nat \<Rightarrow> char"

record 'c kernel =
  k_sched :: "'c sched"
  k_brk :: nat
  k_page :: "nat \<Rightarrow> nat"
  k_mem :: "nat \<Rightarrow> char"
  k_blocks :: "(nat \<times> (nat \<times> nat) option) list"
  k_out :: "(nat \<times> nat \<times> string option) list"

definition task_cmds :: "string list" where
  "task_cmds = [''/bin/counter'', ''/bin/counter'', ''/bin/counter'', ''/bin/hello'', ''/bin/hello'']"

abbreviation ntasks :: nat where
  "ntasks \<equiv> length task_cmds"

definition memcpy :: "nat \<Rightarrow> string \<Rightarrow> (nat \<Rightarrow> char) \<Rightarrow> nat \<Rightarrow> char" where
  "memcpy buf bs mem = (\<lambda>a. if buf \<le> a \<and> a < buf + length bs then bs ! (a - buf) else mem a)"

definition vfs_read :: "'c machine \<Rightarrow> string \<Rightarrow> nat \<Rightarrow> (nat \<Rightarrow> char) \<Rightarrow> nat \<Rightarrow> char" where
  "vfs_read M fname buf mem =
     (let mem1 = (if fname = ''/bin/hello'' then memcpy buf (m_hello M) mem else mem)
      in if fname = ''/bin/counter'' then memcpy buf (m_counter M) mem1 else mem1)"

definition alloc_page :: "'c machine \<Rightarrow> (nat \<times> nat) option \<Rightarrow> 'c kernel \<Rightarrow> nat \<times> 'c kernel" where
  "alloc_page M owner k =
     (let (pa, brk) = kalloc (m_roundup M) (m_heap_start M) (m_pgsize M) (k_brk k)
      in (pa, k\<lparr>k_brk := brk, k_blocks := k_blocks k @ [(pa, owner)]\<rparr>))"

text \<open>What \<open>_protect\<close> and \<open>_map\<close> do: page tables are allocated, and any page table is written.\<close>

fun alloc_tables :: "'c machine \<Rightarrow> nat \<Rightarrow> 'c kernel \<Rightarrow> 'c kernel" where
  "alloc_tables M 0 k = k"
| "alloc_tables M (Suc j) k = alloc_tables M j (snd (alloc_page M None k))"

definition is_table :: "nat \<Rightarrow> (nat \<times> (nat \<times> nat) option) list \<Rightarrow> nat \<Rightarrow> bool" where
  "is_table pgsize bs a \<longleftrightarrow> (\<exists>(p, owner) \<in> set bs. owner = None \<and> p \<le> a \<and> a < p + pgsize)"

definition edit_tables :: "'c machine \<Rightarrow> 'c kernel \<Rightarrow> 'c kernel" where
  "edit_tables M k =
     (let k1 = alloc_tables M (m_tables M (k_blocks k)) k
      in k1\<lparr>k_mem := (\<lambda>a. if is_table (m_pgsize M) (k_blocks k1) a then m_fill M (k_blocks k1) a else k_mem k1 a)\<rparr>)"

definition proc_create :: "'c machine \<Rightarrow> nat \<Rightarrow> 'c kernel \<Rightarrow> 'c kernel" where
  "proc_create M t k =
     (let k1 = edit_tables M k
      in k1\<lparr>k_sched := (k_sched k1)\<lparr>s_context := (s_context (k_sched k1))(t := m_ucontext M t)\<rparr>\<rparr>)"

definition proc_pagefault :: "'c machine \<Rightarrow> nat \<Rightarrow> nat \<Rightarrow> 'c kernel \<Rightarrow> 'c kernel res" where
  "proc_pagefault M cpu ptr k =
     (case s_current (k_sched k) cpu of
        None \<Rightarrow> Inl NullDeref
      | Some t \<Rightarrow>
          let va = m_rounddown M ptr (m_pgsize M);
              (pa, k1) = alloc_page M (Some (t, va)) k;
              k2 = k1\<lparr>k_page := (k_page k1)(t := pa), k_mem := vfs_read M (task_cmds ! t) pa (k_mem k1)\<rparr>
          in Inr (edit_tables M k2))"

text \<open>The string that \<open>printf\<close> reads; \<open>None\<close> if no terminator follows.\<close>

partial_function (option) mem_str :: "(nat \<Rightarrow> char) \<Rightarrow> nat \<Rightarrow> string option" where
  "mem_str mem a = (if mem a = NUL then Some [] else Option.bind (mem_str mem (a + 1)) (\<lambda>s. Some (mem a # s)))"

definition proc_syscall :: "'c machine \<Rightarrow> nat \<Rightarrow> 'c \<Rightarrow> 'c kernel \<Rightarrow> 'c kernel res" where
  "proc_syscall M cpu ctx k =
     (case s_current (k_sched k) cpu of
        None \<Rightarrow> Inl NullDeref
      | Some t \<Rightarrow>
          let pa = k_page k t + (m_gpr1 M ctx AND (m_pgsize M - 1))
          in Inr (k\<lparr>k_out := k_out k @ [(t + 1, cpu, mem_str (k_mem k) pa)]\<rparr>))"

definition os_init :: "'c machine \<Rightarrow> 'c kernel" where
  "os_init M =
     (let (currents, brk) = kalloc (m_roundup M) (m_heap_start M) (m_ncpu M * 8) 0;
          k = \<lparr>k_sched = sched_init (\<lambda>_. m_null M), k_brk = brk, k_page = (\<lambda>_. 0), k_mem = (\<lambda>_. NUL),
               k_blocks = [], k_out = []\<rparr>
      in fold (proc_create M) [0..<ntasks] k)"

datatype am_event = EVENT_SYSCALL | EVENT_PAGEFAULT nat | EVENT_OTHER

definition os_interrupt :: "'c machine \<Rightarrow> nat \<Rightarrow> am_event \<Rightarrow> 'c \<Rightarrow> 'c kernel \<Rightarrow> ('c \<times> 'c kernel) res option" where
  "os_interrupt M cpu ev ctx k =
     (case ev of
        EVENT_SYSCALL \<Rightarrow> Some (rbind (proc_syscall M cpu ctx k) (\<lambda>k'. Inr (ctx, k')))
      | EVENT_PAGEFAULT ref \<Rightarrow> Some (rbind (proc_pagefault M cpu ref k) (\<lambda>k'. Inr (ctx, k')))
      | EVENT_OTHER \<Rightarrow>
          map_option (\<lambda>(ctx', s). Inr (ctx', k\<lparr>k_sched := s\<rparr>)) (schedule ntasks (m_ncpu M) cpu ctx (k_sched k)))"

fun os_events :: "'c machine \<Rightarrow> (nat \<times> am_event \<times> 'c) list \<Rightarrow> 'c kernel \<Rightarrow> 'c kernel res option" where
  "os_events M [] k = Some (Inr k)"
| "os_events M ((cpu, ev, ctx) # evs) k =
     (case os_interrupt M cpu ev ctx k of
        None \<Rightarrow> None
      | Some (Inl e) \<Rightarrow> Some (Inl e)
      | Some (Inr (_, k')) \<Rightarrow> os_events M evs k')"

section \<open>The invariant\<close>

text \<open>What the code relies on: \<open>ROUNDUP\<close> does not round down, there is a heap and a processor, and
  the two programs fit into a page.\<close>

definition machine_ok :: "'c machine \<Rightarrow> bool" where
  "machine_ok M \<longleftrightarrow> (\<forall>a sz. 0 < sz \<longrightarrow> a \<le> m_roundup M a sz) \<and> 0 < m_heap_start M \<and> 0 < m_ncpu M \<and> 0 < m_pgsize M \<and>
     length (m_hello M) \<le> m_pgsize M \<and> length (m_counter M) \<le> m_pgsize M"

definition prog :: "'c machine \<Rightarrow> nat \<Rightarrow> string" where
  "prog M t = (if task_cmds ! t = ''/bin/hello'' then m_hello M else if task_cmds ! t = ''/bin/counter'' then m_counter M else [])"

definition apart :: "'c machine \<Rightarrow> 'c kernel \<Rightarrow> bool" where
  "apart M k \<longleftrightarrow> sorted_wrt (\<lambda>(p, _) (q, _). p + m_pgsize M \<le> q) (k_blocks k) \<and>
     (\<forall>(p, _) \<in> set (k_blocks k). m_heap_start M + m_ncpu M * 8 \<le> p \<and> p + m_pgsize M \<le> k_brk k) \<and> 0 < k_brk k \<and>
     m_heap_start M + m_ncpu M * 8 \<le> k_brk k"

definition loaded :: "'c machine \<Rightarrow> 'c kernel \<Rightarrow> bool" where
  "loaded M k \<longleftrightarrow> (\<forall>p t va. (p, Some (t, va)) \<in> set (k_blocks k) \<longrightarrow> (\<forall>i < length (prog M t). k_mem k (p + i) = prog M t ! i))"

definition paged :: "'c kernel \<Rightarrow> bool" where
  "paged k \<longleftrightarrow> (\<forall>t. k_page k t \<noteq> 0 \<longrightarrow> (\<exists>va. (k_page k t, Some (t, va)) \<in> set (k_blocks k)))"

lemma loadedD: "loaded M k \<Longrightarrow> (p, Some (t, va)) \<in> set (k_blocks k) \<Longrightarrow> i < length (prog M t) \<Longrightarrow> k_mem k (p + i) = prog M t ! i"
  unfolding loaded_def by blast

lemma prog_fits: "machine_ok M \<Longrightarrow> length (prog M t) \<le> m_pgsize M"
  by (simp add: prog_def machine_ok_def)

lemma vfs_read_prog: "vfs_read M (task_cmds ! t) buf mem = memcpy buf (prog M t) mem"
  by (auto simp: vfs_read_def prog_def memcpy_def Let_def fun_eq_iff)

lemma alloc_page_apart:
  assumes "machine_ok M" and "apart M k" and "alloc_page M owner k = (pa, k')"
  shows "apart M k' \<and> k_brk k \<le> pa \<and> k_blocks k' = k_blocks k @ [(pa, owner)] \<and> k' = k\<lparr>k_brk := k_brk k', k_blocks := k_blocks k'\<rparr> \<and>
    k_page k' = k_page k \<and> k_mem k' = k_mem k \<and> k_sched k' = k_sched k \<and> k_out k' = k_out k"
proof -
  have le: "k_brk k \<le> m_roundup M (k_brk k) (m_pgsize M)" using assms(1) by (simp add: machine_ok_def)
  have pa: "pa = m_roundup M (k_brk k) (m_pgsize M)" "k' = k\<lparr>k_brk := pa + m_pgsize M, k_blocks := k_blocks k @ [(pa, owner)]\<rparr>"
    using assms(2,3) by (auto simp: alloc_page_def kalloc_def apart_def Let_def)
  have bound: "p + m_pgsize M \<le> pa" if "(p, x) \<in> set (k_blocks k)" for p x using that assms(2) le pa(1) by (fastforce simp: apart_def)
  then have "apart M k'" using assms(2) le pa by (fastforce simp: apart_def sorted_wrt_append)
  with le pa show ?thesis by simp
qed

lemma alloc_tables_apart:
  assumes "machine_ok M" and "apart M k"
  shows "\<exists>ts brk. alloc_tables M j k = k\<lparr>k_brk := brk, k_blocks := k_blocks k @ map (\<lambda>p. (p, None)) ts\<rparr> \<and>
    apart M (alloc_tables M j k) \<and> (\<forall>p \<in> set ts. k_brk k \<le> p)"
  using assms(2)
proof (induction j arbitrary: k)
  case 0
  then show ?case by (intro exI[of _ "[]"] exI[of _ "k_brk k"]) simp
next
  case (Suc j)
  obtain pa k1 where k1: "alloc_page M None k = (pa, k1)" by fastforce
  note a = alloc_page_apart[OF assms(1) Suc.prems k1]
  from Suc.IH[of k1] a obtain ts brk where ts:
    "alloc_tables M j k1 = k1\<lparr>k_brk := brk, k_blocks := k_blocks k1 @ map (\<lambda>p. (p, None)) ts\<rparr>"
    "apart M (alloc_tables M j k1)" "\<forall>p \<in> set ts. k_brk k1 \<le> p" by blast
  have le: "k_brk k \<le> k_brk k1" using a by (auto simp: apart_def)
  have "k1\<lparr>k_brk := brk, k_blocks := k_blocks k1 @ map (\<lambda>p. (p, None)) ts\<rparr> =
      k\<lparr>k_brk := brk, k_blocks := k_blocks k @ map (\<lambda>p. (p, None)) (pa # ts)\<rparr>" using a by (cases k, cases k1) simp
  with ts a le show ?case by (intro exI[of _ "pa # ts"] exI[of _ brk]) (auto simp: k1 intro: le_trans)
qed

text \<open>A page of a process and a page table do not overlap.\<close>

lemma apart_not_table:
  assumes "apart M k" and "(p, Some x) \<in> set (k_blocks k)" and "i < m_pgsize M"
  shows "\<not> is_table (m_pgsize M) (k_blocks k) (p + i)"
proof
  assume "is_table (m_pgsize M) (k_blocks k) (p + i)"
  then obtain q where q: "(q, None) \<in> set (k_blocks k)" "q \<le> p + i" "p + i < q + m_pgsize M" by (auto simp: is_table_def)
  from assms(2) q(1) obtain a b where ab: "a < length (k_blocks k)" "b < length (k_blocks k)"
    "k_blocks k ! a = (p, Some x)" "k_blocks k ! b = (q, None)" by (metis in_set_conv_nth)
  then have "a \<noteq> b" by auto
  then consider "a < b" | "b < a" by linarith
  then show False
    using assms(1) ab q(2,3) assms(3) by cases (fastforce simp: apart_def sorted_wrt_iff_nth_less)+
qed

lemma edit_tables_ok:
  assumes M: "machine_ok M" and k: "apart M k" "loaded M k" "paged k"
  shows "apart M (edit_tables M k) \<and> loaded M (edit_tables M k) \<and> paged (edit_tables M k) \<and>
    k_sched (edit_tables M k) = k_sched k \<and> k_out (edit_tables M k) = k_out k \<and> k_page (edit_tables M k) = k_page k \<and>
    set (k_blocks k) \<subseteq> set (k_blocks (edit_tables M k))"
proof -
  obtain ts brk where ts: "alloc_tables M (m_tables M (k_blocks k)) k =
      k\<lparr>k_brk := brk, k_blocks := k_blocks k @ map (\<lambda>p. (p, None)) ts\<rparr>"
    "apart M (alloc_tables M (m_tables M (k_blocks k)) k)"
    using alloc_tables_apart[OF M k(1)] by blast
  let ?k1 = "k\<lparr>k_brk := brk, k_blocks := k_blocks k @ map (\<lambda>p. (p, None)) ts\<rparr>"
  have a1: "apart M ?k1" using ts by simp
  have e: "edit_tables M k = ?k1\<lparr>k_mem := (\<lambda>a. if is_table (m_pgsize M) (k_blocks ?k1) a then m_fill M (k_blocks ?k1) a else k_mem k a)\<rparr>"
    by (simp add: edit_tables_def ts(1) Let_def cong: if_cong)
  have keep: "k_mem (edit_tables M k) (p + i) = k_mem k (p + i)" if "(p, Some x) \<in> set (k_blocks k)" "i < m_pgsize M" for p x i
    using apart_not_table[OF a1, of p x i] that unfolding e by simp
  have "loaded M (edit_tables M k)" unfolding loaded_def
  proof (intro allI impI)
    fix p t va i
    assume "(p, Some (t, va)) \<in> set (k_blocks (edit_tables M k))" and i: "i < length (prog M t)"
    then have "(p, Some (t, va)) \<in> set (k_blocks k)" unfolding e by auto
    moreover have "i < m_pgsize M" using i prog_fits[OF M, of t] by linarith
    ultimately show "k_mem (edit_tables M k) (p + i) = prog M t ! i"
      using keep[of p "(t, va)" i] k(2) i unfolding loaded_def by metis
  qed
  moreover have "apart M (edit_tables M k)" using a1 unfolding e by (simp add: apart_def)
  moreover have "paged (edit_tables M k)" using k(3) unfolding e by (auto simp: paged_def)
  ultimately show ?thesis unfolding e by simp
qed

definition kernel_ok :: "'c machine \<Rightarrow> 'c kernel \<Rightarrow> bool" where
  "kernel_ok M k \<longleftrightarrow> apart M k \<and> loaded M k \<and> paged k"

lemma os_init_ok:
  assumes M: "machine_ok M"
  shows "kernel_ok M (os_init M) \<and> (\<forall>cpu. s_current (k_sched (os_init M)) cpu = None)"
proof -
  define k0 :: "'a kernel" where "k0 = \<lparr>k_sched = sched_init (\<lambda>_. m_null M), k_brk = m_heap_start M + m_ncpu M * 8,
      k_page = (\<lambda>_. 0), k_mem = (\<lambda>_. NUL), k_blocks = [], k_out = []\<rparr>"
  have o: "os_init M = fold (proc_create M) [0..<ntasks] k0" by (simp add: os_init_def kalloc_def k0_def Let_def)
  have step: "kernel_ok M (proc_create M t k) \<and> (\<forall>cpu. s_current (k_sched (proc_create M t k)) cpu = None)"
    if "kernel_ok M k \<and> (\<forall>cpu. s_current (k_sched k) cpu = None)" for t k
  proof -
    from that have k: "apart M k" "loaded M k" "paged k" by (auto simp: kernel_ok_def)
    from edit_tables_ok[OF M k] that show ?thesis
      by (auto simp: proc_create_def kernel_ok_def apart_def loaded_def paged_def Let_def)
  qed
  have "kernel_ok M k0 \<and> (\<forall>cpu. s_current (k_sched k0) cpu = None)"
    using M by (simp add: kernel_ok_def apart_def loaded_def paged_def k0_def sched_init_def machine_ok_def)
  then have "kernel_ok M (fold (proc_create M) ts k0) \<and> (\<forall>cpu. s_current (k_sched (fold (proc_create M) ts k0)) cpu = None)" for ts
    by (induction ts rule: rev_induct) (simp_all add: step)
  then show ?thesis unfolding o .
qed

lemma proc_pagefault_ok:
  assumes M: "machine_ok M" and ok: "kernel_ok M k" and cur: "s_current (k_sched k) cpu = Some t"
  shows "\<exists>k' va. proc_pagefault M cpu ptr k = Inr k' \<and> kernel_ok M k' \<and> k_sched k' = k_sched k \<and> k_out k' = k_out k \<and>
    k_page k' t \<noteq> 0 \<and> (k_page k' t, Some (t, va)) \<in> set (k_blocks k') \<and> (\<forall>u. u \<noteq> t \<longrightarrow> k_page k' u = k_page k u)"
proof -
  let ?va = "m_rounddown M ptr (m_pgsize M)"
  obtain pa k1 where k1: "alloc_page M (Some (t, ?va)) k = (pa, k1)" by fastforce
  have k: "apart M k" "loaded M k" "paged k" using ok by (auto simp: kernel_ok_def)
  note a = alloc_page_apart[OF M k(1) k1]
  have pos: "0 < pa" using a k(1) by (auto simp: apart_def)
  let ?k2 = "k1\<lparr>k_page := (k_page k1)(t := pa), k_mem := memcpy pa (prog M t) (k_mem k1)\<rparr>"
  have k1': "k_page k1 = k_page k" "k_mem k1 = k_mem k" "k_sched k1 = k_sched k" "k_out k1 = k_out k"
    using a by blast+
  have a2: "apart M ?k2" using conjunct1[OF a] by (simp add: apart_def)
  have "loaded M ?k2" unfolding loaded_def
  proof (intro allI impI)
    fix p u va i
    assume p: "(p, Some (u, va)) \<in> set (k_blocks ?k2)" and i: "i < length (prog M u)"
    show "k_mem ?k2 (p + i) = prog M u ! i"
    proof (cases "(p, Some (u, va)) \<in> set (k_blocks k)")
      case True
      then have "p + m_pgsize M \<le> k_brk k" using k(1) by (fastforce simp: apart_def)
      then have "p + i < pa" using a i prog_fits[OF M, of u] by linarith
      with loadedD[OF k(2) True i] show ?thesis by (simp add: memcpy_def k1')
    next
      case False
      with p a have "p = pa" "u = t" by auto
      with i show ?thesis by (simp add: memcpy_def)
    qed
  qed
  moreover have "paged ?k2" using k(3) a by (auto simp: paged_def k1')
  ultimately have e: "kernel_ok M (edit_tables M ?k2)" "k_sched (edit_tables M ?k2) = k_sched k" "k_out (edit_tables M ?k2) = k_out k"
    "k_page (edit_tables M ?k2) = (k_page k)(t := pa)" "set (k_blocks ?k2) \<subseteq> set (k_blocks (edit_tables M ?k2))"
    using edit_tables_ok[OF M a2] by (auto simp: kernel_ok_def k1')
  have "proc_pagefault M cpu ptr k = Inr (edit_tables M ?k2)"
    by (simp add: proc_pagefault_def cur k1 vfs_read_prog Let_def)
  moreover have "(pa, Some (t, ?va)) \<in> set (k_blocks (edit_tables M ?k2))" using e(5) a by auto
  ultimately show ?thesis using e pos by (intro exI[of _ "edit_tables M ?k2"] exI[of _ ?va]) simp
qed

lemma kernel_ok_sched [simp]: "kernel_ok M (k\<lparr>k_sched := s\<rparr>) = kernel_ok M k" "kernel_ok M (k\<lparr>k_out := os\<rparr>) = kernel_ok M k"
  by (simp_all add: kernel_ok_def apart_def loaded_def paged_def)

lemma os_interrupt_ok:
  assumes "machine_ok M" and "kernel_ok M k" and "os_interrupt M cpu ev ctx k = Some (Inr (ctx', k'))"
  shows "kernel_ok M k'"
proof (cases ev)
  case EVENT_SYSCALL
  with assms(2,3) show ?thesis by (auto simp: os_interrupt_def proc_syscall_def Let_def split: option.splits)
next
  case (EVENT_PAGEFAULT ptr)
  with assms(3) obtain t where t: "s_current (k_sched k) cpu = Some t" "proc_pagefault M cpu ptr k = Inr k'"
    by (cases "s_current (k_sched k) cpu") (auto simp: os_interrupt_def proc_pagefault_def)
  with proc_pagefault_ok[OF assms(1,2) t(1), of ptr] show ?thesis by auto
next
  case EVENT_OTHER
  with assms(2,3) show ?thesis by (auto simp: os_interrupt_def)
qed

lemma os_events_ok:
  "machine_ok M \<Longrightarrow> kernel_ok M k \<Longrightarrow> os_events M evs k = Some (Inr k') \<Longrightarrow> kernel_ok M k'"
  by (induction M evs k rule: os_events.induct) (auto dest: os_interrupt_ok split: option.splits sum.splits)

lemma alloc_page_sched [simp]: "k_sched (snd (alloc_page M own k)) = k_sched k"
  by (simp add: alloc_page_def split_beta Let_def)

lemma alloc_tables_sched [simp]: "k_sched (alloc_tables M j k) = k_sched k"
  by (induction j arbitrary: k) simp_all

lemma os_interrupt_sched:
  assumes "os_interrupt M cpu ev ctx k = Some (Inr (ctx', k'))"
  shows "if ev = EVENT_OTHER then schedule ntasks (m_ncpu M) cpu ctx (k_sched k) = Some (ctx', k_sched k')
    else ctx' = ctx \<and> k_sched k' = k_sched k"
proof (cases ev)
  case (EVENT_PAGEFAULT ptr)
  with assms obtain t where t: "s_current (k_sched k) cpu = Some t" and k': "proc_pagefault M cpu ptr k = Inr k'" "ctx' = ctx"
    by (cases "s_current (k_sched k) cpu") (auto simp: os_interrupt_def proc_pagefault_def)
  obtain pa k1 where k1: "alloc_page M (Some (t, m_rounddown M ptr (m_pgsize M))) k = (pa, k1)" by fastforce
  then have "k_sched k1 = k_sched k" using alloc_page_sched[of M _ k] by (metis snd_conv)
  with k' t k1 EVENT_PAGEFAULT show ?thesis by (auto simp: proc_pagefault_def edit_tables_def Let_def)
qed (use assms in \<open>auto simp: os_interrupt_def proc_syscall_def Let_def split: option.splits\<close>)

lemma os_events_sched:
  "os_events M evs k = Some (Inr k') \<Longrightarrow>
   interrupts (schedule ntasks (m_ncpu M)) (map (\<lambda>(cpu, _, ctx). (cpu, ctx)) (filter (\<lambda>(_, ev, _). ev = EVENT_OTHER) evs))
     (k_sched k) = Some (k_sched k')"
proof (induction evs arbitrary: k)
  case (Cons e evs)
  obtain cpu ev ctx where e: "e = (cpu, ev, ctx)" by (cases e)
  with Cons.prems obtain ctx' k1 where k1: "os_interrupt M cpu ev ctx k = Some (Inr (ctx', k1))" "os_events M evs k1 = Some (Inr k')"
    by (auto split: option.splits sum.splits)
  from os_interrupt_sched[OF k1(1)] Cons.IH[OF k1(2)] show ?case by (auto simp: e split: if_splits)
qed simp

lemma mem_str_ok:
  "(\<forall>i < length str. mem (a + i) = str ! i) \<Longrightarrow> mem (a + length str) = NUL \<Longrightarrow> NUL \<notin> set str \<Longrightarrow> mem_str mem a = Some str"
proof (induction str arbitrary: a)
  case Nil
  then show ?case by (subst mem_str.simps) simp
next
  case (Cons c cs)
  have "mem (a + 1 + i) = cs ! i" if "i < length cs" for i using Cons.prems(1) that by (metis Suc_less_eq add.assoc length_Cons nth_Cons_Suc plus_1_eq_Suc)
  with Cons.IH[of "a + 1"] Cons.prems(2,3) have "mem_str mem (a + 1) = Some cs" by simp
  moreover have "mem a = c" using Cons.prems(1) by (metis add_0_right length_greater_0_conv list.discI nth_Cons_0)
  ultimately show ?case using Cons.prems(3) by (subst mem_str.simps) auto
qed

section \<open>Properties\<close>


definition sample_machine :: "nat machine" where
  "sample_machine = \<lparr>m_roundup = (\<lambda>a sz. (a + sz - 1) div sz * sz), m_rounddown = (\<lambda>a sz. a div sz * sz),
     m_heap_start = 4096, m_ncpu = 2, m_pgsize = 16, m_null = 0, m_ucontext = (\<lambda>t. 0), m_gpr1 = (\<lambda>c. c),
     m_hello = ''hi'' @ [NUL], m_counter = ''one'' @ [NUL], m_tables = (\<lambda>bs. 1), m_fill = (\<lambda>bs a. CHR ''T'')\<rparr>"

lemma sample_machine_ok: "machine_ok sample_machine"
proof -
  have "a \<le> (a + sz - 1) div sz * sz" if "0 < sz" for a sz :: nat
    using dividend_less_div_times[OF that, of "a + sz - 1"] by simp
  then show ?thesis by (simp add: machine_ok_def sample_machine_def)
qed

definition sample_events :: "(nat \<times> am_event \<times> nat) list" where
  "sample_events = [(0, EVENT_OTHER, 7), (0, EVENT_PAGEFAULT 100, 5)]"

lemma sample_run:
  "\<exists>k. os_events sample_machine sample_events (os_init sample_machine) = Some (Inr k) \<and>
    s_current (k_sched k) 0 = Some 2 \<and> k_page k 2 \<noteq> 0"
proof -
  define k0 where "k0 = os_init sample_machine"
  have k0: "kernel_ok sample_machine k0" "s_current (k_sched k0) 0 = None"
    using os_init_ok[OF sample_machine_ok] by (simp_all add: k0_def)
  have n: "sc_next 5 2 0 0 = Some 2" "ntasks = 5" by (simp_all add: sc_next.simps task_cmds_def)
  define s1 where "s1 = (k_sched k0)\<lparr>s_current := (s_current (k_sched k0))(0 := Some 2)\<rparr>"
  have "schedule ntasks (m_ncpu sample_machine) 0 7 (k_sched k0) = Some (s_context (k_sched k0) 2, s1)"
    using k0(2) n by (simp add: schedule_def resched_def sample_machine_def s1_def)
  then have o: "os_interrupt sample_machine 0 EVENT_OTHER 7 k0 = Some (Inr (s_context (k_sched k0) 2, k0\<lparr>k_sched := s1\<rparr>))"
    by (simp add: os_interrupt_def)
  have "kernel_ok sample_machine (k0\<lparr>k_sched := s1\<rparr>)" using k0(1) by simp
  from proc_pagefault_ok[OF sample_machine_ok this, of 0 2 100] obtain k where
    "proc_pagefault sample_machine 0 100 (k0\<lparr>k_sched := s1\<rparr>) = Inr k" "k_sched k = s1" "k_page k 2 \<noteq> 0"
    by (auto simp: s1_def)
  moreover from this have "os_interrupt sample_machine 0 (EVENT_PAGEFAULT 100) 5 (k0\<lparr>k_sched := s1\<rparr>) = Some (Inr (5, k))"
    by (simp add: os_interrupt_def)
  ultimately show ?thesis using o unfolding sample_events_def k0_def[symmetric]
    by (intro exI[of _ k]) (simp add: s1_def)
qed


text \<open>
  C22. The kernel schedules as the scheduler alone would: system calls and page faults return the
  context that was interrupted and leave the scheduler's state alone, so the state after
  any run is the one of \<open>schedule\<close> on the other events. A system call or page fault on a
  processor that has no process yet follows a null pointer.
\<close>

theorem os_events_refine_schedule:
  "(\<forall>k'. os_events M evs k = Some (Inr k') \<longrightarrow>
      interrupts (schedule ntasks (m_ncpu M)) (map (\<lambda>(cpu, _, ctx). (cpu, ctx)) (filter (\<lambda>(_, ev, _). ev = EVENT_OTHER) evs))
        (k_sched k) = Some (k_sched k')) \<and>
   (ev \<noteq> EVENT_OTHER \<longrightarrow>
      (if s_current (k_sched k) cpu = None then os_interrupt M cpu ev ctx k = Some (Inl NullDeref)
       else \<exists>k'. os_interrupt M cpu ev ctx k = Some (Inr (ctx, k'))))"
proof (intro conjI allI impI)
  show "if s_current (k_sched k) cpu = None then os_interrupt M cpu ev ctx k = Some (Inl NullDeref)
       else \<exists>k'. os_interrupt M cpu ev ctx k = Some (Inr (ctx, k'))" if "ev \<noteq> EVENT_OTHER"
    using that by (cases ev) (auto simp: os_interrupt_def proc_syscall_def proc_pagefault_def Let_def split: prod.split)
qed (rule os_events_sched)

theorem os_events_refine_schedule_witness:
  "\<exists>k. os_events sample_machine sample_events (os_init sample_machine) = Some (Inr k) \<and>
    interrupts (schedule ntasks 2) [(0, 7)] (k_sched (os_init sample_machine)) = Some (k_sched k) \<and>
    os_interrupt sample_machine 1 EVENT_SYSCALL 0 (os_init sample_machine) = Some (Inl NullDeref)"
proof -
  obtain k where k: "os_events sample_machine sample_events (os_init sample_machine) = Some (Inr k)" using sample_run by blast
  note t = os_events_refine_schedule[of sample_machine sample_events "os_init sample_machine" EVENT_SYSCALL 1 0]
  have "s_current (k_sched (os_init sample_machine)) 1 = None" using os_init_ok[OF sample_machine_ok] by blast
  moreover have "m_ncpu sample_machine = 2" by (simp add: sample_machine_def)
  ultimately show ?thesis using t k by (auto simp: sample_events_def)
qed

text \<open>
  A system call prints the string that the register points to in the page of the calling
  process, the one its last page fault has loaded with its program, with the number of the
  process and the processor, and returns to the process.
\<close>

theorem os_syscall_prints:
  assumes "machine_ok M" and "m_pgsize M = 2 ^ n" and "os_events M evs (os_init M) = Some (Inr k)"
    and "s_current (k_sched k) cpu = Some t" and "k_page k t \<noteq> 0"
    and "prog M t = pre @ str @ NUL # post" and "length pre = m_gpr1 M ctx mod m_pgsize M" and "NUL \<notin> set str"
  shows "\<exists>k'. os_interrupt M cpu EVENT_SYSCALL ctx k = Some (Inr (ctx, k')) \<and> k_out k' = k_out k @ [(t + 1, cpu, Some str)] \<and>
    k_mem k' = k_mem k \<and> k_sched k' = k_sched k"
proof -
  have "kernel_ok M k" using os_events_ok[OF assms(1) _ assms(3)] os_init_ok[OF assms(1)] by blast
  then have l: "loaded M k" "paged k" by (auto simp: kernel_ok_def)
  from l(2) assms(5) obtain va where va: "(k_page k t, Some (t, va)) \<in> set (k_blocks k)" by (auto simp: paged_def)
  note mem = loadedD[OF l(1) va]
  have off: "m_gpr1 M ctx AND (m_pgsize M - 1) = length pre"
    using assms(2,7) by (simp add: take_bit_eq_mod[symmetric] take_bit_eq_mask mask_eq_exp_minus_1)
  let ?a = "k_page k t + length pre"
  have "k_mem k (?a + i) = str ! i" if "i < length str" for i
    using mem[of "length pre + i"] that assms(6) by (simp add: add.assoc nth_append)
  moreover have "k_mem k (?a + length str) = NUL"
    using mem[of "length pre + length str"] assms(6) by (simp add: add.assoc nth_append)
  ultimately have "mem_str (k_mem k) ?a = Some str" using assms(8) by (intro mem_str_ok) auto
  then show ?thesis using assms(4) off by (simp add: os_interrupt_def proc_syscall_def)
qed

theorem os_syscall_prints_witness:
  "\<exists>k k'. os_interrupt sample_machine 0 EVENT_SYSCALL 0 k = Some (Inr (0, k')) \<and> k_out k' = k_out k @ [(3, 0, Some ''one'')]"
proof -
  obtain k where k: "os_events sample_machine sample_events (os_init sample_machine) = Some (Inr k)"
    "s_current (k_sched k) 0 = Some 2" "k_page k 2 \<noteq> 0" using sample_run by blast
  have p: "m_pgsize sample_machine = 2 ^ 4" "prog sample_machine 2 = [] @ ''one'' @ NUL # []"
    "length ([] :: string) = m_gpr1 sample_machine 0 mod m_pgsize sample_machine"
    by (simp_all add: sample_machine_def prog_def task_cmds_def)
  from os_syscall_prints[OF sample_machine_ok p(1) k p(2,3)] show ?thesis by (auto simp: eval_nat_numeral)
qed

section \<open>Two processors in \<open>kalloc\<close>\<close>

text \<open>
  \<open>proc_pagefault\<close> takes no lock: a processor reads \<open>brk\<close>, computes, and writes it back while
  another may do the same. \<open>kr_local\<close> is the value a processor has read.
\<close>

record kalloc_race =
  kr_brk :: nat
  kr_local :: "nat \<Rightarrow> nat option"
  kr_result :: "nat \<Rightarrow> nat option"

inductive kalloc_step :: "(nat \<Rightarrow> nat \<Rightarrow> nat) \<Rightarrow> nat \<Rightarrow> nat \<Rightarrow> kalloc_race \<Rightarrow> kalloc_race \<Rightarrow> bool"
  for ROUNDUP :: "nat \<Rightarrow> nat \<Rightarrow> nat" and heap_start sz :: nat where
  k_read: "kr_local s c = None \<Longrightarrow> kr_result s c = None \<Longrightarrow>
    kalloc_step ROUNDUP heap_start sz s (s\<lparr>kr_local := (kr_local s)(c \<mapsto> kr_brk s)\<rparr>)"
| k_write: "kr_local s c = Some b \<Longrightarrow> kalloc ROUNDUP heap_start sz b = (p, brk) \<Longrightarrow>
    kalloc_step ROUNDUP heap_start sz s
      (s\<lparr>kr_brk := brk, kr_local := (kr_local s)(c := None), kr_result := (kr_result s)(c \<mapsto> p)\<rparr>)"

text \<open>
  Two processors that take page faults at the same time can be given the same page.
\<close>

theorem kalloc_races:
  assumes "c \<noteq> d" and "kr_local s = Map.empty" and "kr_result s = Map.empty"
  shows "\<exists>s' p. (kalloc_step ROUNDUP heap_start sz)\<^sup>*\<^sup>* s s' \<and> kr_result s' c = Some p \<and> kr_result s' d = Some p"
proof -
  obtain p b where pb: "kalloc ROUNDUP heap_start sz (kr_brk s) = (p, b)" by fastforce
  define s1 where "s1 = s\<lparr>kr_local := (kr_local s)(c \<mapsto> kr_brk s)\<rparr>"
  define s2 where "s2 = s1\<lparr>kr_local := (kr_local s1)(d \<mapsto> kr_brk s1)\<rparr>"
  define s3 where "s3 = s2\<lparr>kr_brk := b, kr_local := (kr_local s2)(c := None), kr_result := (kr_result s2)(c \<mapsto> p)\<rparr>"
  define s4 where "s4 = s3\<lparr>kr_brk := b, kr_local := (kr_local s3)(d := None), kr_result := (kr_result s3)(d \<mapsto> p)\<rparr>"
  let ?R = "kalloc_step ROUNDUP heap_start sz"
  have "?R s s1" unfolding s1_def by (rule k_read) (simp_all add: assms)
  moreover have "?R s1 s2" unfolding s2_def by (rule k_read) (use assms in \<open>simp_all add: s1_def\<close>)
  moreover have "?R s2 s3" unfolding s3_def by (rule k_write[OF _ pb]) (use assms in \<open>simp add: s2_def s1_def\<close>)
  moreover have "?R s3 s4" unfolding s4_def by (rule k_write[OF _ pb]) (use assms in \<open>simp add: s3_def s2_def s1_def\<close>)
  ultimately have "?R\<^sup>*\<^sup>* s s4" by (meson converse_rtranclp_into_rtranclp rtranclp.rtrancl_refl)
  then show ?thesis using assms(1) by (intro exI[of _ s4] exI[of _ p]) (simp add: s4_def s3_def)
qed

theorem kalloc_races_witness:
  "\<exists>s' p. (kalloc_step (\<lambda>a sz. a) 4096 4096)\<^sup>*\<^sup>* \<lparr>kr_brk = 4104, kr_local = Map.empty, kr_result = Map.empty\<rparr> s' \<and>
    kr_result s' 0 = Some p \<and> kr_result s' 1 = Some p"
  by (rule kalloc_races) simp_all

end
