(* ===== verification/Boot.thy ===== *)
theory Boot
  imports Sched
begin

text \<open>
  \<open>main\<close> and the interrupt handlers of \<open>multi-threads/thread-os.c\<close> and \<open>multi-threads/thread-os-mp-full.c\<close>
  on the data the programs have: an array of tasks with links and saved contexts, and one pointer to
  the current task, or one per processor. \<open>main\<close> gives each task a stack inside its own entry of the
  array, a context from \<open>_kcontext\<close> and a link to the next entry; the handlers follow the links.

  A pointer to a task is an index or \<open>None\<close> for the null pointer. \<open>_kcontext\<close> is a parameter: the
  context it builds for a stack area and an argument. Theory Sched has the handlers with the
  links replaced by arithmetic; the programs are shown to refine it, so that what is proved
  there holds of them.
\<close>

section \<open>Tasks\<close>

record 'c task =
  t_name :: string
  t_next :: "nat option"
  t_context :: "'c option"

definition new_task :: "string \<Rightarrow> 'c task" where
  "new_task nm = \<lparr>t_name = nm, t_next = None, t_context = None\<rparr>"

definition tos_tasks :: "'c task list" where
  "tos_tasks = [new_task ''a'', new_task ''b'', new_task ''c'']"

definition mp_tasks :: "'c task list" where
  "mp_tasks = [new_task ''A'', new_task ''B'', new_task ''C'', new_task ''D'', new_task ''E'']"

text \<open>A task is a union of three pointers with an array of 4096 bytes. Its stack area starts
  behind the pointer to the context and ends with the entry; addresses are relative to \<open>tasks\<close>.\<close>

definition sizeof_task :: nat where
  "sizeof_task = 4096"

definition stack_area :: "nat \<Rightarrow> nat \<Rightarrow> nat \<times> nat" where
  "stack_area sizeof_ptr i = (i * sizeof_task + 3 * sizeof_ptr, (i + 1) * sizeof_task)"

definition init_task :: "(nat \<times> nat \<Rightarrow> string \<Rightarrow> 'c) \<Rightarrow> nat \<Rightarrow> nat \<Rightarrow> 'c task list \<Rightarrow> 'c task list" where
  "init_task kcontext sizeof_ptr i ts =
     ts[i := (ts ! i)\<lparr>t_context := Some (kcontext (stack_area sizeof_ptr i) (t_name (ts ! i))),
                       t_next := Some ((i + 1) mod length ts)\<rparr>]"

definition init_tasks :: "(nat \<times> nat \<Rightarrow> string \<Rightarrow> 'c) \<Rightarrow> nat \<Rightarrow> 'c task list \<Rightarrow> 'c task list" where
  "init_tasks kcontext sizeof_ptr ts = fold (init_task kcontext sizeof_ptr) [0..<length ts] ts"

definition load_task :: "'c task list \<Rightarrow> nat option \<Rightarrow> 'c task res" where
  "load_task ts p =
     (case p of None \<Rightarrow> Inl NullDeref | Some t \<Rightarrow> if t < length ts then Inr (ts ! t) else Inl OutOfBounds)"

definition current_context :: "'c task list \<Rightarrow> nat option \<Rightarrow> 'c res" where
  "current_context ts p =
     rbind (load_task ts p) (\<lambda>tk. case t_context tk of None \<Rightarrow> Inl NullDeref | Some c \<Rightarrow> Inr c)"

section \<open>One processor\<close>

record 'c tos =
  tos_current :: "nat option"
  tos_array :: "'c task list"

definition tos_main :: "(nat \<times> nat \<Rightarrow> string \<Rightarrow> 'c) \<Rightarrow> nat \<Rightarrow> 'c tos" where
  "tos_main kcontext sizeof_ptr =
     \<lparr>tos_current = None, tos_array = init_tasks kcontext sizeof_ptr tos_tasks\<rparr>"

definition tos_on_interrupt :: "'c \<Rightarrow> 'c tos \<Rightarrow> ('c \<times> 'c tos) res" where
  "tos_on_interrupt ctx s =
     rbind
       (case tos_current s of
          None \<Rightarrow> Inr (s\<lparr>tos_current := Some 0\<rparr>)
        | Some t \<Rightarrow>
            rbind (load_task (tos_array s) (Some t)) (\<lambda>tk.
              Inr (s\<lparr>tos_array := (tos_array s)[t := tk\<lparr>t_context := Some ctx\<rparr>], tos_current := t_next tk\<rparr>)))
       (\<lambda>s1. rbind (current_context (tos_array s1) (tos_current s1)) (\<lambda>c. Inr (c, s1)))"

text \<open>The run: the contexts the handler returns, for the contexts it is called with.\<close>

fun tos_run :: "'c list \<Rightarrow> 'c tos \<Rightarrow> ('c list \<times> 'c tos) res" where
  "tos_run [] s = Inr ([], s)"
| "tos_run (ctx # ctxs) s =
     rbind (tos_on_interrupt ctx s) (\<lambda>(c, s1). rbind (tos_run ctxs s1) (\<lambda>(cs, s2). Inr (c # cs, s2)))"

section \<open>Several processors\<close>

definition MAX_CPU :: nat where
  "MAX_CPU = 8"

record 'c mp =
  cpu_local :: "nat option list"
  mp_array :: "'c task list"

definition mp_main :: "(nat \<times> nat \<Rightarrow> string \<Rightarrow> 'c) \<Rightarrow> nat \<Rightarrow> 'c mp" where
  "mp_main kcontext sizeof_ptr =
     \<lparr>cpu_local = replicate MAX_CPU None, mp_array = init_tasks kcontext sizeof_ptr mp_tasks\<rparr>"

text \<open>The loop over the links: \<open>None\<close> when it never ends.\<close>

partial_function (option) follow_links :: "'c task list \<Rightarrow> nat \<Rightarrow> nat \<Rightarrow> nat \<Rightarrow> (nat res) option" where
  "follow_links ts ncpu cpu t =
     (case load_task ts (Some t) of
        Inl e \<Rightarrow> Some (Inl e)
      | Inr tk \<Rightarrow>
          (case t_next tk of
             None \<Rightarrow> Some (Inl NullDeref)
           | Some u \<Rightarrow> if u mod ncpu \<noteq> cpu then follow_links ts ncpu cpu u else Some (Inr u)))"

definition mp_handler :: "nat \<Rightarrow> nat \<Rightarrow> 'c \<Rightarrow> 'c mp \<Rightarrow> (('c \<times> 'c mp) res) option" where
  "mp_handler ncpu cpu ctx s =
     (if length (cpu_local s) \<le> cpu then Some (Inl OutOfBounds)
      else
        let (t, r) = (case cpu_local s ! cpu of
               None \<Rightarrow> (0, Inr (mp_array s))
             | Some t \<Rightarrow> (t, rbind (load_task (mp_array s) (Some t)) (\<lambda>tk.
                             Inr ((mp_array s)[t := tk\<lparr>t_context := Some ctx\<rparr>]))))
        in case r of
          Inl e \<Rightarrow> Some (Inl e)
        | Inr ts \<Rightarrow>
            map_option (\<lambda>found. rbind found (\<lambda>u.
                rbind (current_context ts (Some u)) (\<lambda>c.
                  Inr (c, s\<lparr>cpu_local := (cpu_local s)[cpu := Some u], mp_array := ts\<rparr>))))
              (follow_links ts ncpu cpu t))"

fun mp_run :: "nat \<Rightarrow> (nat \<times> 'c) list \<Rightarrow> 'c mp \<Rightarrow> ('c mp res) option" where
  "mp_run ncpu [] s = Some (Inr s)"
| "mp_run ncpu ((cpu, ctx) # is) s =
     (case mp_handler ncpu cpu ctx s of
        None \<Rightarrow> None
      | Some (Inl e) \<Rightarrow> Some (Inl e)
      | Some (Inr (_, s1)) \<Rightarrow> mp_run ncpu is s1)"

section \<open>What main sets up\<close>

text \<open>The bytes of an area, and the area of the links, the name and the context of a task.\<close>

definition bytes_of :: "nat \<times> nat \<Rightarrow> nat set" where
  "bytes_of a = {fst a..<snd a}"

definition header_area :: "nat \<Rightarrow> nat \<Rightarrow> nat \<times> nat" where
  "header_area sizeof_ptr i = (i * sizeof_task, i * sizeof_task + 3 * sizeof_ptr)"

lemma areas_disjoint:
  assumes "3 * sizeof_ptr \<le> sizeof_task"
  shows "bytes_of (stack_area sizeof_ptr i) \<inter> bytes_of (header_area sizeof_ptr j) = {} \<and>
    (i \<noteq> j \<longrightarrow> bytes_of (stack_area sizeof_ptr i) \<inter> bytes_of (stack_area sizeof_ptr j) = {})"
proof -
  have "(a + 1) * sizeof_task \<le> b * sizeof_task" if "a < b" for a b
    using that by (metis Suc_eq_plus1 Suc_leI mult_le_mono1)
  from this[of i j] this[of j i] show ?thesis
    using assms by (cases i j rule: linorder_cases) (auto simp: bytes_of_def stack_area_def header_area_def)
qed

text \<open>The links form the ring \<open>task_next\<close>, and \<open>ctxs\<close> has the contexts.\<close>

definition ring :: "(nat \<Rightarrow> 'c) \<Rightarrow> 'c task list \<Rightarrow> bool" where
  "ring ctxs ts \<longleftrightarrow>
     (\<forall>i < length ts. t_next (ts ! i) = Some (task_next (length ts) i) \<and> t_context (ts ! i) = Some (ctxs i))"

lemma length_init_task [simp]: "length (init_task kc p i ts) = length ts"
  by (simp add: init_task_def)

lemma init_tasks_upto:
  assumes "k \<le> length ts"
  shows "length (fold (init_task kc p) [0..<k] ts) = length ts \<and>
    (\<forall>i < length ts. fold (init_task kc p) [0..<k] ts ! i =
       (if i < k then (ts ! i)\<lparr>t_context := Some (kc (stack_area p i) (t_name (ts ! i))),
          t_next := Some ((i + 1) mod length ts)\<rparr> else ts ! i))"
  using assms
proof (induction k)
  case (Suc k)
  then show ?case by (auto simp: init_task_def nth_list_update less_Suc_eq)
qed simp

lemma init_tasks_ring:
  "ring (\<lambda>i. kc (stack_area p i) (t_name (ts ! i))) (init_tasks kc p ts)"
  "length (init_tasks kc p ts) = length ts"
  using init_tasks_upto[of "length ts" ts kc p]
  by (auto simp: ring_def init_tasks_def task_next_def)

lemma ring_save:
  "ring ctxs ts \<Longrightarrow> t < length ts \<Longrightarrow> ring (ctxs(t := ctx)) (ts[t := (ts ! t)\<lparr>t_context := Some ctx\<rparr>])"
  by (auto simp: ring_def nth_list_update)

lemma ring_context: "ring ctxs ts \<Longrightarrow> t < length ts \<Longrightarrow> current_context ts (Some t) = Inr (ctxs t)"
  by (simp add: ring_def current_context_def load_task_def)

section \<open>The handlers refine the schedulers\<close>

definition tos_refines :: "'c tos \<Rightarrow> 'c sched \<Rightarrow> bool" where
  "tos_refines s a \<longleftrightarrow> ring (s_context a) (tos_array s) \<and> tos_current s = s_current a 0 \<and>
     (\<forall>t. s_current a 0 = Some t \<longrightarrow> t < length (tos_array s)) \<and> tos_array s \<noteq> []"

lemma tos_step:
  assumes "tos_refines s a"
  shows "\<exists>s'. tos_on_interrupt ctx s = Inr (fst (on_interrupt (length (tos_array s)) ctx a), s') \<and>
    tos_refines s' (snd (on_interrupt (length (tos_array s)) ctx a)) \<and> length (tos_array s') = length (tos_array s)"
proof (cases "s_current a 0")
  case None
  with assms ring_context[of "s_context a" "tos_array s" 0] show ?thesis
    by (auto simp: tos_refines_def tos_on_interrupt_def on_interrupt_def)
next
  case (Some t)
  with assms have t: "t < length (tos_array s)" "ring (s_context a) (tos_array s)" "tos_current s = Some t"
    by (auto simp: tos_refines_def)
  let ?n = "length (tos_array s)" and ?tk = "tos_array s ! t"
  let ?ts = "(tos_array s)[t := ?tk\<lparr>t_context := Some ctx\<rparr>]"
  have nx: "t_next ?tk = Some (task_next ?n t)" using t by (simp add: ring_def)
  have lt: "task_next ?n t < length ?ts" using t(1) by (auto simp: task_next_def intro!: mod_less_divisor)
  note r = ring_save[OF t(2,1), of ctx]
  have "current_context ?ts (Some (task_next ?n t)) = Inr (((s_context a)(t := ctx)) (task_next ?n t))"
    by (rule ring_context[OF r lt])
  with t nx r lt Some show ?thesis
    by (auto simp: tos_refines_def tos_on_interrupt_def on_interrupt_def load_task_def)
qed

definition mp_refines :: "'c mp \<Rightarrow> 'c sched \<Rightarrow> bool" where
  "mp_refines s a \<longleftrightarrow> ring (s_context a) (mp_array s) \<and> length (cpu_local s) = MAX_CPU \<and> mp_array s \<noteq> [] \<and>
     (\<forall>c < MAX_CPU. cpu_local s ! c = s_current a c) \<and>
     (\<forall>c t. s_current a c = Some t \<longrightarrow> t < length (mp_array s))"

lemma task_next_less: "t < n \<Longrightarrow> task_next n t < n"
  by (simp add: task_next_def)

lemma follow_ring:
  assumes "ring ctxs ts" "t < length ts"
  shows "follow_links ts ncpu cpu t =
    (let u = task_next (length ts) t in if u mod ncpu \<noteq> cpu then follow_links ts ncpu cpu u else Some (Inr u))"
  using assms by (subst follow_links.simps) (simp add: ring_def load_task_def Let_def)

lemma follow_links_complete:
  assumes "mp_next n ncpu cpu t = Some u" "ring ctxs ts" "length ts = n" "t < n"
  shows "follow_links ts ncpu cpu t = Some (Inr u)"
proof -
  let ?P = "\<lambda>n ncpu cpu t u. length ts = n \<and> t < n \<longrightarrow> follow_links ts ncpu cpu t = Some (Inr u)"
  have "?P n ncpu cpu t u"
  proof (rule mp_next.raw_induct[where P = ?P, OF _ assms(1)])
    fix f n ncpu cpu t u
    assume "\<And>n ncpu cpu t u. f n ncpu cpu t = Some u \<Longrightarrow> ?P n ncpu cpu t u"
      and "(let v = task_next n t in if v mod ncpu \<noteq> cpu then f n ncpu cpu v else Some v) = Some u"
    then show "?P n ncpu cpu t u"
      using follow_ring[OF assms(2), of t ncpu cpu] task_next_less[of t n] by (auto simp: Let_def split: if_splits)
  qed
  with assms show ?thesis by blast
qed

lemma follow_links_sound:
  assumes "follow_links ts ncpu cpu t = Some r" "ring ctxs ts" "t < length ts"
  shows "\<exists>u. r = Inr u \<and> mp_next (length ts) ncpu cpu t = Some u"
proof -
  let ?P = "\<lambda>ts ncpu cpu t r. ring ctxs ts \<and> t < length ts \<longrightarrow>
      (\<exists>u. r = Inr u \<and> mp_next (length ts) ncpu cpu t = Some u)"
  have "?P ts ncpu cpu t r"
  proof (rule follow_links.raw_induct[where P = ?P, OF _ assms(1)])
    fix f and ts :: "'a task list" and ncpu cpu t r
    assume IH: "\<And>(ts :: 'a task list) ncpu cpu t r. f ts ncpu cpu t = Some r \<Longrightarrow> ?P ts ncpu cpu t r"
      and r: "(case load_task ts (Some t) of Inl e \<Rightarrow> Some (Inl e) | Inr tk \<Rightarrow>
          (case t_next tk of None \<Rightarrow> Some (Inl NullDeref)
           | Some u \<Rightarrow> if u mod ncpu \<noteq> cpu then f ts ncpu cpu u else Some (Inr u))) = Some r"
    show "?P ts ncpu cpu t r"
    proof
      assume t: "ring ctxs ts \<and> t < length ts"
      then have "(let u = task_next (length ts) t in if u mod ncpu \<noteq> cpu then f ts ncpu cpu u else Some (Inr u)) = Some r"
        using r by (simp add: ring_def load_task_def Let_def)
      then show "\<exists>u. r = Inr u \<and> mp_next (length ts) ncpu cpu t = Some u"
        using IH[of ts ncpu cpu "task_next (length ts) t" r] t task_next_less[of t "length ts"]
        by (subst mp_next.simps) (auto simp: Let_def split: if_splits)
    qed
  qed
  with assms show ?thesis by blast
qed

lemma follow_links_mp_next:
  assumes "ring ctxs ts" "t < length ts"
  shows "follow_links ts ncpu cpu t = map_option Inr (mp_next (length ts) ncpu cpu t)"
proof (cases "mp_next (length ts) ncpu cpu t")
  case None
  then show ?thesis using follow_links_sound[OF _ assms, of ncpu cpu] by (cases "follow_links ts ncpu cpu t") auto
qed (use follow_links_complete[OF _ assms(1) refl assms(2)] in auto)

lemma mp_step:
  assumes "mp_refines s a" "cpu < MAX_CPU"
  shows "case mp_on_interrupt (length (mp_array s)) ncpu cpu ctx a of
      None \<Rightarrow> mp_handler ncpu cpu ctx s = None
    | Some (c, a') \<Rightarrow> \<exists>s'. mp_handler ncpu cpu ctx s = Some (Inr (c, s')) \<and> mp_refines s' a' \<and>
        length (mp_array s') = length (mp_array s)"
proof -
  define t where "t = (case s_current a cpu of None \<Rightarrow> 0 | Some t \<Rightarrow> t)"
  define ts where "ts = (case s_current a cpu of None \<Rightarrow> mp_array s
    | Some t \<Rightarrow> (mp_array s)[t := (mp_array s ! t)\<lparr>t_context := Some ctx\<rparr>])"
  define cs where "cs = (case s_current a cpu of None \<Rightarrow> s_context a | Some t \<Rightarrow> (s_context a)(t := ctx))"
  have r: "ring (s_context a) (mp_array s)" and t: "t < length (mp_array s)"
    and loc: "length (cpu_local s) = MAX_CPU" "cpu_local s ! cpu = s_current a cpu"
    using assms by (auto simp: mp_refines_def t_def split: option.splits)
  have len: "length ts = length (mp_array s)" by (simp add: ts_def split: option.splits)
  have ring: "ring cs ts" using r t ring_save[OF r, of _ ctx] by (auto simp: cs_def ts_def t_def split: option.splits)
  have h: "mp_handler ncpu cpu ctx s = map_option (\<lambda>found. rbind found (\<lambda>u. rbind (current_context ts (Some u)) (\<lambda>c.
      Inr (c, s\<lparr>cpu_local := (cpu_local s)[cpu := Some u], mp_array := ts\<rparr>)))) (follow_links ts ncpu cpu t)"
    using loc assms(2) t by (auto simp: mp_handler_def ts_def t_def load_task_def split: option.splits)
  have m: "mp_on_interrupt (length (mp_array s)) ncpu cpu ctx a =
      map_option (\<lambda>u. (cs u, \<lparr>s_current = (s_current a)(cpu := Some u), s_context = cs\<rparr>)) (mp_next (length ts) ncpu cpu t)"
    by (cases a) (auto simp: mp_on_interrupt_def resched_def cs_def t_def len split: option.splits)
  show ?thesis
  proof (cases "mp_next (length ts) ncpu cpu t")
    case None
    then show ?thesis unfolding h m using follow_links_mp_next[OF ring, of t] t len by simp
  next
    case (Some u)
    then have u: "u < length ts" using mp_next_sound[OF Some] t len by (cases "mp_array s") auto
    let ?s = "s\<lparr>cpu_local := (cpu_local s)[cpu := Some u], mp_array := ts\<rparr>"
    have "mp_refines ?s \<lparr>s_current = (s_current a)(cpu := Some u), s_context = cs\<rparr>"
      using assms u len ring by (auto simp: mp_refines_def nth_list_update)
    with Some u ring_context[OF ring u] show ?thesis
      unfolding h m using follow_links_mp_next[OF ring, of t] t len by simp
  qed
qed

lemma mp_run_refines:
  assumes "mp_refines s a" "\<forall>i \<in> set is. fst i < MAX_CPU"
  shows "case interrupts (mp_on_interrupt (length (mp_array s)) ncpu) is a of
      None \<Rightarrow> mp_run ncpu is s = None
    | Some a' \<Rightarrow> \<exists>s'. mp_run ncpu is s = Some (Inr s') \<and> mp_refines s' a'"
  using assms
proof (induction "is" arbitrary: s a)
  case (Cons i "is")
  obtain cpu ctx where i: "i = (cpu, ctx)" by fastforce
  with Cons.prems have cpu: "cpu < MAX_CPU" by simp
  show ?case
  proof (cases "mp_on_interrupt (length (mp_array s)) ncpu cpu ctx a")
    case None
    with mp_step[OF Cons.prems(1) cpu, of ncpu ctx] show ?thesis by (simp add: i)
  next
    case (Some ca)
    obtain c a' where ca: "ca = (c, a')" by fastforce
    from mp_step[OF Cons.prems(1) cpu, of ncpu ctx] Some ca obtain s' where
      "mp_handler ncpu cpu ctx s = Some (Inr (c, s'))" "mp_refines s' a'" "length (mp_array s') = length (mp_array s)"
      by auto
    with Cons.IH[of s' a'] Cons.prems(2) Some ca show ?thesis unfolding i by (simp split: option.splits)
  qed
qed simp

text \<open>The state of one processor after \<open>k\<close> interrupts: task \<open>k - 1\<close> of the ring runs, and the
  others wait for their turn with the contexts they were interrupted with.\<close>

definition due :: "nat \<Rightarrow> (nat \<Rightarrow> 'c) \<Rightarrow> 'c list \<Rightarrow> nat \<Rightarrow> 'c" where
  "due n start ctxs k = (if k < n then start k else ctxs ! (k - n + 1))"

definition turn_inv :: "(nat \<Rightarrow> 'c) \<Rightarrow> 'c list \<Rightarrow> nat \<Rightarrow> nat \<Rightarrow> 'c sched \<Rightarrow> bool" where
  "turn_inv start ctxs n k a \<longleftrightarrow> s_current a 0 = Some ((k - 1) mod n) \<and>
     (\<forall>j. k \<le> j \<and> j < k + n - 1 \<longrightarrow> s_context a (j mod n) = due n start ctxs j)"

lemma mod_differs: "k \<le> j \<Longrightarrow> j < k + n - 1 \<Longrightarrow> 0 < k \<Longrightarrow> j mod n \<noteq> (k - 1) mod (n :: nat)"
proof
  assume a: "k \<le> j" "j < k + n - 1" "0 < k" and "j mod n = (k - 1) mod n"
  then have "n dvd j - (k - 1)" using mod_eq_dvd_iff_nat[of "k - 1" j n] by simp
  moreover have "0 < j - (k - 1)" "j - (k - 1) < n" using a by linarith+
  ultimately show False using nat_dvd_not_less by blast
qed

lemma turn_step:
  assumes "turn_inv start ctxs n k a" "0 < k" "1 < n"
  shows "fst (on_interrupt n (ctxs ! k) a) = due n start ctxs k \<and>
    turn_inv start ctxs n (k + 1) (snd (on_interrupt n (ctxs ! k) a))"
proof -
  have cur: "s_current a 0 = Some ((k - 1) mod n)" using assms by (simp add: turn_inv_def)
  have nx: "task_next n ((k - 1) mod n) = k mod n" using assms(2) by (simp add: task_next_def mod_Suc_eq)
  have wait: "s_context a (j mod n) = due n start ctxs j" "j mod n \<noteq> (k - 1) mod n" if "k \<le> j" "j < k + n - 1" for j
    using that assms mod_differs[OF that assms(2)] by (auto simp: turn_inv_def)
  have last: "(k + n - 1) mod n = (k - 1) mod n" "due n start ctxs (k + n - 1) = ctxs ! k"
    using assms(2) by (cases k; simp add: due_def)+
  let ?cs = "(s_context a)((k - 1) mod n := ctxs ! k)"
  have "?cs (j mod n) = due n start ctxs j" if "k \<le> j" "j < k + n" for j
  proof (cases "j = k + n - 1")
    case True
    then show ?thesis using last by simp
  next
    case False
    with that have "j < k + n - 1" by simp
    with wait[OF that(1)] show ?thesis by simp
  qed
  with cur nx assms(2,3) show ?thesis by (simp add: on_interrupt_def turn_inv_def)
qed

lemma turn_run:
  assumes "turn_inv start ctxs n k a" "0 < k" "1 < n" "tos_refines s a" "length (tos_array s) = n"
    and "drop k ctxs = xs"
  shows "\<exists>s'. tos_run xs s = Inr (map (due n start ctxs) [k..<length ctxs], s')"
  using assms
proof (induction xs arbitrary: k a s)
  case Nil
  then show ?case by simp
next
  case (Cons x xs)
  then have k: "k < length ctxs" "ctxs ! k = x" "drop (k + 1) ctxs = xs"
    by (metis drop_eq_Nil linorder_not_less list.distinct(1), metis nth_via_drop, simp add: drop_Suc tl_drop[symmetric])
  from tos_step[OF Cons.prems(4), of x] turn_step[OF Cons.prems(1-3)] obtain s' where
    s': "tos_on_interrupt x s = Inr (due n start ctxs k, s')" "tos_refines s' (snd (on_interrupt n x a))"
    "length (tos_array s') = n" "turn_inv start ctxs n (k + 1) (snd (on_interrupt n x a))"
    unfolding k(2) Cons.prems(5) by auto
  from Cons.IH[OF s'(4) _ Cons.prems(3) s'(2,3) k(3)] obtain s2 where
    "tos_run xs s' = Inr (map (due n start ctxs) [k + 1..<length ctxs], s2)" by auto
  with s'(1) k(1) show ?case by (simp add: upt_conv_Cons)
qed

section \<open>Properties\<close>

text \<open>
  C16. \<open>thread-os.c\<close> from power-on: whatever interrupts come, the handler never fails, and its
  \<open>k\<close>-th call resumes task \<open>k\<close> modulo three: the first three calls start the three tasks with the
  contexts \<open>main\<close> made for their own stacks and names, and every later call returns the very context
  with which that task was interrupted last.
\<close>

theorem thread_os_takes_turns:
  fixes kcontext :: "nat \<times> nat \<Rightarrow> string \<Rightarrow> 'c"
  shows "\<exists>s. tos_run ctxs (tos_main kcontext sizeof_ptr) =
     Inr (map (due 3 (\<lambda>i. kcontext (stack_area sizeof_ptr i) ([''a'', ''b'', ''c''] ! i)) ctxs) [0..<length ctxs], s)"
proof (cases ctxs)
  case Nil
  then show ?thesis by simp
next
  case (Cons x xs)
  let ?start = "\<lambda>i. kcontext (stack_area sizeof_ptr i) ([''a'', ''b'', ''c''] ! i)"
  let ?init = "\<lambda>i. kcontext (stack_area sizeof_ptr i) (t_name ((tos_tasks :: 'c task list) ! i))"
  let ?s = "tos_main kcontext sizeof_ptr"
  have names: "?init i = ?start i" if "i < 3" for i
    using that by (auto simp: tos_tasks_def new_task_def less_Suc_eq numeral_3_eq_3)
  have n: "length (tos_array ?s) = 3" by (simp add: tos_main_def init_tasks_ring(2)) (simp add: tos_tasks_def)
  have "tos_refines ?s (sched_init ?init)"
    using init_tasks_ring[of kcontext sizeof_ptr "tos_tasks :: 'c task list"] n
    by (auto simp: tos_refines_def sched_init_def tos_main_def)
  from tos_step[OF this, of x] n obtain s1 where s1: "tos_on_interrupt x ?s = Inr (fst (on_interrupt 3 x (sched_init ?init)), s1)"
    "tos_refines s1 (snd (on_interrupt 3 x (sched_init ?init)))" "length (tos_array s1) = 3" by auto
  have t: "turn_inv ?start ctxs 3 1 (snd (on_interrupt 3 x (sched_init ?init)))"
    "fst (on_interrupt 3 x (sched_init ?init)) = ?start 0"
    using names by (auto simp: turn_inv_def on_interrupt_def sched_init_def due_def)
  from turn_run[OF t(1) _ _ s1(2,3), of xs] Cons obtain s2 where
    "tos_run xs s1 = Inr (map (due 3 ?start ctxs) [1..<length ctxs], s2)" by auto
  with s1(1) t(2) have "tos_run (x # xs) ?s = Inr (?start 0 # map (due 3 ?start ctxs) [1..<length ctxs], s2)" by simp
  moreover have "[0..<length ctxs] = 0 # [1..<length ctxs]" using Cons upt_conv_Cons[of 0 "length ctxs"] by simp
  moreover have "due 3 ?start ctxs 0 = ?start 0" by (simp add: due_def)
  ultimately show ?thesis using Cons by (simp only: list.map) blast
qed



end
