(* ===== verification/Exec.thy ===== *)
theory Exec
  imports Prelude "HOL-Library.Word"
begin

unbundle bit_operations_syntax

text \<open>
  \<open>xv6-exec.c\<close>: the system call \<open>exec\<close> of xv6.

  The services of the kernel that \<open>exec\<close> calls are not in the repository; they are the fields of
  the record \<open>services\<close>. A service that can answer differently each time gets the log of the
  calls made so far. The log records every call with an effect outside \<open>exec\<close>; the properties
  are about this log, the process structure and the value returned. Registers and addresses are
  words of 32 bits.
\<close>

section \<open>Definitions\<close>

type_synonym u32 = "32 word"

record elfhdr =
  e_magic :: u32
  e_entry :: u32
  e_phoff :: u32
  e_phnum :: nat

record proghdr =
  ph_type :: u32
  ph_off :: u32
  ph_vaddr :: u32
  ph_filesz :: u32
  ph_memsz :: u32

datatype event =
    BeginOp
  | EndOp
  | ILock nat
  | IUnlockPut nat
  | SetupKvm nat
  | AllocUvm nat u32 u32
  | LoadUvm nat u32 nat u32 u32
  | ClearPteu nat u32
  | CopyOut nat u32 string
  | CopyOutWords nat u32 "u32 list"
  | SwitchUvm nat
  | FreeVm nat

text \<open>\<open>readi\<close> of a structure is \<open>None\<close> when it reads fewer bytes than the structure has;
  \<open>setupkvm\<close> is \<open>None\<close> for the null pointer; a negative result is \<open>False\<close>.\<close>

record services =
  namei :: "string \<Rightarrow> nat option"
  readi_elf :: "nat \<Rightarrow> elfhdr option"
  readi_ph :: "nat \<Rightarrow> u32 \<Rightarrow> proghdr option"
  setupkvm :: "nat option"
  allocuvm :: "event list \<Rightarrow> nat \<Rightarrow> u32 \<Rightarrow> u32 \<Rightarrow> u32"
  loaduvm :: "event list \<Rightarrow> bool"
  copyout :: "event list \<Rightarrow> bool"

record kproc =
  kp_name :: string
  kp_pgdir :: nat
  kp_sz :: u32
  kp_eip :: u32
  kp_esp :: u32

definition ELF_MAGIC :: u32 where "ELF_MAGIC = 0x464C457F"
definition ELF_PROG_LOAD :: u32 where "ELF_PROG_LOAD = 1"
definition PGSIZE :: u32 where "PGSIZE = 4096"
definition MAXARG :: nat where "MAXARG = 32"

definition PGROUNDUP :: "u32 \<Rightarrow> u32" where
  "PGROUNDUP sz = (sz + PGSIZE - 1) AND NOT (PGSIZE - 1)"

text \<open>The loop over the program headers, \<open>k\<close> of them left. The result is the size, or \<open>None\<close>
  for \<open>goto bad\<close>, and the log.\<close>

fun load_segments :: "services \<Rightarrow> nat \<Rightarrow> nat \<Rightarrow> nat \<Rightarrow> u32 \<Rightarrow> u32 \<Rightarrow> event list \<Rightarrow> u32 option \<times> event list" where
  "load_segments K pgdir ip 0 off sz log = (Some sz, log)"
| "load_segments K pgdir ip (Suc k) off sz log =
     (case readi_ph K ip off of
        None \<Rightarrow> (None, log)
      | Some ph \<Rightarrow>
          if ph_type ph \<noteq> ELF_PROG_LOAD then load_segments K pgdir ip k (off + 32) sz log
          else if ph_memsz ph < ph_filesz ph then (None, log)
          else if ph_vaddr ph + ph_memsz ph < ph_vaddr ph then (None, log)
          else
            let sz1 = allocuvm K log pgdir sz (ph_vaddr ph + ph_memsz ph);
                log1 = log @ [AllocUvm pgdir sz (ph_vaddr ph + ph_memsz ph)]
            in if sz1 = 0 then (None, log1)
               else if ph_vaddr ph mod PGSIZE \<noteq> 0 then (None, log1)
               else
                 let log2 = log1 @ [LoadUvm pgdir (ph_vaddr ph) ip (ph_off ph) (ph_filesz ph)]
                 in if \<not> loaduvm K log2 then (None, log2)
                    else load_segments K pgdir ip k (off + 32) sz1 log2)"

text \<open>The loop that pushes the argument strings: \<open>ptrs\<close> is \<open>ustack[3 ..]\<close> so far.\<close>

fun push_args :: "services \<Rightarrow> nat \<Rightarrow> string list \<Rightarrow> nat \<Rightarrow> u32 \<Rightarrow> u32 list \<Rightarrow> event list \<Rightarrow>
    (u32 \<times> u32 list) option \<times> event list" where
  "push_args K pgdir [] argc sp ptrs log = (Some (sp, ptrs), log)"
| "push_args K pgdir (a # as) argc sp ptrs log =
     (if MAXARG \<le> argc then (None, log)
      else let sp1 = (sp - (of_nat (length a) + 1)) AND NOT 3;
               log1 = log @ [CopyOut pgdir sp1 a]
           in if \<not> copyout K log1 then (None, log1)
              else push_args K pgdir as (argc + 1) sp1 (ptrs @ [sp1]) log1)"

definition ustack :: "u32 \<Rightarrow> u32 list \<Rightarrow> u32 list" where
  "ustack sp ptrs =
     [0xffffffff, of_nat (length ptrs), sp - (of_nat (length ptrs) + 1) * 4] @ ptrs @ [0]"

text \<open>The last component of the path, cut to the 16 bytes of \<open>name\<close>.\<close>

fun last_from :: "string \<Rightarrow> string \<Rightarrow> string" where
  "last_from cur [] = cur"
| "last_from cur (c # s) = last_from (if c = CHR ''/'' then s else cur) s"

definition prog_name :: "string \<Rightarrow> string" where
  "prog_name path = take 15 (last_from path path)"

definition bad :: "nat option \<Rightarrow> nat option \<Rightarrow> event list \<Rightarrow> event list" where
  "bad pgdir ip log =
     log @ (case pgdir of None \<Rightarrow> [] | Some pd \<Rightarrow> [FreeVm pd]) @
     (case ip of None \<Rightarrow> [] | Some i \<Rightarrow> [IUnlockPut i, EndOp])"

text \<open>The part after the inode is put back: the stack, the arguments and the commit.\<close>

definition finish_image ::
  "services \<Rightarrow> string \<Rightarrow> string list \<Rightarrow> elfhdr \<Rightarrow> nat \<Rightarrow> u32 \<Rightarrow> kproc \<Rightarrow> event list \<Rightarrow> int \<times> kproc \<times> event list" where
  "finish_image K path argv elf pgdir sz0 p log0 =
     (let sz1 = PGROUNDUP sz0;
          sz = allocuvm K log0 pgdir sz1 (sz1 + 2 * PGSIZE);
          log1 = log0 @ [AllocUvm pgdir sz1 (sz1 + 2 * PGSIZE)]
      in if sz = 0 then (-1, p, bad (Some pgdir) None log1)
         else let log2 = log1 @ [ClearPteu pgdir (sz - 2 * PGSIZE)] in
           (case push_args K pgdir argv 0 sz [] log2 of
              (None, log3) \<Rightarrow> (-1, p, bad (Some pgdir) None log3)
            | (Some (sp0, ptrs), log3) \<Rightarrow>
                let sp = sp0 - (3 + of_nat (length ptrs) + 1) * 4;
                    log4 = log3 @ [CopyOutWords pgdir sp (ustack sp0 ptrs)]
                in if \<not> copyout K log4 then (-1, p, bad (Some pgdir) None log4)
                   else (0, p\<lparr>kp_name := prog_name path, kp_pgdir := pgdir, kp_sz := sz, kp_eip := e_entry elf, kp_esp := sp\<rparr>,
                         log4 @ [SwitchUvm pgdir, FreeVm (kp_pgdir p)])))"

definition exec :: "services \<Rightarrow> string \<Rightarrow> string list \<Rightarrow> kproc \<Rightarrow> event list \<Rightarrow> int \<times> kproc \<times> event list" where
  "exec K path argv p log =
     (let log0 = log @ [BeginOp] in
      case namei K path of
        None \<Rightarrow> (-1, p, log0 @ [EndOp])
      | Some ip \<Rightarrow>
          let log1 = log0 @ [ILock ip] in
          (case readi_elf K ip of
             None \<Rightarrow> (-1, p, bad None (Some ip) log1)
           | Some elf \<Rightarrow>
               if e_magic elf \<noteq> ELF_MAGIC then (-1, p, bad None (Some ip) log1)
               else (case setupkvm K of
                       None \<Rightarrow> (-1, p, bad None (Some ip) log1)
                     | Some pgdir \<Rightarrow>
                         (case load_segments K pgdir ip (e_phnum elf) (e_phoff elf) 0 (log1 @ [SetupKvm pgdir]) of
                            (None, log2) \<Rightarrow> (-1, p, bad (Some pgdir) (Some ip) log2)
                          | (Some sz, log2) \<Rightarrow>
                              finish_image K path argv elf pgdir sz p (log2 @ [IUnlockPut ip, EndOp])))))"

section \<open>What the loops leave alone\<close>

text \<open>The events that take or give back a resource.\<close>

fun is_resource :: "event \<Rightarrow> bool" where
  "is_resource (AllocUvm _ _ _) = False"
| "is_resource (LoadUvm _ _ _ _ _) = False"
| "is_resource (ClearPteu _ _) = False"
| "is_resource (CopyOut _ _ _) = False"
| "is_resource (CopyOutWords _ _ _) = False"
| "is_resource (SwitchUvm _) = False"
| "is_resource _ = True"

abbreviation resources :: "event list \<Rightarrow> event list" where
  "resources \<equiv> filter is_resource"

lemma load_segments_log:
  "load_segments K pgdir ip k off sz log = (r, log') \<Longrightarrow> resources log' = resources log"
proof (induction k arbitrary: off sz log)
  case (Suc k)
  then show ?case by (auto simp: Let_def split: option.splits if_splits)
qed simp

lemma push_args_log:
  "push_args K pgdir as argc sp ptrs log = (r, log') \<Longrightarrow> resources log' = resources log"
proof (induction as arbitrary: argc sp ptrs log)
  case (Cons a as)
  then show ?case by (auto simp: Let_def split: if_splits)
qed simp

lemma push_args_ptrs:
  assumes "push_args K pgdir as argc sp ptrs log = (Some (sp', ptrs'), log')"
  shows "\<exists>new. ptrs' = ptrs @ new \<and> length new = length as \<and> argc + length as \<le> max argc MAXARG \<and>
    log' = log @ map2 (CopyOut pgdir) new as \<and> (\<forall>q \<in> set new. q AND 3 = 0) \<and>
    (new = [] \<longrightarrow> sp' = sp) \<and> (new \<noteq> [] \<longrightarrow> sp' = last new)"
  using assms
proof (induction as arbitrary: argc sp ptrs log)
  case (Cons a as)
  let ?sp = "(sp - (of_nat (length a) + 1)) AND NOT (3 :: u32)"
  from Cons.prems have argc: "argc < MAXARG"
    and r: "push_args K pgdir as (argc + 1) ?sp (ptrs @ [?sp]) (log @ [CopyOut pgdir ?sp a]) = (Some (sp', ptrs'), log')"
    by (auto simp: Let_def split: if_splits)
  from Cons.IH[OF r] obtain new where new: "ptrs' = (ptrs @ [?sp]) @ new" "length new = length as"
    "argc + 1 + length as \<le> max (argc + 1) MAXARG" "log' = (log @ [CopyOut pgdir ?sp a]) @ map2 (CopyOut pgdir) new as"
    "\<forall>q \<in> set new. q AND 3 = 0" "new = [] \<longrightarrow> sp' = ?sp" "new \<noteq> [] \<longrightarrow> sp' = last new" by blast
  have "?sp AND 3 = 0" by (simp add: and.assoc)
  with new argc show ?case by (intro exI[of _ "?sp # new"]) auto
qed simp

section \<open>A small kernel\<close>

definition sample_kernel :: services where
  "sample_kernel = \<lparr>namei = (\<lambda>path. if path = ''/bin/ls'' then Some 3 else None),
     readi_elf = (\<lambda>ip. Some \<lparr>e_magic = ELF_MAGIC, e_entry = 0x10, e_phoff = 52, e_phnum = 1\<rparr>),
     readi_ph = (\<lambda>ip off. Some \<lparr>ph_type = ELF_PROG_LOAD, ph_off = 4096, ph_vaddr = 0, ph_filesz = 100, ph_memsz = 200\<rparr>),
     setupkvm = Some 9, allocuvm = (\<lambda>log pd old new. new), loaduvm = (\<lambda>log. True), copyout = (\<lambda>log. True)\<rparr>"

definition sample_proc :: kproc where
  "sample_proc = \<lparr>kp_name = ''sh'', kp_pgdir = 5, kp_sz = 4096, kp_eip = 0, kp_esp = 4000\<rparr>"

lemma sample_exec: "\<exists>p' log'. exec sample_kernel ''/bin/ls'' [''ls'', ''-l''] sample_proc [] = (0, p', log')"
  by (simp add: exec_def sample_kernel_def Let_def finish_image_def PGROUNDUP_def PGSIZE_def ELF_PROG_LOAD_def MAXARG_def)

section \<open>Properties\<close>

text \<open>
  C5. Every path through \<open>exec\<close> gives back what it took, exactly once and in order: the log
  operation is ended, the inode unlocked and put, and on failure the new page directory is freed
  and the process is untouched; on success the process has the new page directory and the old one
  is freed.
\<close>

theorem exec_balances_resources:
  assumes "exec K path argv p log = (r, p', log')"
  shows "(r = -1 \<and> p' = p \<and>
      (\<exists>ip pd. resources log' \<in> (\<lambda>es. resources log @ es) `
        {[BeginOp, EndOp],
         [BeginOp, ILock ip, IUnlockPut ip, EndOp],
         [BeginOp, ILock ip, SetupKvm pd, FreeVm pd, IUnlockPut ip, EndOp],
         [BeginOp, ILock ip, SetupKvm pd, IUnlockPut ip, EndOp, FreeVm pd]})) \<or>
    (r = 0 \<and> (\<exists>ip pd. kp_pgdir p' = pd \<and>
       resources log' = resources log @ [BeginOp, ILock ip, SetupKvm pd, IUnlockPut ip, EndOp, FreeVm (kp_pgdir p)]))"
proof -
  show ?thesis
  proof (cases "namei K path")
    case None
    with assms show ?thesis by (auto simp: exec_def)
  next
    case ip: (Some ip)
    let ?log1 = "log @ [BeginOp, ILock ip]"
    consider (hdr) "r = -1" "p' = p" "log' = bad None (Some ip) ?log1"
      | (kvm) elf pgdir where "readi_elf K ip = Some elf" "e_magic elf = ELF_MAGIC" "setupkvm K = Some pgdir"
      using assms ip by (auto simp: exec_def Let_def split: option.splits if_splits)
    then show ?thesis
    proof cases
      case hdr
      then show ?thesis by (auto simp: bad_def)
    next
      case kvm
      obtain l log2 where l: "load_segments K pgdir ip (e_phnum elf) (e_phoff elf) 0 (?log1 @ [SetupKvm pgdir]) = (l, log2)"
        by fastforce
      have res2: "resources log2 = resources log @ [BeginOp, ILock ip, SetupKvm pgdir]"
        using load_segments_log[OF l] by simp
      show ?thesis
      proof (cases l)
        case None
        then have "r = -1 \<and> p' = p \<and> log' = bad (Some pgdir) (Some ip) log2"
          using assms ip kvm l by (simp add: exec_def)
        then show ?thesis using res2 by (auto simp: bad_def)
      next
        case (Some sz)
        then have f: "finish_image K path argv elf pgdir sz p (log2 @ [IUnlockPut ip, EndOp]) = (r, p', log')"
          using assms ip kvm l by (simp add: exec_def)
        let ?es = "resources log @ [BeginOp, ILock ip, SetupKvm pgdir, IUnlockPut ip, EndOp]"
        have "(r = -1 \<and> p' = p \<and> resources log' = ?es @ [FreeVm pgdir]) \<or>
          (r = 0 \<and> kp_pgdir p' = pgdir \<and> resources log' = ?es @ [FreeVm (kp_pgdir p)])"
          using f res2 by (auto simp: finish_image_def Let_def bad_def split: if_splits prod.splits option.splits
              dest!: push_args_log)
        then show ?thesis by auto
      qed
    qed
  qed
qed

theorem exec_balances_resources_witness:
  "\<exists>p' log'. exec sample_kernel ''/bin/cat'' [''cat''] sample_proc [] = (-1, p', log') \<and>
    ((-1 :: int) = -1 \<and> p' = sample_proc \<and>
      (\<exists>ip pd. resources log' \<in> (\<lambda>es. resources [] @ es) `
        {[BeginOp, EndOp],
         [BeginOp, ILock ip, IUnlockPut ip, EndOp],
         [BeginOp, ILock ip, SetupKvm pd, FreeVm pd, IUnlockPut ip, EndOp],
         [BeginOp, ILock ip, SetupKvm pd, IUnlockPut ip, EndOp, FreeVm pd]}))"
proof -
  have e: "exec sample_kernel ''/bin/cat'' [''cat''] sample_proc [] = (-1, sample_proc, [BeginOp, EndOp])"
    by (simp add: exec_def sample_kernel_def)
  from exec_balances_resources[OF e] e show ?thesis by auto
qed



end
