(* ===== verification/Libco.thy ===== *)
theory Libco
  imports Prelude
begin

text \<open>
  \<open>libco/co-first.c\<close>: the coroutine library. The memory maps addresses to \<open>struct co\<close>; \<open>live\<close>
  is the set of allocated addresses. \<open>co_list\<close> and \<open>rand_pool\<close> are the two static nodes at the
  heads of the list of coroutines (linked by \<open>next\<close>) and of the pool of candidates (linked by
  \<open>brother\<close>). \<open>rand()\<close> is an argument.

  \<open>setjmp\<close>, \<open>longjmp\<close> and \<open>stack_switch_call\<close> leave the function: the operations return where
  control goes (\<open>transfer\<close>), and what \<open>co_wait\<close> does when the coroutine's function has returned
  is an operation of its own. The stack contents and the debugging output are left out. \<open>None\<close>
  stands for a loop that never ends. \<open>co_delete\<close> is only called on coroutines made by
  \<open>co_start\<close>, which have a name.
\<close>

section \<open>Definitions\<close>

datatype co_status = CO_ZERO | CO_NEW | CO_RUNNING | CO_WAITING | CO_DEAD

record co =
  co_name :: "string option"
  co_status :: co_status
  co_next :: "nat option"
  co_brother :: "nat option"

type_synonym co_mem = "nat \<Rightarrow> co"

record libco =
  mem :: co_mem
  live :: "nat set"
  current :: "nat option"

definition co_list_head :: nat where
  "co_list_head = 0"

definition rand_pool_head :: nat where
  "rand_pool_head = 1"

definition list_append :: "nat \<Rightarrow> nat \<Rightarrow> co_mem \<Rightarrow> co_mem option" where
  "list_append head new_co m =
     map_option (\<lambda>temp. m(temp := (m temp)\<lparr>co_next := Some new_co\<rparr>)) (chase (\<lambda>a. co_next (m a)) head)"

definition rand_pool_append :: "nat \<Rightarrow> nat \<Rightarrow> co_mem \<Rightarrow> co_mem option" where
  "rand_pool_append head new_co m =
     map_option (\<lambda>temp. m(temp := (m temp)\<lparr>co_brother := Some new_co\<rparr>)) (chase (\<lambda>a. co_brother (m a)) head)"

partial_function (option) delete_loop :: "string option \<Rightarrow> nat \<Rightarrow> nat option \<Rightarrow> co_mem \<Rightarrow> co_mem option" where
  "delete_loop name before_temp temp m =
     (case temp of
        None \<Rightarrow> Some m
      | Some t \<Rightarrow>
          if co_name (m t) = name
          then Some (m(before_temp := (m before_temp)\<lparr>co_next := co_next (m t)\<rparr>))
          else delete_loop name t (co_next (m t)) m)"

definition co_delete :: "nat \<Rightarrow> co_mem \<Rightarrow> co_mem option" where
  "co_delete node m = delete_loop (co_name (m node)) co_list_head (co_next (m co_list_head)) m"

text \<open>The pieces of \<open>rand_choose\<close>: collecting the candidates, stepping through the pool, and
  taking the pool apart.\<close>

definition eligible :: "co \<Rightarrow> bool" where
  "eligible c \<longleftrightarrow> co_status c = CO_NEW \<or> co_status c = CO_WAITING"

partial_function (option) fill_pool :: "nat option \<Rightarrow> nat \<Rightarrow> co_mem \<Rightarrow> (co_mem \<times> nat) option" where
  "fill_pool temp count m =
     (case temp of
        None \<Rightarrow> Some (m, count)
      | Some t \<Rightarrow>
          if eligible (m t)
          then Option.bind (rand_pool_append rand_pool_head t m) (\<lambda>m'. fill_pool (co_next (m' t)) (count + 1) m')
          else fill_pool (co_next (m t)) count m)"

fun nth_brother :: "co_mem \<Rightarrow> nat \<Rightarrow> nat option \<Rightarrow> nat option res" where
  "nth_brother m 0 p = Inr p"
| "nth_brother m (Suc i) p = (case p of None \<Rightarrow> Inl NullDeref | Some a \<Rightarrow> nth_brother m i (co_brother (m a)))"

partial_function (option) clear_pool :: "nat \<Rightarrow> co_mem \<Rightarrow> co_mem option" where
  "clear_pool temp m =
     (case co_brother (m temp) of
        None \<Rightarrow> Some m
      | Some t \<Rightarrow> clear_pool t (m(temp := (m temp)\<lparr>co_brother := None\<rparr>)))"

definition name_of :: "co_mem \<Rightarrow> nat option \<Rightarrow> string res" where
  "name_of m p = (case p of None \<Rightarrow> Inl NullDeref | Some a \<Rightarrow> (case co_name (m a) of None \<Rightarrow> Inl NullDeref | Some s \<Rightarrow> Inr s))"

definition choose_again :: "nat \<Rightarrow> nat \<Rightarrow> nat" where
  "choose_again count index = (if count = 2 then count + 1 - index else (index + 1) mod count + 1)"

definition pick :: "co_mem \<Rightarrow> nat \<Rightarrow> nat option \<Rightarrow> nat \<Rightarrow> nat option res" where
  "pick m count cur r =
     (let index = (if count \<noteq> 0 then r mod count + 1 else 0) in
      rbind (nth_brother m index (Some rand_pool_head)) (\<lambda>p.
      rbind (name_of m p) (\<lambda>a. rbind (name_of m cur) (\<lambda>b.
        if a = b then nth_brother m (choose_again count index) (Some rand_pool_head) else Inr p))))"

definition rand_choose :: "nat option \<Rightarrow> nat \<Rightarrow> co_mem \<Rightarrow> (nat \<times> co_mem) res option" where
  "rand_choose cur r m =
     Option.bind (fill_pool (Some co_list_head) 0 m) (\<lambda>(m1, count).
       case pick m1 count cur r of
         Inl e \<Rightarrow> Some (Inl e)
       | Inr None \<Rightarrow> Some (Inl AssertFailed)
       | Inr (Some c) \<Rightarrow>
           (case co_brother (m1 rand_pool_head) of
              None \<Rightarrow> Some (Inl NullDeref)
            | Some t \<Rightarrow>
                map_option (\<lambda>m2. Inr (c, m2))
                  (clear_pool t (m1(rand_pool_head := (m1 rand_pool_head)\<lparr>co_brother := None\<rparr>)))))"

text \<open>The operations of the library. The address of a new \<open>struct co\<close> is an argument.\<close>

datatype transfer = Return | CallFunc nat | SwitchStack nat | LongJmp nat | Yielded nat

definition set_status :: "nat \<Rightarrow> co_status \<Rightarrow> libco \<Rightarrow> libco" where
  "set_status a st s = s\<lparr>mem := (mem s)(a := (mem s a)\<lparr>co_status := st\<rparr>)\<rparr>"

definition co_start :: "string \<Rightarrow> bool \<Rightarrow> nat \<Rightarrow> libco \<Rightarrow> libco res option" where
  "co_start name args_ok new_co s =
     (if \<not> args_ok then Some (Inl AssertFailed)
      else if 32 \<le> length name then Some (Inl OutOfBounds)
      else map_option (\<lambda>m. Inr (s\<lparr>mem := m, live := insert new_co (live s)\<rparr>))
        (list_append co_list_head new_co ((mem s)(new_co :=
           \<lparr>co_name = Some name, co_status = CO_NEW, co_next = None, co_brother = None\<rparr>))))"

definition co_yield :: "nat \<Rightarrow> libco \<Rightarrow> (transfer \<times> libco) res option" where
  "co_yield r s =
     (case current s of
        None \<Rightarrow> Some (Inl AssertFailed)
      | Some c \<Rightarrow>
          if c \<notin> live s then Some (Inl DanglingPtr)
          else let s1 = set_status c CO_WAITING s in
            map_option (\<lambda>x. rbind x (\<lambda>(b, m).
                let s2 = s1\<lparr>mem := m, current := Some b\<rparr> in
                if co_status (m b) = CO_NEW then Inr (SwitchStack b, s2)
                else if co_status (m b) = CO_WAITING then Inr (LongJmp b, set_status b CO_RUNNING s2)
                else Inl AssertFailed))
              (rand_choose (Some c) r (mem s1)))"

partial_function (option) callback_loop :: "(nat \<Rightarrow> nat) \<Rightarrow> nat \<Rightarrow> nat \<Rightarrow> co_mem \<Rightarrow> (nat \<times> co_mem) res option" where
  "callback_loop rs k c m =
     (case rand_choose (Some c) (rs k) m of
        None \<Rightarrow> None
      | Some (Inl e) \<Rightarrow> Some (Inl e)
      | Some (Inr bm) \<Rightarrow>
          if co_status (snd bm (fst bm)) = CO_NEW \<or> co_name (snd bm (fst bm)) = co_name (snd bm c)
          then callback_loop rs (k + 1) c (snd bm)
          else Some (Inr bm))"

definition callback :: "(nat \<Rightarrow> nat) \<Rightarrow> libco \<Rightarrow> (transfer \<times> libco) res option" where
  "callback rs s =
     (case current s of
        None \<Rightarrow> Some (Inl NullDeref)
      | Some c \<Rightarrow>
          let s1 = set_status c CO_DEAD s in
          Option.bind (co_delete c (mem s1)) (\<lambda>m1.
          map_option (\<lambda>x. rbind x (\<lambda>(b, m).
              if co_status (m b) = CO_WAITING
              then Inr (LongJmp b, set_status b CO_RUNNING (s1\<lparr>mem := m, current := Some b\<rparr>))
              else Inl AssertFailed))
            (callback_loop rs 0 c m1)))"

definition co_free :: "nat \<Rightarrow> libco \<Rightarrow> libco" where
  "co_free a s = s\<lparr>live := live s - {a}\<rparr>"

definition co_wait :: "nat \<Rightarrow> libco \<Rightarrow> (transfer \<times> libco) res" where
  "co_wait co s =
     (if co \<notin> live s then Inl DanglingPtr
      else if co_status (mem s co) = CO_DEAD then Inr (Return, co_free co (s\<lparr>current := Some co\<rparr>))
      else case current s of
        None \<Rightarrow>
          if co_status (mem s co) = CO_NEW
          then Inr (CallFunc co, set_status co CO_RUNNING (s\<lparr>current := Some co\<rparr>))
          else if co_status (mem s co) = CO_WAITING then Inr (Yielded co, s\<lparr>current := Some co\<rparr>)
          else Inr (Return, s)
      | Some c \<Rightarrow>
          if c \<notin> live s then Inl DanglingPtr
          else Inr (CallFunc co, set_status co CO_RUNNING (set_status c CO_WAITING (s\<lparr>current := Some co\<rparr>))))"

text \<open>When the function of the coroutine has returned to \<open>co_wait\<close>; \<open>old\<close> is the coroutine that
  waits, \<open>None\<close> for the main program.\<close>

definition co_wait_returned :: "nat option \<Rightarrow> nat \<Rightarrow> libco \<Rightarrow> libco res option" where
  "co_wait_returned old co s =
     (case current s of
        None \<Rightarrow> Some (Inl NullDeref)
      | Some c \<Rightarrow>
          let s1 = (set_status c CO_DEAD s)\<lparr>current := old\<rparr>;
              s2 = (case old of None \<Rightarrow> s1 | Some a \<Rightarrow> set_status a CO_RUNNING s1);
              s3 = set_status co CO_DEAD s2
          in map_option (\<lambda>m. Inr (co_free co (s3\<lparr>mem := m\<rparr>))) (co_delete co (mem s3)))"

text \<open>When \<open>co_yield\<close> has returned to the branch of \<open>co_wait\<close> for a waiting coroutine.\<close>

definition co_wait_yielded :: "nat \<Rightarrow> libco \<Rightarrow> libco option" where
  "co_wait_yielded co s = map_option (\<lambda>m. co_free co (s\<lparr>mem := m, current := None\<rparr>)) (co_delete co (mem s))"

section \<open>Lists and the pool\<close>

text \<open>The coroutines on the list, in order.\<close>

definition co_ok :: "co_mem \<Rightarrow> nat list \<Rightarrow> bool" where
  "co_ok m xs \<longleftrightarrow> chain (\<lambda>a. co_next (m a)) (Some co_list_head) (co_list_head # xs) \<and>
     rand_pool_head \<notin> set xs \<and> (\<forall>x \<in> set xs. co_name (m x) \<noteq> None) \<and> co_status (m co_list_head) = CO_ZERO \<and>
     (\<forall>a \<in> insert rand_pool_head (set xs). co_brother (m a) = None)"

lemma list_append_chain:
  assumes "chain (\<lambda>a. co_next (m a)) (Some h) (ys @ [z])" and "co_next (m n) = None" and "n \<notin> set (ys @ [z])"
  shows "list_append h n m = Some (m(z := (m z)\<lparr>co_next := Some n\<rparr>)) \<and>
    chain (\<lambda>a. co_next ((m(z := (m z)\<lparr>co_next := Some n\<rparr>)) a)) (Some h) (ys @ [z, n])"
proof -
  have "(\<lambda>a. co_next ((m(z := (m z)\<lparr>co_next := Some n\<rparr>)) a)) = (\<lambda>a. co_next (m a))(z := Some n)" by auto
  with chain_link[OF assms] chase_chain[OF assms(1)] show ?thesis by (simp add: list_append_def)
qed

lemma pool_append_chain:
  assumes "chain (\<lambda>a. co_brother (m a)) (Some h) (ys @ [z])" and "co_brother (m n) = None" and "n \<notin> set (ys @ [z])"
  shows "rand_pool_append h n m = Some (m(z := (m z)\<lparr>co_brother := Some n\<rparr>)) \<and>
    chain (\<lambda>a. co_brother ((m(z := (m z)\<lparr>co_brother := Some n\<rparr>)) a)) (Some h) (ys @ [z, n])"
proof -
  have "(\<lambda>a. co_brother ((m(z := (m z)\<lparr>co_brother := Some n\<rparr>)) a)) = (\<lambda>a. co_brother (m a))(z := Some n)" by auto
  with chain_link[OF assms] chase_chain[OF assms(1)] show ?thesis by (simp add: rand_pool_append_def)
qed

lemma delete_loop_absent:
  assumes "chain (\<lambda>a. co_next (m a)) p xs" and "\<forall>x \<in> set xs. co_name (m x) \<noteq> nm"
  shows "delete_loop nm b p m = Some m"
  using assms by (induction xs arbitrary: p b) (auto simp: delete_loop.simps)

lemma delete_loop_first:
  assumes "chain (\<lambda>a. co_next (m a)) (Some b) (b # ys @ d # zs)" and "\<forall>y \<in> set ys. co_name (m y) \<noteq> nm"
    and "co_name (m d) = nm"
  shows "delete_loop nm b (co_next (m b)) m =
    Some (m(last (b # ys) := (m (last (b # ys)))\<lparr>co_next := co_next (m d)\<rparr>))"
  using assms
proof (induction ys arbitrary: b)
  case Nil
  then show ?case by (subst delete_loop.simps) simp
next
  case (Cons y ys)
  then have "co_next (m b) = Some y" by simp
  with Cons show ?case by (subst delete_loop.simps) auto
qed

lemma unlink_chain:
  assumes "chain (\<lambda>a. co_next (m a)) (Some b) (b # ys @ d # zs)"
  shows "chain (\<lambda>a. co_next ((m(last (b # ys) := (m (last (b # ys)))\<lparr>co_next := co_next (m d)\<rparr>)) a)) (Some b) (b # ys @ zs)"
proof -
  let ?z = "last (b # ys)"
  have "b # ys = butlast (b # ys) @ [?z]" by simp
  then have "b # ys @ d # zs = butlast (b # ys) @ [?z, d] @ zs" "b # ys @ zs = butlast (b # ys) @ [?z] @ zs"
    by (metis append.assoc append_Cons append_Nil)+
  moreover have "(\<lambda>a. co_next ((m(?z := (m ?z)\<lparr>co_next := co_next (m d)\<rparr>)) a)) = (\<lambda>a. co_next (m a))(?z := co_next (m d))"
    by auto
  ultimately show ?thesis using chain_unlink[of "\<lambda>a. co_next (m a)" "Some b" "butlast (b # ys)" ?z d zs] assms
    by (simp only:)
qed

text \<open>
  \<open>pooled m0 es m\<close>: \<open>m\<close> is \<open>m0\<close> with the pool holding \<open>es\<close> in order.
\<close>

definition pooled :: "co_mem \<Rightarrow> nat list \<Rightarrow> co_mem \<Rightarrow> bool" where
  "pooled m0 es m \<longleftrightarrow> chain (\<lambda>a. co_brother (m a)) (Some rand_pool_head) (rand_pool_head # es) \<and>
     (\<forall>a. (m a)\<lparr>co_brother := co_brother (m0 a)\<rparr> = m0 a) \<and>
     (\<forall>a. a \<notin> insert rand_pool_head (set es) \<longrightarrow> m a = m0 a)"

lemma pooled_fields:
  assumes "pooled m0 es m"
  shows "co_next (m a) = co_next (m0 a)" "co_status (m a) = co_status (m0 a)" "co_name (m a) = co_name (m0 a)"
proof -
  have "m0 a = (m a)\<lparr>co_brother := co_brother (m0 a)\<rparr>" using assms by (simp add: pooled_def)
  then show "co_next (m a) = co_next (m0 a)" "co_status (m a) = co_status (m0 a)" "co_name (m a) = co_name (m0 a)"
    by (metis co.select_convs co.surjective co.update_convs(4))+
qed

lemma pooled_append:
  assumes p: "pooled m0 es m" and n: "n \<notin> insert rand_pool_head (set es)" and b: "co_brother (m0 n) = None"
  shows "\<exists>m'. rand_pool_append rand_pool_head n m = Some m' \<and> pooled m0 (es @ [n]) m'"
proof -
  obtain ys z where sp: "rand_pool_head # es = ys @ [z]" by (metis rev_exhaust list.distinct(1))
  have ch: "chain (\<lambda>a. co_brother (m a)) (Some rand_pool_head) (ys @ [z])" using p unfolding pooled_def sp by blast
  have keep: "\<And>a. (m a)\<lparr>co_brother := co_brother (m0 a)\<rparr> = m0 a" "\<And>a. a \<notin> set (ys @ [z]) \<Longrightarrow> m a = m0 a"
    using p unfolding pooled_def sp[symmetric] by auto
  have n': "n \<notin> set (ys @ [z])" using n unfolding sp[symmetric] by simp
  with keep(2) b have "co_brother (m n) = None" by simp
  from pool_append_chain[OF ch this n'] have r: "rand_pool_append rand_pool_head n m = Some (m(z := (m z)\<lparr>co_brother := Some n\<rparr>))"
    "chain (\<lambda>a. co_brother ((m(z := (m z)\<lparr>co_brother := Some n\<rparr>)) a)) (Some rand_pool_head) (ys @ [z, n])" by blast+
  have sp': "rand_pool_head # (es @ [n]) = ys @ [z, n]" using sp by (metis append.assoc append_Cons append_Nil)
  have "(m(z := (m z)\<lparr>co_brother := Some n\<rparr>)) a = m0 a" if "a \<notin> set (ys @ [z, n])" for a
    using that keep(2)[of a] by simp
  moreover have "((m(z := (m z)\<lparr>co_brother := Some n\<rparr>)) a)\<lparr>co_brother := co_brother (m0 a)\<rparr> = m0 a" for a
    using keep(1)[of a] by auto
  moreover have "insert rand_pool_head (set (es @ [n])) = set (ys @ [z, n])" unfolding sp'[symmetric] by simp
  ultimately have "pooled m0 (es @ [n]) (m(z := (m z)\<lparr>co_brother := Some n\<rparr>))"
    unfolding pooled_def sp' using r(2) by blast
  with r(1) show ?thesis by blast
qed

lemma fill_pool_ok:
  assumes "pooled m0 es m" and "chain (\<lambda>a. co_next (m0 a)) t xs" and "rand_pool_head \<notin> set xs"
    and "set xs \<inter> set es = {}" and "\<forall>x \<in> set xs. co_brother (m0 x) = None \<or> \<not> eligible (m0 x)"
  shows "\<exists>m'. fill_pool t k m = Some (m', k + length (filter (\<lambda>x. eligible (m0 x)) xs)) \<and>
    pooled m0 (es @ filter (\<lambda>x. eligible (m0 x)) xs) m'"
  using assms
proof (induction xs arbitrary: t es m k)
  case Nil
  then show ?case by (simp add: fill_pool.simps)
next
  case (Cons x xs)
  have t: "t = Some x" and rest: "chain (\<lambda>a. co_next (m0 a)) (co_next (m0 x)) xs" using Cons.prems(2) by auto
  have x: "x \<notin> set xs" using chain_distinct[OF Cons.prems(2)] by simp
  have el: "eligible (m x) \<longleftrightarrow> eligible (m0 x)" using pooled_fields(2)[OF Cons.prems(1)] by (simp add: eligible_def)
  show ?case
  proof (cases "eligible (m0 x)")
    case True
    have "x \<notin> insert rand_pool_head (set es)" "co_brother (m0 x) = None" using Cons.prems(3-5) True by auto
    from pooled_append[OF Cons.prems(1) this] obtain m1 where
      m1: "rand_pool_append rand_pool_head x m = Some m1" "pooled m0 (es @ [x]) m1" by blast
    from Cons.IH[OF m1(2) rest, of "k + 1"] Cons.prems(3-5) x obtain m' where
      "fill_pool (co_next (m0 x)) (k + 1) m1 = Some (m', k + 1 + length (filter (\<lambda>x. eligible (m0 x)) xs))"
      "pooled m0 ((es @ [x]) @ filter (\<lambda>x. eligible (m0 x)) xs) m'" by auto
    with True el m1 pooled_fields(1)[OF m1(2)] show ?thesis by (subst fill_pool.simps) (simp add: t)
  next
    case False
    with Cons.IH[OF Cons.prems(1) rest] Cons.prems(3-5) el pooled_fields(1)[OF Cons.prems(1)] show ?thesis
      by (subst fill_pool.simps) (simp add: t)
  qed
qed

lemma nth_brother_chain:
  assumes "chain (\<lambda>a. co_brother (m a)) p xs" and "i < length xs"
  shows "nth_brother m i p = Inr (Some (xs ! i))"
  using assms by (induction i arbitrary: p xs) (case_tac xs; auto)+

lemma clear_pool_ok:
  assumes "chain (\<lambda>a. co_brother (m a)) (Some t) xs"
  shows "clear_pool t m = Some (\<lambda>a. if a \<in> set xs then (m a)\<lparr>co_brother := None\<rparr> else m a)"
  using assms
proof (induction xs arbitrary: t m)
  case (Cons x xs)
  then have x: "x = t" and rest: "chain (\<lambda>a. co_brother (m a)) (co_brother (m t)) xs" by auto
  have t: "t \<notin> set xs" using chain_distinct[OF Cons.prems] x by simp
  show ?case
  proof (cases "co_brother (m t)")
    case None
    with rest have "xs = []" by simp
    moreover have "m = (\<lambda>a. if a = t then (m a)\<lparr>co_brother := None\<rparr> else m a)" using None by auto
    ultimately show ?thesis using None x by (subst clear_pool.simps) simp
  next
    case (Some u)
    let ?m = "m(t := (m t)\<lparr>co_brother := None\<rparr>)"
    have "(\<lambda>a. co_brother (?m a)) = (\<lambda>a. co_brother (m a))(t := None)" by auto
    with rest t Some have "chain (\<lambda>a. co_brother (?m a)) (Some u) xs" by simp
    from Cons.IH[OF this] have "clear_pool t m = Some (\<lambda>a. if a \<in> set xs then (?m a)\<lparr>co_brother := None\<rparr> else ?m a)"
      by (subst clear_pool.simps) (simp only: Some option.case)
    also have "(\<lambda>a. if a \<in> set xs then (?m a)\<lparr>co_brother := None\<rparr> else ?m a) =
        (\<lambda>a. if a \<in> set (x # xs) then (m a)\<lparr>co_brother := None\<rparr> else m a)" using x by auto
    finally show ?thesis .
  qed
qed simp

lemma pick_ok:
  assumes p: "pooled m0 es m1" and es: "es \<noteq> []" and names: "\<forall>x \<in> set es. co_name (m0 x) \<noteq> None"
    and cur: "co_name (m0 c) = Some nm"
  shows "\<exists>j < length es. pick m1 (length es) (Some c) r = Inr (Some (es ! j)) \<and>
    (2 \<le> length es \<and> distinct (map (\<lambda>x. co_name (m0 x)) es) \<longrightarrow> co_name (m0 (es ! j)) \<noteq> Some nm)"
proof -
  let ?n = "length es" and ?i = "r mod length es"
  have n: "0 < ?n" using es by simp
  have i: "?i < ?n" using n by simp
  have nb: "nth_brother m1 (Suc j) (Some rand_pool_head) = Inr (Some (es ! j))" if "j < ?n" for j
    using p nth_brother_chain[of m1 "Some rand_pool_head" "rand_pool_head # es" "Suc j"] that by (simp add: pooled_def)
  obtain a where a: "co_name (m0 (es ! ?i)) = Some a" using names i by fastforce
  have nm1: "name_of m1 (Some (es ! ?i)) = Inr a" "name_of m1 (Some c) = Inr nm"
    using a cur pooled_fields(3)[OF p] by (simp_all add: name_of_def)
  have pk: "pick m1 ?n (Some c) r =
      (if a = nm then nth_brother m1 (choose_again ?n (Suc ?i)) (Some rand_pool_head) else Inr (Some (es ! ?i)))"
    using n nb[OF i] nm1 by (simp add: pick_def Let_def)
  define j where "j = (if ?n = 2 then 1 - ?i else (?i + 2) mod ?n)"
  have j: "j < ?n" "choose_again ?n (Suc ?i) = Suc j"
    using i n by (auto simp: j_def choose_again_def)
  have ij: "j \<noteq> ?i" if "2 \<le> ?n"
  proof (cases "?n = 2")
    case True
    then have "?i = 0 \<or> ?i = 1" using i by auto
    with True show ?thesis by (auto simp: j_def)
  next
    case False
    then have "3 \<le> ?n" using that by simp
    have e: "j = (?i + 2) mod ?n" using False by (simp add: j_def)
    show ?thesis
    proof (cases "?i + 2 < ?n")
      case True
      then have "j = ?i + 2" using e by simp
      then show ?thesis by simp
    next
      case F: False
      then have "(?i + 2) mod ?n = ?i + 2 - ?n" using i \<open>3 \<le> ?n\<close> by (subst mod_if) simp
      then show ?thesis using e \<open>3 \<le> ?n\<close> F by linarith
    qed
  qed
  show ?thesis
  proof (cases "a = nm")
    case True
    have "co_name (m0 (es ! j)) \<noteq> Some nm" if "2 \<le> ?n" "distinct (map (\<lambda>x. co_name (m0 x)) es)"
      using ij[OF that(1)] that(2) j(1) i a True by (metis distinct_conv_nth length_map nth_map)
    with True pk nb[OF j(1)] j show ?thesis by auto
  next
    case False
    with pk i a show ?thesis by auto
  qed
qed

lemma pooled_clear:
  assumes p: "pooled m0 es m1" and es: "es \<noteq> []" and b: "\<forall>a \<in> insert rand_pool_head (set es). co_brother (m0 a) = None"
  shows "\<exists>t. co_brother (m1 rand_pool_head) = Some t \<and>
    clear_pool t (m1(rand_pool_head := (m1 rand_pool_head)\<lparr>co_brother := None\<rparr>)) = Some m0"
proof -
  have ch: "chain (\<lambda>a. co_brother (m1 a)) (co_brother (m1 rand_pool_head)) es"
    and keep: "\<And>a. (m1 a)\<lparr>co_brother := co_brother (m0 a)\<rparr> = m0 a"
      "\<And>a. a \<notin> insert rand_pool_head (set es) \<Longrightarrow> m1 a = m0 a"
    and h: "rand_pool_head \<notin> set es"
    using p chain_distinct[of "\<lambda>a. co_brother (m1 a)" "Some rand_pool_head" "rand_pool_head # es"] by (auto simp: pooled_def)
  from ch es obtain t where t: "co_brother (m1 rand_pool_head) = Some t" by (cases "co_brother (m1 rand_pool_head)") auto
  let ?m = "m1(rand_pool_head := (m1 rand_pool_head)\<lparr>co_brother := None\<rparr>)"
  have "(\<lambda>a. co_brother (?m a)) = (\<lambda>a. co_brother (m1 a))(rand_pool_head := None)" by auto
  with ch h t have "chain (\<lambda>a. co_brother (?m a)) (Some t) es" by simp
  from clear_pool_ok[OF this] have c: "clear_pool t ?m = Some (\<lambda>a. if a \<in> set es then (?m a)\<lparr>co_brother := None\<rparr> else ?m a)" .
  have "(if a \<in> set es then (?m a)\<lparr>co_brother := None\<rparr> else ?m a) = m0 a" for a
  proof (cases "a \<in> insert rand_pool_head (set es)")
    case True
    have "co_brother (m0 a) = None" by (rule bspec[OF b True])
    then have "(m1 a)\<lparr>co_brother := None\<rparr> = m0 a" using keep(1)[of a] by simp
    then show ?thesis using True h by auto
  next
    case False
    then show ?thesis using keep(2)[of a] by simp
  qed
  with t c show ?thesis by simp
qed

lemma rand_choose_ok:
  assumes ok: "co_ok m xs" and es: "es = filter (\<lambda>x. eligible (m x)) xs" "es \<noteq> []"
    and cur: "co_name (m c) = Some nm"
  shows "\<exists>b \<in> set es. rand_choose (Some c) r m = Some (Inr (b, m)) \<and>
    (2 \<le> length es \<and> distinct (map (\<lambda>x. co_name (m x)) es) \<longrightarrow> co_name (m b) \<noteq> Some nm)"
proof -
  have ch: "chain (\<lambda>a. co_next (m a)) (Some co_list_head) (co_list_head # xs)" and pool: "rand_pool_head \<notin> set (co_list_head # xs)"
    and names: "\<forall>x \<in> set es. co_name (m x) \<noteq> None" and z: "\<not> eligible (m co_list_head)"
    and br: "\<forall>a \<in> insert rand_pool_head (set xs). co_brother (m a) = None"
    using ok es(1) by (auto simp: co_ok_def eligible_def co_list_head_def rand_pool_head_def)
  have start: "pooled m [] m" using br by (simp add: pooled_def)
  have "\<forall>x \<in> set (co_list_head # xs). co_brother (m x) = None \<or> \<not> eligible (m x)" using br z by simp
  from fill_pool_ok[OF start ch pool _ this, of 0] z es obtain m1 where
    m1: "fill_pool (Some co_list_head) 0 m = Some (m1, length es)" "pooled m es m1" by auto
  from pick_ok[OF m1(2) es(2) names cur, of r] obtain j where j: "j < length es"
    "pick m1 (length es) (Some c) r = Inr (Some (es ! j))"
    "2 \<le> length es \<and> distinct (map (\<lambda>x. co_name (m x)) es) \<longrightarrow> co_name (m (es ! j)) \<noteq> Some nm" by blast
  have "\<forall>a \<in> insert rand_pool_head (set es). co_brother (m a) = None" using br es(1) by auto
  from pooled_clear[OF m1(2) es(2) this] obtain t where t: "co_brother (m1 rand_pool_head) = Some t"
    "clear_pool t (m1(rand_pool_head := (m1 rand_pool_head)\<lparr>co_brother := None\<rparr>)) = Some m" by blast
  have "rand_choose (Some c) r m = Some (Inr (es ! j, m))"
    using m1(1) j(2) t by (simp add: rand_choose_def)
  with j show ?thesis using nth_mem by blast
qed

section \<open>The invariant of the library\<close>

text \<open>The list holds live coroutines with different names, and the pool is empty.\<close>

definition lib_ok :: "libco \<Rightarrow> nat list \<Rightarrow> bool" where
  "lib_ok s xs \<longleftrightarrow> co_ok (mem s) xs \<and> set xs \<subseteq> live s \<and> distinct (map (\<lambda>x. co_name (mem s x)) xs)"

lemma co_okD:
  assumes "co_ok m xs"
  shows "chain (\<lambda>a. co_next (m a)) (Some co_list_head) (co_list_head # xs)" "rand_pool_head \<notin> set xs"
    "x \<in> set xs \<Longrightarrow> co_name (m x) \<noteq> None" "co_status (m co_list_head) = CO_ZERO" "co_brother (m rand_pool_head) = None"
    "x \<in> set xs \<Longrightarrow> co_brother (m x) = None" "co_list_head \<notin> set xs" "distinct xs"
  using assms chain_distinct[of "\<lambda>a. co_next (m a)" "Some co_list_head" "co_list_head # xs"] by (auto simp: co_ok_def)

text \<open>What matters to the invariant is all but the status, except at the head of the list.\<close>

lemma co_ok_cong:
  assumes "\<And>a. co_next (m' a) = co_next (m a) \<and> co_name (m' a) = co_name (m a) \<and> co_brother (m' a) = co_brother (m a)"
    and "co_status (m' co_list_head) = co_status (m co_list_head)"
  shows "co_ok m' xs = co_ok m xs"
proof -
  have "(\<lambda>a. co_next (m' a)) = (\<lambda>a. co_next (m a))" "(\<lambda>a. co_brother (m' a)) = (\<lambda>a. co_brother (m a))" using assms(1) by auto
  then show ?thesis unfolding co_ok_def using assms by metis
qed

lemma co_ok_status: "a \<noteq> co_list_head \<Longrightarrow> co_ok (m(a := (m a)\<lparr>co_status := st\<rparr>)) xs = co_ok m xs"
  by (rule co_ok_cong) auto

lemma set_status_simps [simp]:
  "live (set_status a st s) = live s" "current (set_status a st s) = current s"
  "co_name (mem (set_status a st s) x) = co_name (mem s x)" "co_next (mem (set_status a st s) x) = co_next (mem s x)"
  "co_status (mem (set_status a st s) x) = (if x = a then st else co_status (mem s x))"
  by (auto simp: set_status_def)

lemma lib_ok_status: "a \<noteq> co_list_head \<Longrightarrow> lib_ok (set_status a st s) xs = lib_ok s xs"
  using co_ok_status[of a "mem s" st xs] unfolding lib_ok_def set_status_simps by (simp add: set_status_def)

lemma lib_ok_current [simp]: "lib_ok (s\<lparr>current := c\<rparr>) xs = lib_ok s xs"
  by (simp add: lib_ok_def)

lemma co_ok_append:
  assumes ok: "co_ok m xs" and n: "n \<notin> insert co_list_head (insert rand_pool_head (set xs))" and fresh: "m n = \<lparr>co_name = Some nm,
      co_status = CO_NEW, co_next = None, co_brother = None\<rparr>"
  shows "\<exists>m'. list_append co_list_head n m = Some m' \<and> co_ok m' (xs @ [n]) \<and> m' n = m n \<and>
    (\<forall>a. co_name (m' a) = co_name (m a) \<and> co_status (m' a) = co_status (m a))"
proof -
  note D = co_okD[OF ok]
  obtain ys z where sp: "co_list_head # xs = ys @ [z]" by (metis rev_exhaust list.distinct(1))
  have ch: "chain (\<lambda>a. co_next (m a)) (Some co_list_head) (ys @ [z])" using D(1) unfolding sp .
  have n': "n \<notin> set (ys @ [z])" using n unfolding sp[symmetric] by simp
  let ?m = "m(z := (m z)\<lparr>co_next := Some n\<rparr>)"
  have r: "list_append co_list_head n m = Some ?m" "chain (\<lambda>a. co_next (?m a)) (Some co_list_head) (ys @ [z, n])"
    using list_append_chain[OF ch _ n'] fresh by simp_all
  have sp': "co_list_head # (xs @ [n]) = ys @ [z, n]" using sp by (metis append.assoc append_Cons append_Nil)
  have flds: "co_name (?m a) = co_name (m a) \<and> co_status (?m a) = co_status (m a) \<and> co_brother (?m a) = co_brother (m a)" for a
    by simp
  have "co_ok ?m (xs @ [n])"
    unfolding co_ok_def sp' using r(2) flds D n fresh by (auto simp del: fun_upd_apply)
  moreover have "?m n = m n" using n' by simp
  ultimately show ?thesis using r(1) flds by blast
qed

lemma co_ok_delete:
  assumes ok: "co_ok m xs" and x: "x \<in> set xs" and d: "distinct (map (\<lambda>x. co_name (m x)) xs)"
  shows "\<exists>m'. co_delete x m = Some m' \<and> co_ok m' (remove1 x xs) \<and>
    (\<forall>a. co_name (m' a) = co_name (m a) \<and> co_status (m' a) = co_status (m a))"
proof -
  note D = co_okD[OF ok]
  from x obtain ys zs where xs: "xs = ys @ x # zs" by (meson split_list)
  have nx: "\<forall>y \<in> set ys. co_name (m y) \<noteq> co_name (m x)" "x \<notin> set ys" using d D(8) unfolding xs by (auto, metis imageI)
  have ch: "chain (\<lambda>a. co_next (m a)) (Some co_list_head) (co_list_head # ys @ x # zs)" using D(1) xs by simp
  define l where "l = last (co_list_head # ys)"
  let ?m = "m(l := (m l)\<lparr>co_next := co_next (m x)\<rparr>)"
  have r: "co_delete x m = Some ?m"
    unfolding co_delete_def l_def by (rule delete_loop_first[OF ch nx(1) refl])
  have c: "chain (\<lambda>a. co_next (?m a)) (Some co_list_head) (co_list_head # ys @ zs)"
    unfolding l_def by (rule unlink_chain[OF ch])
  have flds: "co_name (?m a) = co_name (m a) \<and> co_status (?m a) = co_status (m a) \<and> co_brother (?m a) = co_brother (m a)" for a
    by simp
  have "remove1 x xs = ys @ zs" using nx(2) by (simp add: xs remove1_append)
  moreover have "co_ok ?m (ys @ zs)"
    unfolding co_ok_def using c flds D by (auto simp: xs simp del: fun_upd_apply)
  ultimately show ?thesis using r flds by auto
qed

section \<open>A small library state\<close>

definition sample_lib :: libco where
  "sample_lib = \<lparr>mem = (\<lambda>a.
       if a = 0 then \<lparr>co_name = None, co_status = CO_ZERO, co_next = Some 2, co_brother = None\<rparr>
       else if a = 2 then \<lparr>co_name = Some ''a'', co_status = CO_RUNNING, co_next = Some 3, co_brother = None\<rparr>
       else if a = 3 then \<lparr>co_name = Some ''b'', co_status = CO_NEW, co_next = None, co_brother = None\<rparr>
       else \<lparr>co_name = None, co_status = CO_ZERO, co_next = None, co_brother = None\<rparr>),
     live = {2, 3}, current = Some 2\<rparr>"

lemma sample_lib_ok: "lib_ok sample_lib [2, 3]"
  by (simp add: lib_ok_def co_ok_def sample_lib_def co_list_head_def rand_pool_head_def)

section \<open>Properties\<close>

text \<open>
  \<open>co_start\<close> puts the new coroutine at the end of the list, with status \<open>CO_NEW\<close> and its
  name, and keeps the invariant of the library; a name of 32 characters or more overruns the
  block for the name.
\<close>

lemma co_start_appends:
  assumes "lib_ok s xs" and "new_co \<notin> insert co_list_head (insert rand_pool_head (live s))"
    and "Some name \<notin> (\<lambda>x. co_name (mem s x)) ` set xs"
  shows "if length name < 32
    then \<exists>s'. co_start name True new_co s = Some (Inr s') \<and> lib_ok s' (xs @ [new_co]) \<and>
      co_status (mem s' new_co) = CO_NEW \<and> co_name (mem s' new_co) = Some name \<and> current s' = current s \<and>
      (\<forall>x \<in> set xs. co_status (mem s' x) = co_status (mem s x))
    else co_start name True new_co s = Some (Inl OutOfBounds)"
proof (cases "length name < 32")
  case True
  let ?n = "\<lparr>co_name = Some name, co_status = CO_NEW, co_next = None, co_brother = None\<rparr> :: co"
  let ?m = "(mem s)(new_co := ?n)"
  have ok: "co_ok (mem s) xs" and lv: "set xs \<subseteq> live s" and d: "distinct (map (\<lambda>x. co_name (mem s x)) xs)"
    using assms(1) by (auto simp: lib_ok_def)
  have nx: "new_co \<notin> set xs" using assms(2) lv by auto
  have "chain (\<lambda>a. co_next (?m a)) (Some co_list_head) (co_list_head # xs) \<longleftrightarrow>
      chain (\<lambda>a. co_next (mem s a)) (Some co_list_head) (co_list_head # xs)"
    by (rule chain_cong) (use nx assms(2) in auto)
  then have "co_ok ?m xs" using ok nx assms(2) by (auto simp: co_ok_def)
  from co_ok_append[OF this, of new_co name] nx assms(2) obtain m' where
    m': "list_append co_list_head new_co ?m = Some m'" "co_ok m' (xs @ [new_co])"
      "m' new_co = ?n" "\<forall>a. co_name (m' a) = co_name (?m a) \<and> co_status (m' a) = co_status (?m a)" by auto
  have keep: "co_name (m' x) = co_name (mem s x) \<and> co_status (m' x) = co_status (mem s x)" if "x \<in> set xs" for x
    using m'(4) that nx by auto
  have "distinct (map (\<lambda>x. co_name (m' x)) (xs @ [new_co]))"
    using d assms(3) m'(3) keep by (auto simp: distinct_map inj_on_def)
  with True m' lv keep show ?thesis by (auto simp: co_start_def lib_ok_def)
next
  case False
  then show ?thesis by (simp add: co_start_def)
qed

lemma co_yield_ok:
  assumes "lib_ok s xs" and "current s = Some c" and "c \<in> set xs"
  shows "\<exists>t s' b. co_yield r s = Some (Inr (t, s')) \<and> lib_ok s' xs \<and> current s' = Some b \<and> b \<in> set xs \<and>
    (t = SwitchStack b \<and> co_status (mem s b) = CO_NEW \<or>
     t = LongJmp b \<and> (b = c \<or> co_status (mem s b) = CO_WAITING) \<and> co_status (mem s' b) = CO_RUNNING) \<and>
    ((\<exists>x \<in> set xs. x \<noteq> c \<and> eligible (mem s x)) \<longrightarrow> b \<noteq> c)"
proof -
  let ?s1 = "set_status c CO_WAITING s"
  let ?es = "filter (\<lambda>x. eligible (mem ?s1 x)) xs"
  have ch: "c \<noteq> co_list_head" "c \<in> live s" using assms co_okD(7)[of "mem s" xs] by (auto simp: lib_ok_def)
  have ok1: "lib_ok ?s1 xs" using assms(1) lib_ok_status[OF ch(1)] by simp
  then have co1: "co_ok (mem ?s1) xs" and d: "distinct (map (\<lambda>x. co_name (mem ?s1 x)) xs)" by (auto simp: lib_ok_def)
  have ce: "c \<in> set ?es" using assms(3) by (simp add: eligible_def)
  then have ne: "?es \<noteq> []" by (metis list.set(1) empty_iff)
  obtain nm where nm: "co_name (mem ?s1 c) = Some nm" using co_okD(3)[OF co1 assms(3)] by auto
  from rand_choose_ok[OF co1 refl ne nm, of r] obtain b where b: "b \<in> set ?es"
    "rand_choose (Some c) r (mem ?s1) = Some (Inr (b, mem ?s1))"
    "2 \<le> length ?es \<and> distinct (map (\<lambda>x. co_name (mem ?s1 x)) ?es) \<longrightarrow> co_name (mem ?s1 b) \<noteq> Some nm" by blast
  have bx: "b \<in> set xs" "b \<noteq> co_list_head" using b(1) co_okD(7)[OF co1] by auto
  have other: "b \<noteq> c" if "x \<in> set xs" "x \<noteq> c" "eligible (mem s x)" for x
  proof -
    have "{x, c} \<subseteq> set ?es" using that ce by (simp add: eligible_def)
    then have "card {x, c} \<le> length ?es" by (meson card_length card_mono finite_set le_trans)
    then have "2 \<le> length ?es" using that(2) by simp
    moreover have "distinct (map (\<lambda>x. co_name (mem ?s1 x)) ?es)" using d by (auto simp: distinct_map inj_on_def)
    ultimately show ?thesis using b(3) nm by auto
  qed
  let ?s2 = "?s1\<lparr>mem := mem ?s1, current := Some b\<rparr>"
  have st: "co_status (mem ?s1 b) = CO_NEW \<or> co_status (mem ?s1 b) = CO_WAITING" using b(1) by (simp add: eligible_def)
  have ok2: "lib_ok ?s2 xs" using ok1 by (simp add: lib_ok_def)
  have y: "co_yield r s = Some (if co_status (mem ?s1 b) = CO_NEW then Inr (SwitchStack b, ?s2)
      else Inr (LongJmp b, set_status b CO_RUNNING ?s2))"
    using assms(2) ch(2) b(2) st by (auto simp: co_yield_def Let_def)
  show ?thesis
  proof (cases "co_status (mem ?s1 b) = CO_NEW")
    case True
    then have "co_status (mem s b) = CO_NEW" by (auto split: if_splits)
    with True y ok2 bx other show ?thesis by (intro exI[of _ "SwitchStack b"] exI[of _ ?s2] exI[of _ b]) auto
  next
    case False
    then have "b = c \<or> co_status (mem s b) = CO_WAITING" using st by (auto split: if_splits)
    moreover have "lib_ok (set_status b CO_RUNNING ?s2) xs" using ok2 lib_ok_status[OF bx(2)] by simp
    ultimately show ?thesis using False y bx other
      by (intro exI[of _ "LongJmp b"] exI[of _ "set_status b CO_RUNNING ?s2"] exI[of _ b]) auto
  qed
qed



text \<open>
  When the function of a coroutine has returned, \<open>co_wait\<close> takes exactly that coroutine off
  the list, frees it, makes the waiting coroutine (or the main program) current again, and keeps
  the invariant: no freed coroutine stays on the list. Names have to be different for this.
\<close>

lemma co_wait_returned_removes:
  assumes "lib_ok s xs" and "co \<in> set xs" and "current s = Some co"
    and "old = None \<or> (\<exists>a. old = Some a \<and> a \<in> set xs \<and> a \<noteq> co)"
  shows "\<exists>s'. co_wait_returned old co s = Some (Inr s') \<and> lib_ok s' (remove1 co xs) \<and> co \<notin> live s' \<and>
    current s' = old \<and> (\<forall>a. old = Some a \<longrightarrow> co_status (mem s' a) = CO_RUNNING)"
proof -
  have ok: "co_ok (mem s) xs" using assms(1) by (simp add: lib_ok_def)
  have h: "a \<in> set xs \<Longrightarrow> a \<noteq> co_list_head" for a using co_okD(7)[OF ok] by auto
  define s1 where "s1 = (set_status co CO_DEAD s)\<lparr>current := old\<rparr>"
  define s2 where "s2 = (case old of None \<Rightarrow> s1 | Some a \<Rightarrow> set_status a CO_RUNNING s1)"
  define s3 where "s3 = set_status co CO_DEAD s2"
  have ok1: "lib_ok s1 xs" using assms(1,2) lib_ok_status[OF h] by (simp add: s1_def)
  have ok2: "lib_ok s2 xs" using assms(4) ok1 lib_ok_status[OF h] by (auto simp: s2_def)
  have ok3: "lib_ok s3 xs" using ok2 assms(2) lib_ok_status[OF h] by (simp add: s3_def)
  have s3: "live s3 = live s" "current s3 = old" "\<forall>a. old = Some a \<longrightarrow> co_status (mem s3 a) = CO_RUNNING"
    using assms(4) by (auto simp: s3_def s2_def s1_def)
  from ok3 have c3: "co_ok (mem s3) xs" "distinct (map (\<lambda>x. co_name (mem s3 x)) xs)" "set xs \<subseteq> live s3"
    by (auto simp: lib_ok_def)
  from co_ok_delete[OF c3(1) assms(2) c3(2)] obtain m where m: "co_delete co (mem s3) = Some m" "co_ok m (remove1 co xs)"
    "\<forall>a. co_name (m a) = co_name (mem s3 a) \<and> co_status (m a) = co_status (mem s3 a)" by blast
  let ?s = "co_free co (s3\<lparr>mem := m\<rparr>)"
  have r: "co_wait_returned old co s = Some (Inr ?s)"
    using assms(3) m(1) unfolding co_wait_returned_def Let_def s3_def s2_def s1_def by (simp add: set_status_def)
  have "set (remove1 co xs) \<subseteq> live s3 - {co}" using c3(3) co_okD(8)[OF ok] by auto
  moreover have "distinct (map (\<lambda>x. co_name (m x)) (remove1 co xs))"
    using c3(2) m(3) co_okD(8)[OF ok] by (auto simp: distinct_map inj_on_def distinct_remove1)
  ultimately have "lib_ok ?s (remove1 co xs)" using m(2) by (simp add: lib_ok_def co_free_def)
  with r s3 m(3) show ?thesis by (intro exI[of _ ?s]) (simp add: co_free_def)
qed

text \<open>
  \<open>co_wait\<close> of a coroutine that is already dead leaves \<open>current\<close> pointing to the block it
  frees: the next \<open>co_yield\<close>, and the next \<open>co_wait\<close> of a coroutine that is not dead, write
  through the dangling pointer.
\<close>

theorem co_wait_dead_dangles:
  assumes "co \<in> live s" and "co_status (mem s co) = CO_DEAD"
  shows "\<exists>s'. co_wait co s = Inr (Return, s') \<and> co_yield r s' = Some (Inl DanglingPtr) \<and>
    (\<forall>b \<in> live s'. co_status (mem s' b) \<noteq> CO_DEAD \<longrightarrow> co_wait b s' = Inl DanglingPtr)"
  using assms by (auto simp: co_wait_def co_yield_def co_free_def)

theorem co_wait_dead_dangles_witness:
  "\<exists>s'. co_wait 3 (set_status 3 CO_DEAD sample_lib) = Inr (Return, s') \<and> co_yield 0 s' = Some (Inl DanglingPtr) \<and>
    (\<forall>b \<in> live s'. co_status (mem s' b) \<noteq> CO_DEAD \<longrightarrow> co_wait b s' = Inl DanglingPtr)"
  by (rule co_wait_dead_dangles) (simp_all add: sample_lib_def)

lemma callback_loop_first:
  assumes "rand_choose (Some c) (rs k) m = Some (Inr (b, m))" and "co_status (m b) \<noteq> CO_NEW" and "co_name (m b) \<noteq> co_name (m c)"
  shows "callback_loop rs k c m = Some (Inr (b, m))"
  using assms by (subst callback_loop.simps) simp

lemma callback_loop_forever:
  assumes choice: "\<And>r. \<exists>b. rand_choose (Some c) r m = Some (Inr (b, m)) \<and> co_status (m b) = CO_NEW"
  shows "callback_loop rs k c m = None"
proof -
  have "callback_loop rs k c m \<noteq> Some y" for y
  proof
    assume a: "callback_loop rs k c m = Some y"
    have "rs' = rs \<and> c' = c \<and> m' = m \<longrightarrow> False" if "callback_loop rs' k' c' m' = Some y'" for rs' k' c' m' y'
    proof (rule callback_loop.raw_induct[where P = "\<lambda>rs' k' c' m' y. rs' = rs \<and> c' = c \<and> m' = m \<longrightarrow> False", OF _ that])
      fix f rs' k' c' m' y'
      assume ih: "\<And>rs' k' c' m' y. f rs' k' c' m' = Some y \<Longrightarrow> rs' = rs \<and> c' = c \<and> m' = m \<longrightarrow> False"
        and st: "(case rand_choose (Some c') (rs' k') m' of
           None \<Rightarrow> None
         | Some (Inl e) \<Rightarrow> Some (Inl e)
         | Some (Inr bm) \<Rightarrow>
             if co_status (snd bm (fst bm)) = CO_NEW \<or> co_name (snd bm (fst bm)) = co_name (snd bm c')
             then f rs' (k' + 1) c' (snd bm) else Some (Inr bm)) = Some y'"
      show "rs' = rs \<and> c' = c \<and> m' = m \<longrightarrow> False"
      proof
        assume e: "rs' = rs \<and> c' = c \<and> m' = m"
        obtain b where "rand_choose (Some c) (rs k') m = Some (Inr (b, m))" "co_status (m b) = CO_NEW" using choice by blast
        with st e have "f rs (k' + 1) c m = Some y'" by simp
        with ih show False by blast
      qed
    qed
    with a show False by blast
  qed
  then show ?thesis by blast
qed

lemma callback_choices:
  assumes "lib_ok s xs" and "c \<in> set xs" and "m0 = mem (set_status c CO_DEAD s)" and "co_delete c m0 = Some m"
    and es: "\<exists>x \<in> set xs. x \<noteq> c \<and> eligible (mem s x)"
  shows "\<exists>b \<in> set xs. b \<noteq> c \<and> rand_choose (Some c) r m = Some (Inr (b, m)) \<and> eligible (mem s b) \<and>
      co_status (m b) = co_status (mem s b) \<and> co_name (m b) \<noteq> co_name (m c) \<and> co_ok m (remove1 c xs)"
proof -
  have ok: "co_ok (mem s) xs" using assms(1) by (simp add: lib_ok_def)
  have h: "c \<noteq> co_list_head" using co_okD(7)[OF ok] assms(2) by auto
  have "lib_ok (set_status c CO_DEAD s) xs" using assms(1) lib_ok_status[OF h] by simp
  then have c0: "co_ok m0 xs" "distinct (map (\<lambda>x. co_name (m0 x)) xs)" by (auto simp: lib_ok_def assms(3))
  from co_ok_delete[OF c0(1) assms(2) c0(2)] assms(4) have ok1: "co_ok m (remove1 c xs)"
    and same: "\<And>a. co_name (m a) = co_name (m0 a) \<and> co_status (m a) = co_status (m0 a)" by auto
  have dx: "distinct xs" by (rule co_okD(8)[OF ok])
  then have rs: "set (remove1 c xs) = set xs - {c}" by simp
  have st: "co_status (m x) = co_status (mem s x)" if "x \<noteq> c" for x using same[of x] that by (simp add: assms(3))
  have nmeq: "co_name (m x) = co_name (mem s x)" for x using same[of x] by (simp add: assms(3))
  obtain x where x: "x \<in> set xs" "x \<noteq> c" "eligible (mem s x)" using es by blast
  let ?es = "filter (\<lambda>x. eligible (m x)) (remove1 c xs)"
  have "x \<in> set ?es" using x rs st[OF x(2)] by (simp add: eligible_def)
  then have ne: "?es \<noteq> []" by (metis list.set(1) empty_iff)
  obtain nm where nm: "co_name (m c) = Some nm" using co_okD(3)[OF ok assms(2)] nmeq by auto
  from rand_choose_ok[OF ok1 refl ne nm, of r] obtain b where b: "b \<in> set ?es" "rand_choose (Some c) r m = Some (Inr (b, m))" by blast
  have bx: "b \<in> set xs" "b \<noteq> c" "eligible (m b)" using b(1) rs by auto
  then have "co_name (m b) \<noteq> co_name (m c)" using c0(2) assms(2) same by (auto simp: distinct_map inj_on_def)
  moreover have "eligible (mem s b)" using bx(3) st[OF bx(2)] by (simp add: eligible_def)
  ultimately show ?thesis using bx st[OF bx(2)] b(2) ok1 by blast
qed



text \<open>Two coroutines of the same name: waiting for the second unlinks the first and frees the
  second, which stays on the list.\<close>

definition twins :: libco where
  "twins = sample_lib\<lparr>mem := (mem sample_lib)(3 := (mem sample_lib 3)\<lparr>co_name := Some ''a'', co_status := CO_RUNNING\<rparr>),
     current := Some 3\<rparr>"

lemma same_name_frees_listed:
  "\<exists>s'. co_wait_returned None 3 twins = Some (Inr s') \<and> co_next (mem s' co_list_head) = Some 3 \<and> 3 \<notin> live s'"
  by (simp add: co_wait_returned_def twins_def sample_lib_def set_status_def co_delete_def co_free_def
      co_list_head_def delete_loop.simps Let_def)

section \<open>Every sequence of calls\<close>

text \<open>
  \<open>listed s\<close> are the coroutines on the list. \<open>co_reach\<close> are the states of the library after any
  sequence of calls and returns: \<open>malloc\<close> gives a block that is not in use, names are different,
  nobody waits for itself or for a coroutine that has ended, a function returns to the \<open>co_wait\<close>
  that called it, and \<open>callback\<close> is entered with another coroutine to go to.
\<close>

definition listed :: "libco \<Rightarrow> nat set" where
  "listed s = {a. \<exists>xs. chain (\<lambda>a. co_next (mem s a)) (Some co_list_head) (co_list_head # xs) \<and> a \<in> set xs}"

definition zero_lib :: libco where
  "zero_lib = \<lparr>mem = (\<lambda>_. \<lparr>co_name = None, co_status = CO_ZERO, co_next = None, co_brother = None\<rparr>),
     live = {}, current = None\<rparr>"

inductive co_reach :: "libco \<Rightarrow> bool" where
  init: "co_reach zero_lib"
| start: "co_reach s \<Longrightarrow> new_co \<notin> insert co_list_head (insert rand_pool_head (live s)) \<Longrightarrow>
    Some name \<notin> (\<lambda>x. co_name (mem s x)) ` listed s \<Longrightarrow> co_start name True new_co s = Some (Inr s') \<Longrightarrow> co_reach s'"
| yield: "co_reach s \<Longrightarrow> co_yield r s = Some (Inr (t, s')) \<Longrightarrow> co_reach s'"
| wait: "co_reach s \<Longrightarrow> co \<in> listed s \<Longrightarrow> current s \<noteq> Some co \<Longrightarrow> co_status (mem s co) \<noteq> CO_DEAD \<Longrightarrow>
    co_wait co s = Inr (t, s') \<Longrightarrow> co_reach s'"
| returned: "co_reach s \<Longrightarrow> current s = Some co \<Longrightarrow> old = None \<or> (\<exists>a \<in> listed s. old = Some a \<and> a \<noteq> co) \<Longrightarrow>
    co_wait_returned old co s = Some (Inr s') \<Longrightarrow> co_reach s'"
| callback: "co_reach s \<Longrightarrow> current s = Some c \<Longrightarrow> x \<in> listed s \<Longrightarrow> x \<noteq> c \<Longrightarrow> eligible (mem s x) \<Longrightarrow>
    callback rs s = Some (Inr (t, s')) \<Longrightarrow> co_reach s'"

definition lib_inv :: "libco \<Rightarrow> nat list \<Rightarrow> bool" where
  "lib_inv s xs \<longleftrightarrow> lib_ok s xs \<and> (\<forall>c. current s = Some c \<longrightarrow> c \<in> set xs)"

lemma listed_eq: "lib_ok s xs \<Longrightarrow> listed s = set xs"
  using chain_functional[of "\<lambda>a. co_next (mem s a)" "co_next (mem s co_list_head)" xs]
  by (auto simp: listed_def lib_ok_def co_ok_def)

lemma co_wait_inv:
  assumes "lib_inv s xs" and "co \<in> set xs" and "co_status (mem s co) \<noteq> CO_DEAD" and "co_wait co s = Inr (t, s')"
  shows "lib_inv s' xs"
proof -
  have h: "a \<in> set xs \<Longrightarrow> a \<noteq> co_list_head" for a
    using assms(1) co_okD(7)[of "mem s" xs] by (auto simp: lib_inv_def lib_ok_def)
  have "lib_ok s xs" and cur: "\<And>c. current s = Some c \<Longrightarrow> c \<in> set xs" using assms(1) by (auto simp: lib_inv_def)
  with assms(2-4) lib_ok_status[OF h] show ?thesis
    by (auto simp: co_wait_def lib_inv_def split: if_splits option.splits)
qed

lemma callback_loop_memory:
  assumes "\<And>r. \<exists>b \<in> B. rand_choose (Some c) r m = Some (Inr (b, m))"
    and "callback_loop rs k c m = Some (Inr (b, m'))"
  shows "b \<in> B \<and> m' = m"
proof -
  have "c' = c \<and> m0 = m \<longrightarrow> (\<forall>b m'. y = Inr (b, m') \<longrightarrow> b \<in> B \<and> m' = m)" if "callback_loop rs' k' c' m0 = Some y" for rs' k' c' m0 y
  proof (rule callback_loop.raw_induct[where P = "\<lambda>rs' k' c' m0 y. c' = c \<and> m0 = m \<longrightarrow> (\<forall>b m'. y = Inr (b, m') \<longrightarrow> b \<in> B \<and> m' = m)", OF _ that],
      intro impI)
    fix f rs' k' c' m0 y
    assume ih: "\<And>rs' k' c' m0 y. f rs' k' c' m0 = Some y \<Longrightarrow> c' = c \<and> m0 = m \<longrightarrow> (\<forall>b m'. y = Inr (b, m') \<longrightarrow> b \<in> B \<and> m' = m)"
      and st: "(case rand_choose (Some c') (rs' k') m0 of
           None \<Rightarrow> None
         | Some (Inl e) \<Rightarrow> Some (Inl e)
         | Some (Inr bm) \<Rightarrow>
             if co_status (snd bm (fst bm)) = CO_NEW \<or> co_name (snd bm (fst bm)) = co_name (snd bm c')
             then f rs' (k' + 1) c' (snd bm) else Some (Inr bm)) = Some y"
      and e: "c' = c \<and> m0 = m"
    obtain b where b: "b \<in> B" "rand_choose (Some c) (rs' k') m = Some (Inr (b, m))" using assms(1) by blast
    show "\<forall>b m'. y = Inr (b, m') \<longrightarrow> b \<in> B \<and> m' = m"
    proof (cases "co_status (m b) = CO_NEW \<or> co_name (m b) = co_name (m c)")
      case True
      with st e b(2) have "f rs' (k' + 1) c m = Some y" by simp
      from ih[OF this] show ?thesis by simp
    next
      case False
      with st e b show ?thesis by auto
    qed
  qed
  with assms(2) show ?thesis by blast
qed

lemma callback_inv:
  assumes "lib_inv s xs" and cur: "current s = Some c" and x: "x \<in> set xs" "x \<noteq> c" "eligible (mem s x)"
    and cb: "callback rs s = Some (Inr (t, s'))"
  shows "lib_inv s' (remove1 c xs)"
proof -
  have ok: "lib_ok s xs" and c: "c \<in> set xs" using assms(1) cur by (auto simp: lib_inv_def)
  have cok: "co_ok (mem s) xs" using ok by (simp add: lib_ok_def)
  have h: "a \<in> set xs \<Longrightarrow> a \<noteq> co_list_head" for a using co_okD(7)[OF cok] by auto
  have rm: "set (remove1 c xs) = set xs - {c}" using co_okD(8)[OF cok] by simp
  let ?s1 = "set_status c CO_DEAD s"
  have ok1: "lib_ok ?s1 xs" using ok c lib_ok_status[OF h] by simp
  then have c1: "co_ok (mem ?s1) xs" "distinct (map (\<lambda>x. co_name (mem ?s1 x)) xs)" by (auto simp: lib_ok_def)
  from co_ok_delete[OF c1(1) c c1(2)] obtain m where m: "co_delete c (mem ?s1) = Some m" "co_ok m (remove1 c xs)"
    "\<forall>a. co_name (m a) = co_name (mem ?s1 a) \<and> co_status (m a) = co_status (mem ?s1 a)" by blast
  have "\<exists>b \<in> set xs - {c}. rand_choose (Some c) r m = Some (Inr (b, m))" for r
    using callback_choices[OF ok c refl m(1), of r] x by blast
  note mem = callback_loop_memory[where B = "set xs - {c}", OF this]
  from cb cur m(1) obtain b m' where l: "callback_loop rs 0 c m = Some (Inr (b, m'))"
    and s': "s' = set_status b CO_RUNNING (?s1\<lparr>mem := m', current := Some b\<rparr>)"
    by (auto simp: callback_def Let_def split: if_splits)
  from mem[OF l] have b: "b \<in> set xs" "b \<noteq> c" "m' = m" by auto
  have "distinct (map (\<lambda>x. co_name (m x)) (remove1 c xs))"
    using c1(2) m(3) co_okD(8)[OF cok] by (auto simp: distinct_map inj_on_def distinct_remove1)
  then have "lib_ok (?s1\<lparr>mem := m, current := Some b\<rparr>) (remove1 c xs)"
    using m(2) ok rm by (auto simp: lib_ok_def)
  then have "lib_ok s' (remove1 c xs)" using lib_ok_status[OF h[OF b(1)]] b(3) by (simp add: s')
  with b rm show ?thesis by (simp add: lib_inv_def s')
qed

lemma co_reach_lib_inv:
  "co_reach s \<Longrightarrow> \<exists>xs. lib_inv s xs"
proof (induction rule: co_reach.induct)
  case init
  have "lib_inv zero_lib []" by (simp add: lib_inv_def lib_ok_def co_ok_def zero_lib_def co_list_head_def rand_pool_head_def)
  then show ?case by blast
next
  case (start s new_co name s')
  then obtain xs where xs: "lib_ok s xs" "\<forall>c. current s = Some c \<longrightarrow> c \<in> set xs" by (auto simp: lib_inv_def)
  from co_start_appends[OF xs(1) start.hyps(2), of name] start.hyps(3,4) xs show ?case
    by (intro exI[of _ "xs @ [new_co]"]) (auto simp: listed_eq lib_inv_def split: if_splits)
next
  case (yield s r t s')
  then obtain xs where xs: "lib_ok s xs" "\<forall>c. current s = Some c \<longrightarrow> c \<in> set xs" by (auto simp: lib_inv_def)
  from yield.hyps(2) obtain c where "current s = Some c" by (auto simp: co_yield_def split: option.splits)
  with co_yield_ok[OF xs(1) this, of r] xs(2) yield.hyps(2) show ?case by (intro exI[of _ xs]) (auto simp: lib_inv_def)
next
  case (wait s co t s')
  then obtain xs where xs: "lib_inv s xs" by blast
  then have "co \<in> set xs" using wait.hyps(2) by (auto simp: listed_eq lib_inv_def)
  from co_wait_inv[OF xs this wait.hyps(4,5)] show ?case by blast
next
  case (returned s co old s')
  then obtain xs where xs: "lib_ok s xs" "\<forall>c. current s = Some c \<longrightarrow> c \<in> set xs" by (auto simp: lib_inv_def)
  have d: "distinct xs" using xs(1) co_okD(8) by (auto simp: lib_ok_def)
  from co_wait_returned_removes[OF xs(1) _ returned.hyps(2), of old] returned.hyps(2-4) xs d show ?case
    by (intro exI[of _ "remove1 co xs"]) (auto simp: listed_eq lib_inv_def)
next
  case (callback s c x rs t s')
  then obtain xs where xs: "lib_inv s xs" by blast
  then have "x \<in> set xs" using callback.hyps(3) by (auto simp: listed_eq lib_inv_def)
  from callback_inv[OF xs callback.hyps(2) this callback.hyps(4-6)] show ?case by blast
qed



end
