(* ===== verification/CoPool.thy ===== *)
theory CoPool
  imports Libco
begin

text \<open>
  \<open>libco/co.c\<close>, the second version of the coroutine library, which keeps its coroutines in the
  array \<open>pool\<close>. \<open>slots\<close> is \<open>pool[0 .. pool_member - 1]\<close>; a deleted coroutine leaves a null
  pointer. Transfers of control and failures are as in \<open>Libco\<close>. In \<open>co_start\<close> the call
  \<open>strcpy()\<close> has no arguments, so the file does not compile as it is; the name that the missing
  arguments would set is an argument of the model, and the stack is left out.
\<close>

section \<open>Definitions\<close>

record pco =
  pc_tag :: bool
  pc_name :: string
  pc_status :: co_status
  pc_waiter :: "nat option"

record pool_lib =
  p_mem :: "nat \<Rightarrow> pco"
  p_live :: "nat set"
  p_current :: nat
  slots :: "nat option list"

fun delete_slot :: "(nat \<Rightarrow> pco) \<Rightarrow> string \<Rightarrow> nat option list \<Rightarrow> nat option list res" where
  "delete_slot m name [] = Inr []"
| "delete_slot m name (None # ps) = Inl NullDeref"
| "delete_slot m name (Some a # ps) =
     (if pc_name (m a) = name then Inr (None # ps)
      else rbind (delete_slot m name ps) (\<lambda>qs. Inr (Some a # qs)))"

definition pool_delete :: "nat \<Rightarrow> pool_lib \<Rightarrow> pool_lib res" where
  "pool_delete co s =
     rbind (delete_slot (p_mem s) (pc_name (p_mem s co)) (slots s)) (\<lambda>ps. Inr (s\<lparr>slots := ps\<rparr>))"

definition ready :: "(nat \<Rightarrow> pco) \<Rightarrow> nat option list \<Rightarrow> nat \<Rightarrow> bool" where
  "ready m ps i \<longleftrightarrow> (case ps ! i of None \<Rightarrow> False
     | Some a \<Rightarrow> pc_status (m a) = CO_NEW \<or> pc_status (m a) = CO_WAITING)"

text \<open>One turn of the loop of \<open>rand_choose\<close>: the slot drawn, or else the one before it, or else
  the one after it.\<close>

definition near :: "(nat \<Rightarrow> pco) \<Rightarrow> nat option list \<Rightarrow> nat \<Rightarrow> nat option" where
  "near m ps index =
     (if ready m ps index then Some index
      else if 1 \<le> index \<and> ready m ps (index - 1) then Some (index - 1)
      else if index + 2 \<le> length ps \<and> ready m ps (index + 1) then Some (index + 1)
      else None)"

partial_function (option) pool_draw :: "(nat \<Rightarrow> pco) \<Rightarrow> nat option list \<Rightarrow> (nat \<Rightarrow> nat) \<Rightarrow> nat \<Rightarrow> nat option" where
  "pool_draw m ps rs k =
     (case near m ps (rs k mod length ps) of
        Some i \<Rightarrow> Some (the (ps ! i))
      | None \<Rightarrow> pool_draw m ps rs (k + 1))"

definition pool_choose :: "(nat \<Rightarrow> nat) \<Rightarrow> pool_lib \<Rightarrow> nat res option" where
  "pool_choose rs s =
     (if slots s = [] then Some (Inl DivByZero)
      else map_option Inr (pool_draw (p_mem s) (slots s) rs 0))"

definition set_pstatus :: "nat \<Rightarrow> co_status \<Rightarrow> pool_lib \<Rightarrow> pool_lib" where
  "set_pstatus a st s = s\<lparr>p_mem := (p_mem s)(a := (p_mem s a)\<lparr>pc_status := st\<rparr>)\<rparr>"

definition current_xchg :: "nat \<Rightarrow> pool_lib \<Rightarrow> pool_lib" where
  "current_xchg co s =
     (let old_current = p_current s;
          s1 = (set_pstatus old_current CO_WAITING s)\<lparr>p_current := co\<rparr>;
          s2 = s1\<lparr>p_mem := (p_mem s1)(co := (p_mem s1 co)\<lparr>pc_waiter := Some old_current\<rparr>)\<rparr>
      in set_pstatus co CO_RUNNING s2)"

text \<open>After the function of the coroutine has returned.\<close>

definition pool_wait_returned :: "nat \<Rightarrow> pool_lib \<Rightarrow> pool_lib res" where
  "pool_wait_returned co s =
     rbind (pool_delete (p_current s) (set_pstatus (p_current s) CO_DEAD s)) (\<lambda>s1.
       case pc_waiter (p_mem s1 (p_current s1)) of
         None \<Rightarrow> Inl NullDeref
       | Some w \<Rightarrow>
           if pc_tag (p_mem s1 w) then Inr (s1\<lparr>p_current := w, p_live := p_live s1 - {co}\<rparr>)
           else Inl AssertFailed)"

definition pool_yield :: "(nat \<Rightarrow> nat) \<Rightarrow> pool_lib \<Rightarrow> (transfer \<times> pool_lib) res option" where
  "pool_yield rs s =
     (let s1 = set_pstatus (p_current s) CO_WAITING s in
      map_option (\<lambda>x. rbind x (\<lambda>choice.
          let s2 = (set_pstatus choice CO_RUNNING s1)\<lparr>p_current := choice\<rparr> in
          if pc_status (p_mem s1 choice) = CO_NEW then Inr (SwitchStack choice, s2)
          else if pc_status (p_mem s1 choice) = CO_WAITING then Inr (LongJmp choice, s2)
          else Inl AssertFailed))
        (pool_choose rs s1))"

definition pool_wait :: "(nat \<Rightarrow> nat) \<Rightarrow> nat \<Rightarrow> pool_lib \<Rightarrow> (transfer \<times> pool_lib) res option" where
  "pool_wait rs co s =
     (if pc_status (p_mem s co) \<noteq> CO_DEAD \<and> pc_status (p_mem s co) \<noteq> CO_WAITING
      then Some (Inr (CallFunc co, current_xchg co s))
      else if pc_status (p_mem s co) = CO_DEAD then Some (Inr (Return, s\<lparr>p_live := p_live s - {co}\<rparr>))
      else pool_yield rs s)"

text \<open>Every call of \<open>rand_choose\<close> seeds the generator again: \<open>rss k\<close> are the numbers drawn by the
  \<open>k\<close>-th call.\<close>

partial_function (option) pool_callback_loop :: "(nat \<Rightarrow> nat \<Rightarrow> nat) \<Rightarrow> nat \<Rightarrow> pool_lib \<Rightarrow> nat res option" where
  "pool_callback_loop rss k s =
     (case pool_choose (rss k) s of
        None \<Rightarrow> None
      | Some (Inl e) \<Rightarrow> Some (Inl e)
      | Some (Inr co) \<Rightarrow>
          if pc_name (p_mem s co) = pc_name (p_mem s (p_current s)) then pool_callback_loop rss (k + 1) s
          else Some (Inr co))"

definition pool_callback :: "(nat \<Rightarrow> nat \<Rightarrow> nat) \<Rightarrow> pool_lib \<Rightarrow> (transfer \<times> pool_lib) res option" where
  "pool_callback rss s =
     (case pool_delete (p_current s) (set_pstatus (p_current s) CO_DEAD s) of
        Inl e \<Rightarrow> Some (Inl e)
      | Inr s1 \<Rightarrow>
          map_option (\<lambda>x. rbind x (\<lambda>co. Inr (LongJmp co, s1\<lparr>p_current := co\<rparr>)))
            (pool_callback_loop rss 0 s1))"

text \<open>\<open>co_start\<close>: the flags say whether the three pointers are not null, \<open>a\<close> is what \<open>malloc\<close>
  returns. The array has 128 elements and \<open>pool_member\<close> only grows.\<close>

definition pool_start ::
  "bool \<Rightarrow> bool \<Rightarrow> bool \<Rightarrow> nat option \<Rightarrow> string \<Rightarrow> pool_lib \<Rightarrow> (nat \<times> pool_lib) res" where
  "pool_start name func arg a nm s =
     rbind (c_assert (name \<and> func \<and> arg)) (\<lambda>_.
       case a of
         None \<Rightarrow> Inl NullDeref
       | Some new_co \<Rightarrow>
           if 128 \<le> length (slots s) then Inl OutOfBounds
           else Inr (new_co, s\<lparr>p_mem := (p_mem s)(new_co :=
               \<lparr>pc_tag = False, pc_name = nm, pc_status = CO_NEW, pc_waiter = None\<rparr>),
             p_live := insert new_co (p_live s), slots := slots s @ [Some new_co]\<rparr>))"

text \<open>A new coroutine is ready to be chosen.\<close>

lemma pool_start_ready:
  assumes "pool_start name func arg (Some a) nm s = Inr (b, s')"
  shows "b = a \<and> slots s' = slots s @ [Some a] \<and> ready (p_mem s') (slots s') (length (slots s))"
  using assms by (auto simp: pool_start_def ready_def split: if_splits)

lemma delete_slot_length: "delete_slot m name ps = Inr qs \<Longrightarrow> length qs = length ps"
  by (induction m name ps arbitrary: qs rule: delete_slot.induct) (auto simp: rbind_def split: if_splits sum.splits)

text \<open>Slots are never used again: after 128 coroutines the next one is stored past the array, even
  if coroutines were deleted.\<close>

lemma pool_never_shrinks:
  assumes "length (slots s) = 128" and "pool_delete co s = Inr s'"
  shows "pool_start True True True (Some a) nm s' = Inl OutOfBounds"
  using assms by (auto simp: pool_delete_def pool_start_def dest: delete_slot_length)

section \<open>Deleting and drawing\<close>

lemma delete_slot_null:
  assumes "None \<in> set (takeWhile (\<lambda>p. p \<noteq> Some a) ps)"
    and "\<forall>b. Some b \<in> set ps \<and> pc_name (m b) = pc_name (m a) \<longrightarrow> b = a"
  shows "delete_slot m (pc_name (m a)) ps = Inl NullDeref"
  using assms
proof (induction ps)
  case (Cons p ps)
  show ?case
  proof (cases p)
    case (Some b)
    with Cons.prems have "b \<noteq> a" by auto
    with Cons.prems(2) Some have "pc_name (m b) \<noteq> pc_name (m a)" by auto
    with Cons Some \<open>b \<noteq> a\<close> show ?thesis by simp
  qed simp
qed simp

lemma delete_slot_ok:
  assumes "None \<notin> set ps" and "Some a \<in> set ps" and "\<forall>b. Some b \<in> set ps \<and> pc_name (m b) = pc_name (m a) \<longrightarrow> b = a"
    and "distinct ps"
  shows "delete_slot m (pc_name (m a)) ps = Inr (map (\<lambda>p. if p = Some a then None else p) ps)"
  using assms
proof (induction ps)
  case (Cons p ps)
  then obtain b where b: "p = Some b" by (cases p) auto
  show ?case
  proof (cases "b = a")
    case True
    then have "map (\<lambda>p. if p = Some a then None else p) ps = ps"
      using Cons.prems(4) b by (intro map_idI) auto
    with True b show ?thesis by simp
  next
    case False
    with Cons b have "pc_name (m b) \<noteq> pc_name (m a)" by auto
    with False Cons b show ?thesis by auto
  qed
qed simp

lemma near_ready: "near m ps index = Some i \<Longrightarrow> index < length ps \<Longrightarrow> i < length ps \<and> ready m ps i"
  by (auto simp: near_def split: if_splits)

lemma near_hits: "ready m ps i \<Longrightarrow> i < length ps \<Longrightarrow> index = i \<or> index = i + 1 \<or> index + 1 = i \<Longrightarrow> near m ps index \<noteq> None"
  by (auto simp: near_def)

lemma pool_draw_sound:
  assumes "pool_draw m ps rs k = Some a" and "ps \<noteq> []"
  shows "\<exists>i < length ps. ps ! i = Some a \<and> ready m ps i"
proof -
  have "ps \<noteq> [] \<longrightarrow> (\<exists>i < length ps. ps ! i = Some a \<and> ready m ps i)"
  proof (rule pool_draw.raw_induct[where P = "\<lambda>m ps rs k a. ps \<noteq> [] \<longrightarrow> (\<exists>i < length ps. ps ! i = Some a \<and> ready m ps i)", OF _ assms(1)], rule impI)
    fix f m and ps :: "nat option list" and rs k a
    assume ih: "\<And>m ps rs k a. f m ps rs k = Some a \<Longrightarrow> ps \<noteq> [] \<longrightarrow> (\<exists>i < length ps. ps ! i = Some a \<and> ready m ps i)"
      and st: "(case near m ps (rs k mod length ps) of Some i \<Rightarrow> Some (the (ps ! i)) | None \<Rightarrow> f m ps rs (k + 1)) = Some a"
      and ne: "ps \<noteq> []"
    show "\<exists>i < length ps. ps ! i = Some a \<and> ready m ps i"
    proof (cases "near m ps (rs k mod length ps)")
      case None
      with st ih ne show ?thesis by simp
    next
      case (Some i)
      with near_ready[OF Some] ne have i: "i < length ps" "ready m ps i" by auto
      then obtain b where "ps ! i = Some b" by (auto simp: ready_def split: option.splits)
      with st Some i show ?thesis by auto
    qed
  qed
  with assms(2) show ?thesis by blast
qed

lemma pool_draw_ends:
  assumes "near m ps (rs (k + d) mod length ps) \<noteq> None"
  shows "\<exists>a. pool_draw m ps rs k = Some a"
  using assms
proof (induction d arbitrary: k)
  case 0
  then show ?case by (subst pool_draw.simps) auto
next
  case (Suc d)
  from Suc.IH[of "k + 1"] Suc.prems have "\<exists>a. pool_draw m ps rs (k + 1) = Some a" by simp
  then show ?case by (subst pool_draw.simps) (auto split: option.splits)
qed

lemma pool_choose_sound:
  "pool_choose rs s = Some (Inr a) \<Longrightarrow> Some a \<in> set (slots s) \<and>
    (pc_status (p_mem s a) = CO_NEW \<or> pc_status (p_mem s a) = CO_WAITING)"
  using pool_draw_sound[of "p_mem s" "slots s" rs 0 a]
  by (auto simp: pool_choose_def ready_def in_set_conv_nth split: if_splits)

section \<open>Properties\<close>

text \<open>
  \<open>rand_choose\<close> of \<open>co.c\<close> only returns a coroutine of the pool that is new or waiting, and it
  returns as soon as a draw falls on such a slot or next to it; when no coroutine is new or
  waiting it never returns, and with an empty pool it divides by zero.
\<close>

theorem pool_choose_picks:
  "(\<forall>a. pool_choose rs s = Some (Inr a) \<longrightarrow> Some a \<in> set (slots s) \<and>
      (pc_status (p_mem s a) = CO_NEW \<or> pc_status (p_mem s a) = CO_WAITING)) \<and>
   ((\<exists>k i. i < length (slots s) \<and> ready (p_mem s) (slots s) i \<and>
        (let d = rs k mod length (slots s) in d = i \<or> d = i + 1 \<or> d + 1 = i)) \<longrightarrow>
      (\<exists>a. pool_choose rs s = Some (Inr a))) \<and>
   (slots s \<noteq> [] \<and> (\<forall>i < length (slots s). \<not> ready (p_mem s) (slots s) i) \<longrightarrow> pool_choose rs s = None) \<and>
   (slots s = [] \<longrightarrow> pool_choose rs s = Some (Inl DivByZero))"
proof (intro conjI)
  show "\<forall>a. pool_choose rs s = Some (Inr a) \<longrightarrow> Some a \<in> set (slots s) \<and>
      (pc_status (p_mem s a) = CO_NEW \<or> pc_status (p_mem s a) = CO_WAITING)"
    using pool_choose_sound by blast
  show "(\<exists>k i. i < length (slots s) \<and> ready (p_mem s) (slots s) i \<and>
        (let d = rs k mod length (slots s) in d = i \<or> d = i + 1 \<or> d + 1 = i)) \<longrightarrow>
      (\<exists>a. pool_choose rs s = Some (Inr a))"
  proof (intro impI, elim exE conjE)
    fix k i
    assume i: "i < length (slots s)" "ready (p_mem s) (slots s) i"
      and d: "let d = rs k mod length (slots s) in d = i \<or> d = i + 1 \<or> d + 1 = i"
    have "near (p_mem s) (slots s) (rs (0 + k) mod length (slots s)) \<noteq> None"
      by (rule near_hits[OF i(2,1)]) (use d in \<open>simp add: Let_def\<close>)
    from pool_draw_ends[of "p_mem s" "slots s" rs 0 k, OF this] i(1) show "\<exists>a. pool_choose rs s = Some (Inr a)" by (auto simp: pool_choose_def)
  qed
  show "slots s \<noteq> [] \<and> (\<forall>i < length (slots s). \<not> ready (p_mem s) (slots s) i) \<longrightarrow> pool_choose rs s = None"
    using pool_draw_sound[of "p_mem s" "slots s" rs 0] by (cases "pool_draw (p_mem s) (slots s) rs 0") (auto simp: pool_choose_def)
  show "slots s = [] \<longrightarrow> pool_choose rs s = Some (Inl DivByZero)" by (simp add: pool_choose_def)
qed

definition sample_pool :: pool_lib where
  "sample_pool =
     \<lparr>p_mem = (\<lambda>a. \<lparr>pc_tag = (a = 0), pc_name = (if a = 1 then ''x'' else ''y''),
         pc_status = (if a = 0 then CO_RUNNING else CO_WAITING), pc_waiter = None\<rparr>),
       p_live = {0, 1, 2}, p_current = 0, slots = [Some 1, None, Some 2]\<rparr>"

theorem pool_choose_picks_witness:
  "(\<exists>a. pool_choose (\<lambda>k. 1) sample_pool = Some (Inr a) \<and> Some a \<in> set (slots sample_pool)) \<and>
   pool_choose (\<lambda>k. k) (sample_pool\<lparr>slots := [None]\<rparr>) = None \<and>
   pool_choose (\<lambda>k. k) (sample_pool\<lparr>slots := []\<rparr>) = Some (Inl DivByZero)"
proof (intro conjI)
  have "ready (p_mem sample_pool) (slots sample_pool) 0" by (simp add: sample_pool_def ready_def)
  moreover have "length (slots sample_pool) = 3" by (simp add: sample_pool_def)
  ultimately have "0 < length (slots sample_pool) \<and> ready (p_mem sample_pool) (slots sample_pool) 0 \<and>
      (let d = 1 mod length (slots sample_pool) in d = 0 \<or> d = 0 + 1 \<or> d + 1 = 0)" by (simp add: Let_def)
  with pool_choose_picks[of "\<lambda>k. 1" sample_pool]
  show "\<exists>a. pool_choose (\<lambda>k. 1) sample_pool = Some (Inr a) \<and> Some a \<in> set (slots sample_pool)" by blast
  show "pool_choose (\<lambda>k. k) (sample_pool\<lparr>slots := [None]\<rparr>) = None"
    using pool_choose_picks[of "\<lambda>k. k" "sample_pool\<lparr>slots := [None]\<rparr>"] by (simp add: ready_def)
  show "pool_choose (\<lambda>k. k) (sample_pool\<lparr>slots := []\<rparr>) = Some (Inl DivByZero)"
    using pool_choose_picks[of "\<lambda>k. k" "sample_pool\<lparr>slots := []\<rparr>"] by simp
qed

lemma set_pstatus_simps [simp]:
  "slots (set_pstatus a st s) = slots s" "p_current (set_pstatus a st s) = p_current s"
  "p_live (set_pstatus a st s) = p_live s"
  "pc_status (p_mem (set_pstatus a st s) b) = (if b = a then st else pc_status (p_mem s b))"
  "pc_name (p_mem (set_pstatus a st s) b) = pc_name (p_mem s b)"
  "pc_tag (p_mem (set_pstatus a st s) b) = pc_tag (p_mem s b)"
  "pc_waiter (p_mem (set_pstatus a st s) b) = pc_waiter (p_mem s b)"
  by (auto simp: set_pstatus_def)

text \<open>
  \<open>co_yield\<close> of \<open>co.c\<close> puts the running coroutine in the state of waiting, takes a coroutine
  of the pool that was new or waiting, and makes it the running one: a new one is entered on its
  own stack, another resumed by \<open>longjmp\<close>. A coroutine that is not in
  the pool, such as the main program, is never taken.
\<close>

theorem pool_yield_switches:
  assumes "pool_yield rs s = Some (Inr (t, s'))"
  shows "Some (p_current s') \<in> set (slots s) \<and> slots s' = slots s \<and>
    (\<forall>a. pc_status (p_mem s' a) =
       (if a = p_current s' then CO_RUNNING else if a = p_current s then CO_WAITING else pc_status (p_mem s a))) \<and>
    t = (if pc_status (p_mem s (p_current s')) = CO_NEW \<and> p_current s' \<noteq> p_current s
         then SwitchStack (p_current s') else LongJmp (p_current s'))"
proof -
  let ?s1 = "set_pstatus (p_current s) CO_WAITING s"
  from assms obtain a where a: "pool_choose rs ?s1 = Some (Inr a)"
    and s': "s' = (set_pstatus a CO_RUNNING ?s1)\<lparr>p_current := a\<rparr>"
    and t: "t = (if pc_status (p_mem ?s1 a) = CO_NEW then SwitchStack a else LongJmp a)"
    by (cases "pool_choose rs ?s1") (auto simp: pool_yield_def Let_def rbind_def split: sum.splits if_splits)
  from pool_choose_sound[OF a] have "Some a \<in> set (slots s)" by simp
  then show ?thesis by (simp add: s' t)
qed

theorem pool_yield_switches_witness:
  "\<exists>t s'. pool_yield (\<lambda>k. 0) sample_pool = Some (Inr (t, s')) \<and> Some (p_current s') \<in> set (slots sample_pool)"
proof -
  let ?s1 = "set_pstatus 0 CO_WAITING sample_pool"
  have "pool_draw (p_mem ?s1) (slots ?s1) (\<lambda>k. 0) 0 = Some 1"
    by (subst pool_draw.simps) (simp add: near_def ready_def sample_pool_def)
  then have "pool_choose (\<lambda>k. 0) ?s1 = Some (Inr 1)" by (simp add: pool_choose_def sample_pool_def)
  moreover have "p_current sample_pool = 0" "pc_status (p_mem sample_pool 1) = CO_WAITING" by (simp_all add: sample_pool_def)
  ultimately obtain t s' where y: "pool_yield (\<lambda>k. 0) sample_pool = Some (Inr (t, s'))"
    by (auto simp: pool_yield_def Let_def rbind_def)
  with pool_yield_switches[OF y] show ?thesis by blast
qed

text \<open>
  \<open>co_delete\<close> of \<open>co.c\<close> reads the name through the pointer before it looks whether the pointer
  is null: deleting one coroutine works, but from then on deleting a coroutine in a
  later slot dereferences a null pointer.
\<close>

theorem pool_delete_second_crashes:
  assumes "distinct (map (\<lambda>a. pc_name (p_mem s a)) as)" and "slots s = map Some as" and "i < j" and "j < length as"
  shows "\<exists>s'. pool_delete (as ! i) s = Inr s' \<and> slots s' = (slots s)[i := None] \<and>
    pool_delete (as ! j) s' = Inl NullDeref"
proof -
  have da: "distinct as" using assms(1) by (simp add: distinct_map)
  have uniq: "b = a" if "a \<in> set as" "b \<in> set as" "pc_name (p_mem s b) = pc_name (p_mem s a)" for a b
    using assms(1) that by (auto simp: distinct_map inj_on_def)
  have ij: "as ! i \<in> set as" "as ! j \<in> set as" "as ! i \<noteq> as ! j" using assms(3,4) da by (auto simp: nth_eq_iff_index_eq)
  have "delete_slot (p_mem s) (pc_name (p_mem s (as ! i))) (slots s) =
      Inr (map (\<lambda>p. if p = Some (as ! i) then None else p) (slots s))"
    by (rule delete_slot_ok) (use assms(2) ij uniq da in \<open>auto simp: distinct_map\<close>)
  moreover have upd: "map (\<lambda>p. if p = Some (as ! i) then None else p) (slots s) = (slots s)[i := None]"
    by (rule nth_equalityI) (use assms da in \<open>auto simp: nth_list_update nth_eq_iff_index_eq\<close>)
  ultimately have d: "pool_delete (as ! i) s = Inr (s\<lparr>slots := (slots s)[i := None]\<rparr>)" by (simp add: pool_delete_def)
  have "None \<in> set (takeWhile (\<lambda>p. p \<noteq> Some (as ! j)) ((slots s)[i := None]))"
  proof -
    let ?ps = "(slots s)[i := None]"
    have len: "length ?ps = length as" using assms(2) by simp
    have pre: "?ps ! n \<noteq> Some (as ! j)" if "n < j" for n
      using that assms da by (auto simp: nth_list_update nth_eq_iff_index_eq)
    have "take j ?ps = takeWhile (\<lambda>p. p \<noteq> Some (as ! j)) (take j ?ps)"
      by (rule takeWhile_eq_all_conv[THEN iffD2, symmetric]) (use pre assms(4) len in \<open>auto simp: in_set_conv_nth\<close>)
    then have "set (take j ?ps) \<subseteq> set (takeWhile (\<lambda>p. p \<noteq> Some (as ! j)) ?ps)"
      by (metis append_take_drop_id takeWhile_append2 takeWhile_eq_all_conv set_append Un_upper1)
    moreover have "None \<in> set (take j ?ps)"
      using assms by (auto simp: in_set_conv_nth intro!: exI[of _ i])
    ultimately show ?thesis by blast
  qed
  then have "delete_slot (p_mem s) (pc_name (p_mem s (as ! j))) ((slots s)[i := None]) = Inl NullDeref"
    by (rule delete_slot_null) (use assms(2) ij uniq set_update_subset_insert[of "slots s" i None] in auto)
  then have "pool_delete (as ! j) (s\<lparr>slots := (slots s)[i := None]\<rparr>) = Inl NullDeref"
    by (simp add: pool_delete_def)
  with d show ?thesis by (intro exI[of _ "s\<lparr>slots := (slots s)[i := None]\<rparr>"]) simp
qed

theorem pool_delete_second_crashes_witness:
  "\<exists>s'. pool_delete 1 (sample_pool\<lparr>slots := [Some 1, Some 2]\<rparr>) = Inr s' \<and> slots s' = [None, Some 2] \<and>
    pool_delete 2 s' = Inl NullDeref"
  using pool_delete_second_crashes[of "sample_pool\<lparr>slots := [Some 1, Some 2]\<rparr>" "[1, 2]" 0 1]
  by (simp add: sample_pool_def)

lemma pool_callback_loop_sound:
  assumes "pool_callback_loop rss k s = Some (Inr a)"
  shows "(\<exists>j. pool_choose (rss j) s = Some (Inr a)) \<and> pc_name (p_mem s a) \<noteq> pc_name (p_mem s (p_current s))"
proof -
  have "y = Inr a \<longrightarrow> (\<exists>j. pool_choose (rss j) s = Some (Inr a)) \<and> pc_name (p_mem s a) \<noteq> pc_name (p_mem s (p_current s))"
    if "pool_callback_loop rss k s = Some y" for y
    by (rule pool_callback_loop.raw_induct[where P = "\<lambda>rss k s y. y = Inr a \<longrightarrow> (\<exists>j. pool_choose (rss j) s = Some (Inr a)) \<and>
          pc_name (p_mem s a) \<noteq> pc_name (p_mem s (p_current s))", OF _ that])
      (auto split: option.splits sum.splits if_splits)
  with assms show ?thesis by blast
qed

lemma delete_slot_subset:
  "delete_slot m name ps = Inr qs \<Longrightarrow> Some a \<in> set qs \<Longrightarrow> Some a \<in> set ps"
  by (induction m name ps arbitrary: qs rule: delete_slot.induct) (auto simp: rbind_def split: if_splits sum.splits)

text \<open>
  \<open>callback\<close> of \<open>co.c\<close>, entered when the function of a coroutine has returned on its own stack,
  jumps to a coroutine of the pool with another name, which was new or waiting before; it does not
  change the status of the one it jumps to, and it may jump to a coroutine that is new, whose
  context \<open>setjmp\<close> has never filled.
\<close>

theorem pool_callback_jumps:
  assumes "pool_callback rss s = Some (Inr (t, s'))"
  shows "t = LongJmp (p_current s') \<and> Some (p_current s') \<in> set (slots s) \<and> p_current s' \<noteq> p_current s \<and>
    (pc_status (p_mem s (p_current s')) = CO_NEW \<or> pc_status (p_mem s (p_current s')) = CO_WAITING) \<and>
    (\<forall>a. pc_status (p_mem s' a) = (if a = p_current s then CO_DEAD else pc_status (p_mem s a)))"
proof -
  let ?d = "set_pstatus (p_current s) CO_DEAD s"
  from assms obtain s1 where s1: "pool_delete (p_current s) ?d = Inr s1"
    by (auto simp: pool_callback_def split: sum.splits)
  with assms obtain a where a: "pool_callback_loop rss 0 s1 = Some (Inr a)" and s': "s' = s1\<lparr>p_current := a\<rparr>"
    and t: "t = LongJmp a"
    by (cases "pool_callback_loop rss 0 s1"; cases "the (pool_callback_loop rss 0 s1)") (auto simp: pool_callback_def)
  from s1 obtain ps where ps: "delete_slot (p_mem ?d) (pc_name (p_mem ?d (p_current s))) (slots s) = Inr ps"
    and s1': "s1 = ?d\<lparr>slots := ps\<rparr>" by (auto simp: pool_delete_def rbind_def split: sum.splits)
  from pool_callback_loop_sound[OF a] obtain j where j: "pool_choose (rss j) s1 = Some (Inr a)"
    and ne: "pc_name (p_mem s1 a) \<noteq> pc_name (p_mem s1 (p_current s1))" by blast
  from pool_choose_sound[OF j] delete_slot_subset[OF ps] have "Some a \<in> set (slots s)"
    "pc_status (p_mem s1 a) = CO_NEW \<or> pc_status (p_mem s1 a) = CO_WAITING" by (auto simp: s1')
  moreover from ne have "a \<noteq> p_current s" by (auto simp: s1')
  ultimately show ?thesis by (simp add: s' s1' t)
qed

definition returning_pool :: pool_lib where
  "returning_pool =
     \<lparr>p_mem = (\<lambda>a. \<lparr>pc_tag = False, pc_name = (if a = 1 then ''x'' else ''y''),
         pc_status = (if a = 1 then CO_RUNNING else CO_NEW), pc_waiter = None\<rparr>),
       p_live = {1, 2}, p_current = 1, slots = [Some 1, Some 2]\<rparr>"

theorem pool_callback_jumps_witness:
  "\<exists>s'. pool_callback (\<lambda>j k. 1) returning_pool = Some (Inr (LongJmp 2, s')) \<and> p_current s' = 2 \<and>
    pc_status (p_mem s' 2) = CO_NEW \<and> pc_status (p_mem s' 1) = CO_DEAD"
proof -
  let ?s1 = "(set_pstatus 1 CO_DEAD returning_pool)\<lparr>slots := [None, Some 2]\<rparr>"
  have d: "pool_delete 1 (set_pstatus 1 CO_DEAD returning_pool) = Inr ?s1"
    by (simp add: pool_delete_def returning_pool_def)
  have "pool_draw (p_mem ?s1) [None, Some 2] (\<lambda>k. 1) 0 = Some 2"
    by (subst pool_draw.simps) (simp add: near_def ready_def returning_pool_def)
  then have "pool_choose (\<lambda>k. 1) ?s1 = Some (Inr 2)" by (simp add: pool_choose_def)
  then have "pool_callback_loop (\<lambda>j k. 1) 0 ?s1 = Some (Inr 2)"
    by (subst pool_callback_loop.simps) (simp add: returning_pool_def)
  moreover have "p_current returning_pool = 1" by (simp add: returning_pool_def)
  ultimately have c: "pool_callback (\<lambda>j k. 1) returning_pool = Some (Inr (LongJmp 2, ?s1\<lparr>p_current := 2\<rparr>))"
    using d by (simp add: pool_callback_def)
  with pool_callback_jumps[OF c] show ?thesis by (simp add: returning_pool_def)
qed

lemma current_xchg_simps [simp]:
  "slots (current_xchg co s) = slots s" "p_current (current_xchg co s) = co" "p_live (current_xchg co s) = p_live s"
  "pc_name (p_mem (current_xchg co s) a) = pc_name (p_mem s a)"
  "pc_tag (p_mem (current_xchg co s) a) = pc_tag (p_mem s a)"
  "pc_waiter (p_mem (current_xchg co s) a) = (if a = co then Some (p_current s) else pc_waiter (p_mem s a))"
  "pc_status (p_mem (current_xchg co s) a) =
     (if a = co then CO_RUNNING else if a = p_current s then CO_WAITING else pc_status (p_mem s a))"
  by (auto simp: current_xchg_def Let_def)

text \<open>
  \<open>co_wait\<close> of \<open>co.c\<close> on a new coroutine calls its function; when that returns without having
  yielded, the coroutine is taken out of the pool and freed, and the caller is the running
  coroutine again. Only the main program may call it so: in a coroutine the assertion at the end
  fails.
\<close>

theorem pool_wait_from_coroutine_aborts:
  assumes "pc_status (p_mem s co) = CO_NEW" and "slots s = map Some as" and "co \<in> set as"
    and "distinct (map (\<lambda>a. pc_name (p_mem s a)) as)"
  shows "\<exists>s1. pool_wait rs co s = Some (Inr (CallFunc co, s1)) \<and> p_current s1 = co \<and>
    (if pc_tag (p_mem s (p_current s))
     then \<exists>s2. pool_wait_returned co s1 = Inr s2 \<and> p_current s2 = p_current s \<and> p_live s2 = p_live s - {co} \<and>
            slots s2 = map (\<lambda>a. if a = co then None else Some a) as
     else pool_wait_returned co s1 = Inl AssertFailed)"
proof -
  let ?s1 = "current_xchg co s" and ?d = "set_pstatus co CO_DEAD (current_xchg co s)"
  have uniq: "b = co" if "b \<in> set as" "pc_name (p_mem s b) = pc_name (p_mem s co)" for b
    using assms(3,4) that by (auto simp: distinct_map inj_on_def)
  have "delete_slot (p_mem ?d) (pc_name (p_mem ?d co)) (slots s) =
      Inr (map (\<lambda>p. if p = Some co then None else p) (slots s))"
    by (rule delete_slot_ok) (use assms uniq in \<open>auto simp: distinct_map\<close>)
  then have "pool_delete co ?d = Inr (?d\<lparr>slots := map (\<lambda>a. if a = co then None else Some a) as\<rparr>)"
    by (simp add: pool_delete_def assms(2) comp_def cong: if_cong)
  moreover have "pool_wait rs co s = Some (Inr (CallFunc co, ?s1))" using assms(1) by (simp add: pool_wait_def)
  ultimately show ?thesis by (auto simp: pool_wait_returned_def)
qed

theorem pool_wait_from_coroutine_aborts_witness:
  "\<exists>s1. pool_wait (\<lambda>k. 0) 2 returning_pool = Some (Inr (CallFunc 2, s1)) \<and> pool_wait_returned 2 s1 = Inl AssertFailed"
proof -
  have "pc_tag (p_mem returning_pool (p_current returning_pool)) = False" by (simp add: returning_pool_def)
  moreover have "\<exists>s1. pool_wait (\<lambda>k. 0) 2 returning_pool = Some (Inr (CallFunc 2, s1)) \<and> p_current s1 = 2 \<and>
    (if pc_tag (p_mem returning_pool (p_current returning_pool))
     then \<exists>s2. pool_wait_returned 2 s1 = Inr s2 \<and> p_current s2 = p_current returning_pool \<and>
        p_live s2 = p_live returning_pool - {2} \<and> slots s2 = map (\<lambda>a. if a = 2 then None else Some a) [1, 2]
     else pool_wait_returned 2 s1 = Inl AssertFailed)"
    by (rule pool_wait_from_coroutine_aborts) (simp_all add: returning_pool_def)
  ultimately show ?thesis by auto
qed

end
