(* ===== verification/CoStack.thy ===== *)
theory CoStack
  imports Prelude "HOL-Library.Word"
begin

unbundle bit_operations_syntax

text \<open>
  The stacks of new coroutines, \<open>libco/co-first.c\<close> and \<open>libco/co.c\<close>: the loops that store the address
  of \<open>callback\<close> byte by byte, and \<open>stack_switch_call\<close>, which moves the stack pointer into the stack of
  the coroutine and jumps to its function. The function ends with a return instruction, which takes
  the address it jumps to from the stack; the rest of the library relies on that address being
  \<open>callback\<close>.

  A stack is a list of bytes and the stack pointer an index into it, as in \<open>&stack[STACK_SIZE-32]\<close>;
  addresses are words of the width of the machine, and memory is little-endian. The number that the
  loops divide is unsigned and never wraps, so it is a natural number.
\<close>

section \<open>Bytes\<close>

type_synonym bytes = "8 word list"

fun write_num :: "nat \<Rightarrow> nat \<Rightarrow> nat \<Rightarrow> bytes \<Rightarrow> bytes res" where
  "write_num off 0 num st = Inr st"
| "write_num off (Suc k) num st =
     (if off < length st
      then write_num (off + 1) k (num div 256) (st[off := word_of_nat (num mod 256)])
      else Inl OutOfBounds)"

fun le_nat :: "bytes \<Rightarrow> nat" where
  "le_nat [] = 0"
| "le_nat (b # bs) = unat b + 256 * le_nat bs"

definition load :: "nat \<Rightarrow> nat \<Rightarrow> bytes \<Rightarrow> nat res" where
  "load n off st = (if off + n \<le> length st then Inr (le_nat (take n (drop off st))) else Inl OutOfBounds)"

section \<open>The machine\<close>

definition STACK_SIZE :: nat where
  "STACK_SIZE = 2 ^ 16"

text \<open>The stack pointer, the program counter and, on the 64-bit machine, the register \<open>rdi\<close> of the
  first argument. The 32-bit machine passes the argument above the return address.\<close>

record cpu64 =
  rsp :: nat
  rip :: "64 word"
  rdi :: "64 word"

record cpu32 =
  esp :: nat
  eip :: "32 word"

definition stack_switch_call64 :: "nat \<Rightarrow> 64 word \<Rightarrow> 64 word \<Rightarrow> cpu64" where
  "stack_switch_call64 sp entry arg = \<lparr>rsp = sp, rip = entry, rdi = arg\<rparr>"

definition stack_switch_call32 :: "nat \<Rightarrow> 32 word \<Rightarrow> 32 word \<Rightarrow> bytes \<Rightarrow> (bytes \<times> cpu32) res" where
  "stack_switch_call32 sp entry arg st =
     rbind (write_num (sp - 8 + 4) 4 (unat arg) st) (\<lambda>st'. Inr (st', \<lparr>esp = sp - 8, eip = entry\<rparr>))"

definition ret64 :: "bytes \<Rightarrow> cpu64 \<Rightarrow> cpu64 res" where
  "ret64 st c = rbind (load 8 (rsp c) st) (\<lambda>a. Inr (c\<lparr>rip := word_of_nat a, rsp := rsp c + 8\<rparr>))"

definition ret32 :: "bytes \<Rightarrow> cpu32 \<Rightarrow> cpu32 res" where
  "ret32 st c = rbind (load 4 (esp c) st) (\<lambda>a. Inr (c\<lparr>eip := word_of_nat a, esp := esp c + 4\<rparr>))"

definition first_arg32 :: "bytes \<Rightarrow> cpu32 \<Rightarrow> (32 word) res" where
  "first_arg32 st c = rbind (load 4 (esp c + 4) st) (\<lambda>a. Inr (word_of_nat a))"

section \<open>Starting a coroutine\<close>

text \<open>The part of \<open>co_yield\<close> of \<open>co-first.c\<close> for a new coroutine.\<close>

definition first_switch64 :: "64 word \<Rightarrow> 64 word \<Rightarrow> 64 word \<Rightarrow> bytes \<Rightarrow> (bytes \<times> cpu64) res" where
  "first_switch64 callback func arg st =
     rbind (write_num (STACK_SIZE - 32) 16 (unat callback) st) (\<lambda>st'.
       Inr (st', stack_switch_call64 (STACK_SIZE - 32) func arg))"

definition first_switch32 :: "32 word \<Rightarrow> 32 word \<Rightarrow> 32 word \<Rightarrow> bytes \<Rightarrow> (bytes \<times> cpu32) res" where
  "first_switch32 callback func arg st =
     rbind (write_num (STACK_SIZE - 40) 4 (unat callback) st)
       (stack_switch_call32 (STACK_SIZE - 32) func arg)"

text \<open>\<open>set_ret_addr\<close> of \<open>co.c\<close> and the call after it. The 32-bit version stores into the stack of
  the coroutine that yields, not of the one that starts.\<close>

definition set_ret_addr64 :: "64 word \<Rightarrow> bytes \<Rightarrow> bytes res" where
  "set_ret_addr64 callback st = write_num (STACK_SIZE - 28) 16 (unat callback) st"

definition set_ret_addr32 :: "32 word \<Rightarrow> bytes \<Rightarrow> bytes res" where
  "set_ret_addr32 callback current_stack = write_num (STACK_SIZE - 36) 4 (unat callback) current_stack"

definition pool_switch64 :: "64 word \<Rightarrow> 64 word \<Rightarrow> 64 word \<Rightarrow> bytes \<Rightarrow> (bytes \<times> cpu64) res" where
  "pool_switch64 callback func arg st =
     rbind (set_ret_addr64 callback st) (\<lambda>st'.
       Inr (st', stack_switch_call64 (STACK_SIZE - 32) func arg))"

definition pool_switch32 ::
  "32 word \<Rightarrow> 32 word \<Rightarrow> 32 word \<Rightarrow> bytes \<Rightarrow> bytes \<Rightarrow> (bytes \<times> bytes \<times> cpu32) res" where
  "pool_switch32 callback func arg current_stack st =
     rbind (set_ret_addr32 callback current_stack) (\<lambda>current_stack'.
     rbind (stack_switch_call32 (STACK_SIZE - 32) func arg st) (\<lambda>(st', c).
       Inr (current_stack', st', c)))"

section \<open>Little-endian numbers\<close>

fun le_bytes :: "nat \<Rightarrow> nat \<Rightarrow> bytes" where
  "le_bytes 0 n = []"
| "le_bytes (Suc k) n = word_of_nat (n mod 256) # le_bytes k (n div 256)"

lemma length_le_bytes [simp]: "length (le_bytes k n) = k"
  by (induction k arbitrary: n) auto

lemma le_nat_le_bytes: "le_nat (le_bytes k n) = n mod 256 ^ k"
proof (induction k arbitrary: n)
  case (Suc k)
  have "unat (word_of_nat (n mod 256) :: 8 word) = n mod 256"
    by (simp add: unat_of_nat)
  with Suc show ?case by (simp add: mod_mult2_eq)
qed simp

lemma le_nat_append: "le_nat (a @ b) = le_nat a + 256 ^ length a * le_nat b"
  by (induction a) (auto simp: algebra_simps)

lemma le_nat_less: "le_nat bs < 256 ^ length bs"
proof (induction bs)
  case (Cons b bs)
  have "unat b < 256" using unsigned_less[of b, where ?'a = nat] by simp
  with Cons show ?case by simp
qed simp

lemma le_bytes_take: "j \<le> k \<Longrightarrow> take j (le_bytes k n) = le_bytes j n"
proof (induction k arbitrary: j n)
  case (Suc k)
  then show ?case by (cases j) auto
qed simp

text \<open>The loop, when it stays inside the stack, puts the bytes of the number in place.\<close>

lemma write_num_ok:
  "off + k \<le> length st \<Longrightarrow> write_num off k n st = Inr (take off st @ le_bytes k n @ drop (off + k) st)"
proof (induction k arbitrary: off n st)
  case (Suc k)
  then have "off < length st" by simp
  with Suc show ?case
    by (simp add: take_Suc_conv_app_nth)
qed simp

lemma load_written:
  assumes "length pre = off" "n \<le> k"
  shows "load n off (pre @ le_bytes k num @ post) = Inr (num mod 256 ^ n)"
  using assms by (simp add: load_def le_bytes_take le_nat_le_bytes)

lemma STACK_SIZE_big: "64 \<le> STACK_SIZE"
  by (simp add: STACK_SIZE_def)

text \<open>What a function leaves alone: its return address and everything above it.\<close>

definition keeps_above :: "nat \<Rightarrow> bytes \<Rightarrow> bytes \<Rightarrow> bool" where
  "keeps_above sp st st' \<longleftrightarrow> length st' = length st \<and> drop sp st' = drop sp st"

lemma load_kept: "keeps_above off st st' \<Longrightarrow> load n off st' = load n off st"
  by (simp add: keeps_above_def load_def)

lemma write_twice:
  assumes "length st = STACK_SIZE" "off = STACK_SIZE - 40"
  shows "\<exists>st1. rbind (write_num off 4 m st) (write_num (off + 4) 4 n) = Inr st1 \<and>
    length st1 = STACK_SIZE \<and> load 4 off st1 = Inr (m mod 256 ^ 4) \<and> load 4 (off + 4) st1 = Inr (n mod 256 ^ 4)"
proof -
  let ?pre = "take off st"
  let ?st1 = "?pre @ le_bytes 4 m @ le_bytes 4 n @ drop (off + 8) st"
  have len: "length ?pre = off" "off + 8 \<le> length st" using assms STACK_SIZE_big by auto
  then have "rbind (write_num off 4 m st) (write_num (off + 4) 4 n) = Inr ?st1"
    by (simp add: write_num_ok add.commute)
  moreover have "load 4 off ?st1 = Inr (m mod 256 ^ 4)" using len by (intro load_written) auto
  moreover have "load 4 (off + 4) ((?pre @ le_bytes 4 m) @ le_bytes 4 n @ drop (off + 8) st) = Inr (n mod 256 ^ 4)"
    using len by (intro load_written) auto
  moreover have "length ?st1 = STACK_SIZE" using len assms by simp
  ultimately show ?thesis by (intro exI[of _ ?st1]) simp
qed

lemma unat_bytes: "unat (a :: 64 word) mod 256 ^ 8 = unat a" "unat (b :: 32 word) mod 256 ^ 4 = unat b"
  using unsigned_less[of a, where ?'a = nat] unsigned_less[of b, where ?'a = nat] by simp_all

lemma upper_half:
  assumes "n < 2 ^ 32"
  shows "drop_bit 32 (word_of_nat (n + 2 ^ 32 * (unat a mod 2 ^ 32)) :: 64 word) = take_bit 32 a"
proof -
  define m where "m = n + 2 ^ 32 * (unat a mod 2 ^ 32)"
  have "unat a mod 2 ^ 32 < (2 :: nat) ^ 32" by simp
  then have "m < 2 ^ 64" using assms by (simp add: m_def)
  then have m: "unat (word_of_nat m :: 64 word) = m" by (simp add: unat_of_nat)
  have "m div 2 ^ 32 = unat a mod 2 ^ 32" using assms by (simp add: m_def)
  then have "unat (drop_bit 32 (word_of_nat m :: 64 word)) = unat (take_bit 32 a)"
    using m \<open>m < 2 ^ 64\<close>
    by (simp add: drop_bit_eq_div take_bit_eq_mod unat_div unat_mod)
  then show ?thesis unfolding m_def by (rule word_unat_eq_iff[THEN iffD2])
qed

section \<open>Properties\<close>

text \<open>
  C15. In \<open>co-first.c\<close> a new coroutine starts in its function with its argument, and when the
  function returns, having left its return address alone, it returns to \<open>callback\<close>, on the 64-bit and
  on the 32-bit machine. All stores are inside the stack.
\<close>

theorem co_first_returns_to_callback:
  assumes "length st = STACK_SIZE"
  shows "(\<exists>st1 c. first_switch64 callback func arg st = Inr (st1, c) \<and> rip c = func \<and> rdi c = arg \<and>
      (\<forall>st2. keeps_above (rsp c) st1 st2 \<longrightarrow> (\<exists>c'. ret64 st2 c = Inr c' \<and> rip c' = callback))) \<and>
    (\<exists>st1 c. first_switch32 callback' func' arg' st = Inr (st1, c) \<and> eip c = func' \<and>
      first_arg32 st1 c = Inr arg' \<and>
      (\<forall>st2. keeps_above (esp c) st1 st2 \<longrightarrow> (\<exists>c'. ret32 st2 c = Inr c' \<and> eip c' = callback')))"
proof (rule conjI)
  let ?off = "STACK_SIZE - 32"
  let ?st1 = "take ?off st @ le_bytes 16 (unat callback) @ drop (?off + 16) st"
  have w: "write_num ?off 16 (unat callback) st = Inr ?st1"
    using assms STACK_SIZE_big by (intro write_num_ok) simp
  have l: "load 8 ?off ?st1 = Inr (unat callback)"
    using assms load_written[of "take ?off st" ?off 8 16 "unat callback", unfolded unat_bytes] by simp
  show "\<exists>st1 c. first_switch64 callback func arg st = Inr (st1, c) \<and> rip c = func \<and> rdi c = arg \<and>
      (\<forall>st2. keeps_above (rsp c) st1 st2 \<longrightarrow> (\<exists>c'. ret64 st2 c = Inr c' \<and> rip c' = callback))"
    using w l by (auto simp: first_switch64_def stack_switch_call64_def ret64_def load_kept)
next
  have off: "STACK_SIZE - 32 - 8 + 4 = STACK_SIZE - 40 + 4" "STACK_SIZE - 32 - 8 = STACK_SIZE - 40" by simp_all
  from write_twice[OF assms refl, of "unat callback'" "unat arg'"] obtain st1 where
    w: "rbind (write_num (STACK_SIZE - 40) 4 (unat callback') st) (write_num (STACK_SIZE - 40 + 4) 4 (unat arg')) = Inr st1"
    and l: "load 4 (STACK_SIZE - 40) st1 = Inr (unat callback')" "load 4 (STACK_SIZE - 40 + 4) st1 = Inr (unat arg')"
    unfolding unat_bytes by blast
  have "first_switch32 callback' func' arg' st = Inr (st1, \<lparr>esp = STACK_SIZE - 40, eip = func'\<rparr>)"
    using w unfolding first_switch32_def stack_switch_call32_def off by auto
  with l show "\<exists>st1 c. first_switch32 callback' func' arg' st = Inr (st1, c) \<and> eip c = func' \<and>
      first_arg32 st1 c = Inr arg' \<and>
      (\<forall>st2. keeps_above (esp c) st1 st2 \<longrightarrow> (\<exists>c'. ret32 st2 c = Inr c' \<and> eip c' = callback'))"
    by (auto simp: first_arg32_def ret32_def load_kept)
qed

definition zero_stack :: bytes where
  "zero_stack = replicate STACK_SIZE 0"

theorem co_first_returns_to_callback_witness:
  "length zero_stack = STACK_SIZE \<and>
   (\<exists>st1 c. first_switch64 0x401000 0x402000 7 zero_stack = Inr (st1, c) \<and> rip c = 0x402000 \<and> rdi c = 7 \<and>
      (\<forall>st2. keeps_above (rsp c) st1 st2 \<longrightarrow> (\<exists>c'. ret64 st2 c = Inr c' \<and> rip c' = 0x401000)))"
proof -
  have l: "length zero_stack = STACK_SIZE" by (simp add: zero_stack_def)
  from co_first_returns_to_callback[OF l, of "0x401000" "0x402000" 7 0 0 0] l show ?thesis by blast
qed

lemma pool_switch64_returns:
  assumes "length st = STACK_SIZE"
  shows "\<exists>st1 c c'. pool_switch64 callback func arg st = Inr (st1, c) \<and> ret64 st1 c = Inr c' \<and>
      drop_bit 32 (rip c') = take_bit 32 callback \<and>
      (drop_bit 32 callback \<noteq> take_bit 32 callback \<longrightarrow> rip c' \<noteq> callback)"
proof -
  let ?lo = "take 4 (drop (STACK_SIZE - 32) st)"
  let ?cb = "unat callback"
  have "STACK_SIZE - 28 + 16 \<le> length st" using assms STACK_SIZE_big by simp
  from write_num_ok[OF this, of ?cb]
  obtain st1 where w: "write_num (STACK_SIZE - 28) 16 ?cb st = Inr st1"
    and st1: "st1 = take (STACK_SIZE - 28) st @ le_bytes 16 ?cb @ drop (STACK_SIZE - 12) st"
    using STACK_SIZE_big by simp
  have "take 8 (drop (STACK_SIZE - 32) st1) = ?lo @ le_bytes 4 ?cb"
    using assms STACK_SIZE_big by (simp add: st1 drop_take le_bytes_take)
  then have "le_nat (take 8 (drop (STACK_SIZE - 32) st1)) = le_nat ?lo + 2 ^ 32 * (?cb mod 2 ^ 32)"
    using assms STACK_SIZE_big by (simp add: le_nat_append le_nat_le_bytes)
  moreover have "STACK_SIZE - 32 + 8 \<le> length st1" using assms STACK_SIZE_big by (simp add: st1)
  ultimately have l: "load 8 (STACK_SIZE - 32) st1 = Inr (le_nat ?lo + 2 ^ 32 * (?cb mod 2 ^ 32))"
    by (simp add: load_def)
  have lo: "le_nat ?lo < 2 ^ 32" using le_nat_less[of ?lo] assms STACK_SIZE_big by simp
  have half: "drop_bit 32 (word_of_nat (le_nat ?lo + 2 ^ 32 * (?cb mod 2 ^ 32)) :: 64 word) = take_bit 32 callback"
    by (rule upper_half[OF lo])
  have "drop_bit 32 callback \<noteq> take_bit 32 callback \<Longrightarrow>
      (word_of_nat (le_nat ?lo + 2 ^ 32 * (?cb mod 2 ^ 32)) :: 64 word) \<noteq> callback"
    using half by metis
  with w l half show "\<exists>st1 c c'. pool_switch64 callback func arg st = Inr (st1, c) \<and> ret64 st1 c = Inr c' \<and>
      drop_bit 32 (rip c') = take_bit 32 callback \<and>
      (drop_bit 32 callback \<noteq> take_bit 32 callback \<longrightarrow> rip c' \<noteq> callback)"
    by (simp add: pool_switch64_def set_ret_addr64_def stack_switch_call64_def ret64_def)
qed

lemma pool_switch32_returns:
  assumes "length st = STACK_SIZE" "length cur = STACK_SIZE"
  shows "\<exists>cur1 st1 c c' r. pool_switch32 callback' func' arg' cur st = Inr (cur1, st1, c) \<and> ret32 st1 c = Inr c' \<and>
      load 4 (STACK_SIZE - 40) st = Inr r \<and> eip c' = word_of_nat r \<and>
      load 4 (STACK_SIZE - 36) cur1 = Inr (unat callback')"
proof -
  let ?cur1 = "take (STACK_SIZE - 36) cur @ le_bytes 4 (unat callback') @ drop (STACK_SIZE - 36 + 4) cur"
  let ?st1 = "take (STACK_SIZE - 36) st @ le_bytes 4 (unat arg') @ drop (STACK_SIZE - 36 + 4) st"
  have w: "write_num (STACK_SIZE - 36) 4 (unat callback') cur = Inr ?cur1"
    "write_num (STACK_SIZE - 36) 4 (unat arg') st = Inr ?st1"
    using assms STACK_SIZE_big by (simp_all only: write_num_ok)
  have l: "load 4 (STACK_SIZE - 36) ?cur1 = Inr (unat callback')"
    using assms load_written[of "take (STACK_SIZE - 36) cur" "STACK_SIZE - 36" 4 4 "unat callback'", unfolded unat_bytes]
    by simp
  have r: "load 4 (STACK_SIZE - 40) ?st1 = Inr (le_nat (take 4 (drop (STACK_SIZE - 40) st)))"
    "load 4 (STACK_SIZE - 40) st = Inr (le_nat (take 4 (drop (STACK_SIZE - 40) st)))"
    using assms STACK_SIZE_big by (simp_all add: load_def drop_take)
  have off: "STACK_SIZE - 32 - 8 = STACK_SIZE - 40" "STACK_SIZE - 40 + 4 = STACK_SIZE - 36"
    using STACK_SIZE_big by simp_all
  show ?thesis
    unfolding pool_switch32_def set_ret_addr32_def stack_switch_call32_def off w rbind_simps prod.case ret32_def
    using l r by simp
qed

text \<open>
  C40. In \<open>co.c\<close> a coroutine that returns does not return to \<open>callback\<close>. On the 64-bit machine the
  address is stored four bytes too high: the upper half of the address taken from the stack is the
  lower half of \<open>callback\<close>, and the lower half is whatever the stack held. On the 32-bit machine it
  is stored into the stack of the coroutine that yields, on top of its argument: the new coroutine
  returns to what its own stack held before.
\<close>

theorem co_pool_misses_callback:
  assumes "length st = STACK_SIZE" "length cur = STACK_SIZE"
  shows "(\<exists>st1 c c'. pool_switch64 callback func arg st = Inr (st1, c) \<and> ret64 st1 c = Inr c' \<and>
      drop_bit 32 (rip c') = take_bit 32 callback \<and>
      (drop_bit 32 callback \<noteq> take_bit 32 callback \<longrightarrow> rip c' \<noteq> callback)) \<and>
    (\<exists>cur1 st1 c c' r. pool_switch32 callback' func' arg' cur st = Inr (cur1, st1, c) \<and> ret32 st1 c = Inr c' \<and>
      load 4 (STACK_SIZE - 40) st = Inr r \<and> eip c' = word_of_nat r \<and>
      load 4 (STACK_SIZE - 36) cur1 = Inr (unat callback'))"
  using pool_switch64_returns[OF assms(1)] pool_switch32_returns[OF assms] by (intro conjI)

theorem co_pool_misses_callback_witness:
  "drop_bit 32 (0x401000 :: 64 word) \<noteq> take_bit 32 0x401000 \<and>
   (\<exists>st1 c c'. pool_switch64 0x401000 0x402000 7 zero_stack = Inr (st1, c) \<and> ret64 st1 c = Inr c' \<and> rip c' \<noteq> 0x401000)"
proof -
  have l: "length zero_stack = STACK_SIZE" by (simp add: zero_stack_def)
  have "drop_bit 32 (0x401000 :: 64 word) \<noteq> take_bit 32 0x401000" by simp
  with co_pool_misses_callback[OF l l, of "0x401000" "0x402000" 7 0 0 0] show ?thesis by blast
qed

end
