(* ===== verification/CoDebug.thy ===== *)
theory CoDebug
  imports Libco
begin

text \<open>
  The checking and printing functions of \<open>libco/co-first.c\<close>: \<open>stack_display\<close>, \<open>co_list_check\<close>,
  \<open>co_count\<close> and \<open>current_chk\<close>. The bytes on the stack are an argument, and what is printed is a
  list of items, one for each \<open>printf\<close>. \<open>current_chk\<close> has an empty body as the file is
  configured, and \<open>stack_head_chk\<close> shows the processor's stack pointer, which the model has not.
\<close>

section \<open>Definitions\<close>

datatype display = Addr nat | Byte nat | Newline

text \<open>The loop of \<open>stack_display\<close>, \<open>w\<close> bytes a line (8 on x86-64, 4 otherwise).\<close>

function display_loop :: "nat \<Rightarrow> (nat \<Rightarrow> nat) \<Rightarrow> nat \<Rightarrow> nat \<Rightarrow> nat \<Rightarrow> display list" where
  "display_loop w byte addr num i =
     (if i < num
      then (if i mod w = 0 then [Addr (addr + i)] else []) @ [Byte (byte (addr + i))] @
        (if (i + 1) mod w = 0 then [Newline] else []) @ display_loop w byte addr num (i + 1)
      else [])"
  by pat_completeness auto
termination by (relation "measure (\<lambda>(w, byte, addr, num, i). num - i)") auto

declare display_loop.simps [simp del]

definition stack_display :: "nat \<Rightarrow> (nat \<Rightarrow> nat) \<Rightarrow> nat \<Rightarrow> nat \<Rightarrow> display list" where
  "stack_display w byte addr num = display_loop w byte addr num 0 @ [Newline]"

definition current_chk :: "libco \<Rightarrow> display list" where
  "current_chk s = []"

definition co_list_check :: "co_mem \<Rightarrow> unit res" where
  "co_list_check m = c_assert (co_next (m co_list_head) = None)"

partial_function (option) count_loop :: "co_mem \<Rightarrow> nat option \<Rightarrow> nat \<Rightarrow> nat option" where
  "count_loop m temp n =
     (case temp of None \<Rightarrow> Some n | Some t \<Rightarrow> count_loop m (co_next (m t)) (n + 1))"

definition co_count :: "co_mem \<Rightarrow> nat res option" where
  "co_count m =
     (if co_next (m co_list_head) = None then Some (Inl AssertFailed)
      else map_option Inr (count_loop m (co_next (m co_list_head)) 0))"

section \<open>What they print\<close>

text \<open>Every byte is shown once, in the order of the addresses.\<close>

lemma display_loop_bytes:
  "filter (\<lambda>d. \<exists>b. d = Byte b) (display_loop w byte addr num i) = map (\<lambda>k. Byte (byte (addr + k))) [i..<num]"
proof (induction w byte addr num i rule: display_loop.induct)
  case (1 w byte addr num i)
  then show ?case by (subst display_loop.simps) (simp add: upt_conv_Cons)
qed

lemma stack_display_bytes:
  "filter (\<lambda>d. \<exists>b. d = Byte b) (stack_display w byte addr num) = map (\<lambda>k. Byte (byte (addr + k))) [0..<num]"
  by (simp add: stack_display_def display_loop_bytes)

text \<open>A line shows its address and then \<open>w\<close> bytes.\<close>

lemma display_line:
  assumes "0 < w" and "j \<le> w" and "(r + 1) * w \<le> num" and "0 < j"
  shows "display_loop w byte addr num (r * w + (w - j)) =
    (if j = w then [Addr (addr + r * w)] else []) @
    map (\<lambda>k. Byte (byte (addr + r * w + k))) [w - j..<w] @ Newline # display_loop w byte addr num ((r + 1) * w)"
  using assms(2,4)
proof (induction j)
  case (Suc j)
  let ?i = "r * w + (w - Suc j)"
  from Suc.prems assms have i: "?i < num" "(r + 1) * w = ?i + Suc j" by (simp_all add: algebra_simps)
  have m: "?i mod w = 0 \<longleftrightarrow> Suc j = w"
    unfolding mod_mult_self3 using Suc.prems assms(1) by (cases "Suc j = w") (simp_all add: mod_less)
  have up: "[w - Suc j..<w] = (w - Suc j) # [w - j..<w]"
    using Suc.prems by (simp add: upt_conv_Cons Suc_diff_Suc)
  show ?case
  proof (cases "j = 0")
    case True
    then have "(?i + 1) mod w = 0" "?i + 1 = (r + 1) * w" using Suc.prems by (simp_all add: algebra_simps)
    with True i m show ?thesis
      by (subst display_loop.simps) (simp add: up add.assoc)
  next
    case False
    then have "?i + 1 = r * w + (w - j)" using Suc.prems by simp
    moreover from False Suc.prems have "(r * w + (w - j)) mod w \<noteq> 0"
      unfolding mod_mult_self3 by (simp add: mod_less)
    moreover have "j \<noteq> w" using Suc.prems by simp
    ultimately show ?thesis
      using Suc.IH Suc.prems False i m
      by (subst display_loop.simps) (simp add: up add.assoc)
  qed
qed simp

lemma display_loop_rows:
  assumes "0 < w"
  shows "r \<le> n \<Longrightarrow> display_loop w byte addr (n * w) (r * w) =
    concat (map (\<lambda>q. Addr (addr + q * w) # map (\<lambda>k. Byte (byte (addr + q * w + k))) [0..<w] @ [Newline]) [r..<n])"
proof (induction r rule: inc_induct)
  case base
  show ?case by (subst display_loop.simps) simp
next
  case (step r)
  have "(r + 1) * w \<le> n * w" using step(2) by (intro mult_le_mono) simp_all
  from display_line[OF assms order_refl this assms, of byte addr] step show ?case
    by (simp add: upt_conv_Cons)
qed

lemma stack_display_rows:
  "0 < w \<Longrightarrow> stack_display w byte addr (n * w) =
    concat (map (\<lambda>q. Addr (addr + q * w) # map (\<lambda>k. Byte (byte (addr + q * w + k))) [0..<w] @ [Newline]) [0..<n])
    @ [Newline]"
  using display_loop_rows[of w 0 n byte addr] by (simp add: stack_display_def)

text \<open>\<open>co_count\<close> counts the coroutines of the list and ends, unless the list is empty or cyclic.\<close>

lemma count_loop_chain:
  "chain (\<lambda>a. co_next (m a)) p xs \<Longrightarrow> count_loop m p n = Some (n + length xs)"
proof (induction xs arbitrary: p n)
  case Nil
  then show ?case by (simp add: count_loop.simps)
next
  case (Cons x xs)
  then show ?case by (subst count_loop.simps) simp
qed

lemma co_count_list:
  assumes "chain (\<lambda>a. co_next (m a)) (co_next (m co_list_head)) xs"
  shows "co_count m = (if xs = [] then Some (Inl AssertFailed) else Some (Inr (length xs)))"
    and "co_list_check m = (if xs = [] then Inr () else Inl AssertFailed)"
  using assms count_loop_chain[OF assms, of 0]
  by (cases xs; auto simp: co_count_def co_list_check_def)+

end
