(* ===== verification/NodeTree.thy ===== *)
theory NodeTree
  imports Prelude
begin

text \<open>
  \<open>tree/tree.c\<close>: a process table is linked into a tree of first children and next peers and
  printed with indentation.

  \<open>lib\<close> is the array \<open>struct node lib[]\<close>; a pointer to a node is its index. \<open>findpeertail\<close> is
  called on \<open>(struct node*)&(lib[i].child->peer)\<close>, the address of a field taken for that of a
  node, so its loads and stores are modelled by byte offset in the array: a \<open>struct node\<close> has 96
  bytes on x86-64 with \<open>child\<close> at 80 and \<open>peer\<close> at 88. The \<open>peer\<close> of such a false node is
  \<open>child\<close> of the node after it. \<open>None\<close> stands for a loop or recursion that never ends.
\<close>

section \<open>Definitions\<close>

record node =
  n_string :: string
  n_depth :: int
  n_pid :: int
  n_ppid :: int
  n_child :: "nat option"
  n_peer :: "nat option"

definition node_size :: nat where
  "node_size = 96"

definition child_offset :: nat where
  "child_offset = 80"

definition peer_offset :: nat where
  "peer_offset = 88"

definition read_ptr :: "node list \<Rightarrow> nat \<Rightarrow> nat option res" where
  "read_ptr lib a =
     (if length lib \<le> a div node_size then Inl OutOfBounds
      else if a mod node_size = child_offset then Inr (n_child (lib ! (a div node_size)))
      else if a mod node_size = peer_offset then Inr (n_peer (lib ! (a div node_size)))
      else Inl OutOfBounds)"

definition write_ptr :: "node list \<Rightarrow> nat \<Rightarrow> nat option \<Rightarrow> node list res" where
  "write_ptr lib a p =
     (let k = a div node_size in
      if length lib \<le> k then Inl OutOfBounds
      else if a mod node_size = child_offset then Inr (lib[k := (lib ! k)\<lparr>n_child := p\<rparr>])
      else if a mod node_size = peer_offset then Inr (lib[k := (lib ! k)\<lparr>n_peer := p\<rparr>])
      else Inl OutOfBounds)"

partial_function (option) findpeertail :: "node list \<Rightarrow> nat \<Rightarrow> nat res option" where
  "findpeertail lib end_addr =
     (case read_ptr lib (end_addr + peer_offset) of
        Inl e \<Rightarrow> Some (Inl e)
      | Inr None \<Rightarrow> Some (Inr end_addr)
      | Inr (Some k) \<Rightarrow> findpeertail lib (node_size * k))"

definition set_child :: "nat \<Rightarrow> nat \<Rightarrow> node list \<Rightarrow> node list" where
  "set_child i j lib = lib[i := (lib ! i)\<lparr>n_child := Some j\<rparr>]"

definition set_peer :: "nat \<Rightarrow> nat \<Rightarrow> node list \<Rightarrow> node list" where
  "set_peer c j lib = lib[c := (lib ! c)\<lparr>n_peer := Some j\<rparr>]"

definition set_depth :: "nat \<Rightarrow> nat \<Rightarrow> node list \<Rightarrow> node list" where
  "set_depth i j lib = lib[j := (lib ! j)\<lparr>n_depth := n_depth (lib ! i) + 1\<rparr>]"

text \<open>The body of the two loops, for one \<open>i\<close> and one \<open>j\<close>.\<close>

definition link_step :: "nat \<Rightarrow> nat \<Rightarrow> node list \<Rightarrow> node list res option" where
  "link_step i j lib =
     (if n_ppid (lib ! j) \<noteq> n_pid (lib ! i) then Some (Inr lib)
      else case n_child (lib ! i) of
        None \<Rightarrow> Some (Inr (set_depth i j (set_child i j lib)))
      | Some c \<Rightarrow>
          (case n_peer (lib ! c) of
             None \<Rightarrow> Some (Inr (set_depth i j (set_peer c j lib)))
           | Some _ \<Rightarrow>
               map_option (\<lambda>t. rbind t (\<lambda>temp.
                   rbind (write_ptr lib (temp + peer_offset) (Some j)) (\<lambda>lib'. Inr (set_depth i j lib'))))
                 (findpeertail lib (node_size * c + peer_offset))))"

fun link_loop :: "(nat \<times> nat) list \<Rightarrow> node list \<Rightarrow> node list res option" where
  "link_loop [] lib = Some (Inr lib)"
| "link_loop ((i, j) # ijs) lib =
     (case link_step i j lib of
        None \<Rightarrow> None
      | Some (Inl e) \<Rightarrow> Some (Inl e)
      | Some (Inr lib') \<Rightarrow> link_loop ijs lib')"

definition init_lib :: "node list \<Rightarrow> node list" where
  "init_lib = map (\<lambda>x. x\<lparr>n_depth := 0, n_child := None, n_peer := None\<rparr>)"

definition link_lib :: "node list \<Rightarrow> node list res option" where
  "link_lib lib = link_loop (List.product [0..<length lib] [0..<length lib]) (init_lib lib)"

definition node_line :: "node \<Rightarrow> int \<Rightarrow> string" where
  "node_line x d = concat (replicate (nat d) ''  '') @ n_string x @ ''{'' @ fmt_ld (n_pid x) @ ''}'' @ [CHR 0x0A]"

text \<open>\<open>peers\<close> is the loop of \<open>buildtree\<close> over the peers, with the recursive call in it.\<close>

partial_function (option) peers :: "node list \<Rightarrow> nat option \<Rightarrow> string option" where
  "peers lib temp_node =
     (case temp_node of
        None \<Rightarrow> Some []
      | Some k \<Rightarrow>
          Option.bind (peers lib (n_child (lib ! k))) (\<lambda>below.
          Option.bind (peers lib (n_peer (lib ! k))) (\<lambda>rest.
            Some (node_line (lib ! k) (n_depth (lib ! k)) @ below @ rest))))"

definition buildtree :: "node list \<Rightarrow> nat \<Rightarrow> string option" where
  "buildtree lib k =
     map_option (\<lambda>below. node_line (lib ! k) (n_depth (lib ! k)) @ below) (peers lib (n_child (lib ! k)))"

definition tree_main :: "node list \<Rightarrow> string res option" where
  "tree_main lib =
     (case link_lib lib of
        None \<Rightarrow> None
      | Some (Inl e) \<Rightarrow> Some (Inl e)
      | Some (Inr lib') \<Rightarrow> map_option Inr (buildtree lib' 0))"

text \<open>The table of \<open>main\<close>; the parent of the root is never set.\<close>

definition mk_node :: "string \<Rightarrow> int \<Rightarrow> int \<Rightarrow> node" where
  "mk_node s pid ppid = \<lparr>n_string = s, n_depth = 0, n_pid = pid, n_ppid = ppid, n_child = None, n_peer = None\<rparr>"

definition main_lib :: "int \<Rightarrow> node list" where
  "main_lib root_ppid =
     [mk_node ''Hello, world!'' 0 root_ppid, mk_node ''Hello, future!'' 19 0, mk_node ''Hello, Hero!'' 29 0,
      mk_node ''Hello, Zhui!'' 39 0, mk_node ''Hello, Ice!'' 992 19, mk_node ''Hello, Dream!'' 21 19,
      mk_node ''Hello, Angel!'' 32 992]"

section \<open>The listing that is meant\<close>

definition later_kids :: "node list \<Rightarrow> nat \<Rightarrow> nat list" where
  "later_kids ns i = filter (\<lambda>j. n_ppid (ns ! j) = n_pid (ns ! i)) [Suc i..<length ns]"

function listing :: "node list \<Rightarrow> int \<Rightarrow> nat \<Rightarrow> string" where
  "listing ns d i = node_line (ns ! i) d @ concat (map (listing ns (d + 1)) (later_kids ns i))"
  by pat_completeness auto

termination
  by (relation "measure (\<lambda>(ns, d, i). length ns - i)") (auto simp: later_kids_def)

declare listing.simps [simp del]

definition parents_first :: "node list \<Rightarrow> bool" where
  "parents_first ns \<longleftrightarrow>
     (\<forall>j \<in> set [0..<length ns]. \<forall>i \<in> set [0..<length ns]. n_ppid (ns ! j) = n_pid (ns ! i) \<longrightarrow> i < j)"

lemma parents_firstD:
  "parents_first ns \<Longrightarrow> j < length ns \<Longrightarrow> i < length ns \<Longrightarrow> n_ppid (ns ! j) = n_pid (ns ! i) \<Longrightarrow> i < j"
  by (simp add: parents_first_def)

section \<open>Linking a table with at most two children per process\<close>

lemma product_fst_sorted: "sorted xs \<Longrightarrow> sorted_wrt (\<lambda>p q. fst p \<le> fst q) (List.product xs ys)"
  by (induction xs) (auto simp: sorted_wrt_append sorted_wrt_map)

lemma set_simps [simp]:
  "length (set_child i j lib) = length lib" "length (set_peer i j lib) = length lib" "length (set_depth i j lib) = length lib"
  by (simp_all add: set_child_def set_peer_def set_depth_def)

definition kids :: "node list \<Rightarrow> (nat \<times> nat) list \<Rightarrow> nat \<Rightarrow> nat list" where
  "kids ns ps a = map snd (filter (\<lambda>(i, j). i = a \<and> n_ppid (ns ! j) = n_pid (ns ! i)) ps)"

lemma kids_append [simp]:
  "kids ns (ps @ [(i, j)]) a = (if i = a \<and> n_ppid (ns ! j) = n_pid (ns ! i) then kids ns ps a @ [j] else kids ns ps a)"
  by (simp add: kids_def)

lemma kids_Nil [simp]: "kids ns [] a = []"
  by (simp add: kids_def)

lemma in_kids: "b \<in> set (kids ns ps a) \<longleftrightarrow> (a, b) \<in> set ps \<and> n_ppid (ns ! b) = n_pid (ns ! a)"
  by (force simp: kids_def)

lemma kids_prefix: "length (kids ns ps a) \<le> length (kids ns (ps @ qs) a)"
  by (simp add: kids_def)

lemma kids_product:
  assumes "a \<in> set xs" and "distinct xs"
  shows "kids ns (List.product xs ys) a = filter (\<lambda>j. n_ppid (ns ! j) = n_pid (ns ! a)) ys"
  using assms
proof (induction xs)
  case (Cons x xs)
  have own: "kids ns (map (Pair x) ys) a = (if x = a then filter (\<lambda>j. n_ppid (ns ! j) = n_pid (ns ! a)) ys else [])"
    by (induction ys) (auto simp: kids_def)
  have "kids ns (List.product xs ys) a = []" if "a \<notin> set xs"
    using that by (auto simp: kids_def filter_empty_conv)
  with own Cons show ?case by (auto simp: kids_def)
qed simp

text \<open>\<open>linked ns ps lib\<close>: what the table looks like when the pairs \<open>ps\<close> have been looked at.\<close>

definition linked :: "node list \<Rightarrow> (nat \<times> nat) list \<Rightarrow> node list \<Rightarrow> bool" where
  "linked ns ps lib \<longleftrightarrow> length lib = length ns \<and>
     (\<forall>a < length ns. n_string (lib ! a) = n_string (ns ! a) \<and> n_pid (lib ! a) = n_pid (ns ! a) \<and>
        n_ppid (lib ! a) = n_ppid (ns ! a) \<and>
        n_child (lib ! a) = (case kids ns ps a of [] \<Rightarrow> None | c # _ \<Rightarrow> Some c) \<and>
        (\<forall>c. n_peer (lib ! a) = Some c \<longleftrightarrow> (\<exists>p < length ns. kids ns ps p = [a, c])) \<and>
        ((\<forall>p. a \<notin> set (kids ns ps p)) \<longrightarrow> n_depth (lib ! a) = 0) \<and>
        (\<forall>p < length ns. a \<in> set (kids ns ps p) \<longrightarrow> n_depth (lib ! a) = n_depth (lib ! p) + 1))"

lemma linkedD:
  assumes "linked ns ps lib" and "a < length ns"
  shows "n_string (lib ! a) = n_string (ns ! a)" "n_pid (lib ! a) = n_pid (ns ! a)" "n_ppid (lib ! a) = n_ppid (ns ! a)"
    "n_child (lib ! a) = (case kids ns ps a of [] \<Rightarrow> None | c # _ \<Rightarrow> Some c)"
    "n_peer (lib ! a) = Some c \<longleftrightarrow> (\<exists>p < length ns. kids ns ps p = [a, c])"
    "(\<forall>p. a \<notin> set (kids ns ps p)) \<Longrightarrow> n_depth (lib ! a) = 0"
    "p < length ns \<Longrightarrow> a \<in> set (kids ns ps p) \<Longrightarrow> n_depth (lib ! a) = n_depth (lib ! p) + 1"
  using assms unfolding linked_def by blast+

lemma kids_unique:
  assumes "distinct (map n_pid ns)" and "p < length ns" and "q < length ns"
    and "b \<in> set (kids ns ps p)" and "b \<in> set (kids ns qs q)"
  shows "p = q"
  using assms by (auto simp: in_kids distinct_conv_nth)

lemma link_step_effect:
  assumes l: "linked ns ps lib" and ij: "i < length ns" "j < length ns" and m: "n_ppid (ns ! j) = n_pid (ns ! i)"
    and d: "distinct (map n_pid ns)" and two: "length (kids ns ps i) < 2"
    and ps: "\<forall>p \<in> set ps. fst p \<le> i \<and> snd p < length ns"
  shows "link_step i j lib = Some (Inr (set_depth i j
    (case kids ns ps i of [] \<Rightarrow> set_child i j lib | c # _ \<Rightarrow> set_peer c j lib)))"
proof (cases "kids ns ps i")
  case Nil
  with linkedD(2-4)[OF l] ij m show ?thesis by (simp add: link_step_def)
next
  case (Cons c cs)
  with two have k: "kids ns ps i = [c]" by simp
  have "n_peer (lib ! c) = None" if c: "c < length ns"
  proof (rule ccontr)
    assume "n_peer (lib ! c) \<noteq> None"
    then obtain c' p where p: "p < length ns" "kids ns ps p = [c, c']" using linkedD(5)[OF l c] by blast
    with kids_unique[OF d p(1) ij(1), of c ps ps] k show False by simp
  qed
  moreover have "c < length ns" using in_kids[of c ns ps i] k ps by auto
  ultimately show ?thesis using linkedD(2-4)[OF l] ij m k by (simp add: link_step_def)
qed

lemma link_peer_effect:
  assumes l: "linked ns ps lib" and ij: "i < length ns" "j < length ns" and m: "n_ppid (ns ! j) = n_pid (ns ! i)"
    and d: "distinct (map n_pid ns)" and two: "length (kids ns ps i) < 2" and a: "a < length ns"
    and cb: "\<And>c. c \<in> set (kids ns ps i) \<Longrightarrow> c < length ns" and len: "length lib = length ns"
  shows "n_peer (set_depth i j (case kids ns ps i of [] \<Rightarrow> set_child i j lib | c # _ \<Rightarrow> set_peer c j lib) ! a) = Some b \<longleftrightarrow>
    (\<exists>p < length ns. kids ns (ps @ [(i, j)]) p = [a, b])"
proof (cases "kids ns ps i")
  case Nil
  then have "kids ns (ps @ [(i, j)]) p = [a, b] \<longleftrightarrow> kids ns ps p = [a, b]" for p using m by auto
  moreover have "n_peer (set_depth i j (set_child i j lib) ! a) = n_peer (lib ! a)"
    using a ij len by (auto simp: set_depth_def set_child_def nth_list_update)
  ultimately show ?thesis using linkedD(5)[OF l a] Nil by simp
next
  case (Cons c cs)
  with two have k: "kids ns ps i = [c]" by simp
  have c: "c < length ns" using cb[of c] k by simp
  have p: "n_peer (set_depth i j (set_peer c j lib) ! a) = (if a = c then Some j else n_peer (lib ! a))"
    using a c ij len by (auto simp: set_depth_def set_peer_def nth_list_update)
  show ?thesis
  proof (cases "a = c")
    case True
    have "p = i" if "p < length ns" "kids ns ps p = [c, b]" for p
      using kids_unique[OF d that(1) ij(1), of c ps ps] that(2) k by simp
    then have "(\<exists>p < length ns. kids ns (ps @ [(i, j)]) p = [c, b]) \<longleftrightarrow> kids ns (ps @ [(i, j)]) i = [c, b]"
      using ij(1) m k by (auto split: if_splits)
    with True k p m show ?thesis by auto
  next
    case False
    then have "kids ns (ps @ [(i, j)]) q = [a, b] \<longleftrightarrow> kids ns ps q = [a, b]" for q using k m by auto
    with False k p linkedD(5)[OF l a, of b] show ?thesis by simp
  qed
qed

lemma link_step_linked:
  assumes l: "linked ns ps lib" and ij: "i < length ns" "j < length ns"
    and d: "distinct (map n_pid ns)" and two: "length (kids ns (ps @ [(i, j)]) i) \<le> 2"
    and ps: "\<forall>p \<in> set ps. fst p \<le> i \<and> snd p < length ns" and pf: "parents_first ns"
  shows "\<exists>lib'. link_step i j lib = Some (Inr lib') \<and> linked ns (ps @ [(i, j)]) lib'"
proof (cases "n_ppid (ns ! j) = n_pid (ns ! i)")
  case False
  with linkedD(2,3)[OF l] ij have "link_step i j lib = Some (Inr lib)" by (simp add: link_step_def)
  moreover from False l have "linked ns (ps @ [(i, j)]) lib" unfolding linked_def by simp
  ultimately show ?thesis by blast
next
  case True
  let ?lib = "set_depth i j (case kids ns ps i of [] \<Rightarrow> set_child i j lib | c # _ \<Rightarrow> set_peer c j lib)"
  let ?ps = "ps @ [(i, j)]"
  have lt: "i < j" using parents_firstD[OF pf ij(2,1) True] .
  have two': "length (kids ns ps i) < 2" using two True by simp
  have len: "length lib = length ns" using l by (simp add: linked_def)
  have cb: "c < length ns" if "c \<in> set (kids ns ps i)" for c using that ps by (auto simp: in_kids)
  have kj: "kids ns ps j = []" using ps lt in_kids[of _ ns ps j] by (metis fst_conv leD list.set_intros(1) neq_Nil_conv)
  have uni: "p = i" if "p < length ns" "j \<in> set (kids ns ps p)" for p
    using that d ij True by (auto simp: in_kids distinct_conv_nth)
  have dep: "n_depth (?lib ! a) = (if a = j then n_depth (lib ! i) + 1 else n_depth (lib ! a))" if "a < length ns" for a
    using that len ij cb lt by (auto simp: set_depth_def set_child_def set_peer_def nth_list_update split: list.splits)
  have chi: "n_child (?lib ! a) = (case kids ns ?ps a of [] \<Rightarrow> None | c # _ \<Rightarrow> Some c)" if "a < length ns" for a
    using that len ij cb lt linkedD(4)[OF l that] True
    by (auto simp: set_depth_def set_child_def set_peer_def nth_list_update split: list.splits)
  have sta: "n_string (?lib ! a) = n_string (ns ! a)" "n_pid (?lib ! a) = n_pid (ns ! a)" "n_ppid (?lib ! a) = n_ppid (ns ! a)"
    if "a < length ns" for a
    using that len ij cb lt linkedD(1-3)[OF l that]
    by (auto simp: set_depth_def set_child_def set_peer_def nth_list_update split: list.splits)
  have pee: "n_peer (?lib ! a) = Some c \<longleftrightarrow> (\<exists>p < length ns. kids ns ?ps p = [a, c])" if "a < length ns" for a c
    using link_peer_effect[OF l ij True d two' that] cb lt len by simp
  have dep0: "n_depth (?lib ! a) = 0" if a: "a < length ns" "\<forall>p. a \<notin> set (kids ns ?ps p)" for a
  proof -
    from a(2) True have "a \<noteq> j" "\<forall>p. a \<notin> set (kids ns ps p)" by (auto split: if_splits)
    with linkedD(6)[OF l a(1)] dep[OF a(1)] show ?thesis by simp
  qed
  have dep1: "n_depth (?lib ! a) = n_depth (?lib ! p) + 1" if a: "a < length ns" "p < length ns" "a \<in> set (kids ns ?ps p)" for a p
  proof (cases "a = j")
    case t: True
    with a(2,3) uni have "p = i" by (auto split: if_splits)
    with t dep[OF a(1)] dep[OF a(2)] lt show ?thesis by simp
  next
    case False
    with a(3) have "a \<in> set (kids ns ps p)" by (auto split: if_splits)
    moreover from this kj have "p \<noteq> j" by auto
    ultimately show ?thesis using linkedD(7)[OF l a(1,2)] dep[OF a(1)] dep[OF a(2)] False by simp
  qed
  have "linked ns ?ps ?lib" unfolding linked_def
    using len sta chi pee dep0 dep1 by (auto split: list.split)
  with link_step_effect[OF l ij True d two' ps] show ?thesis by blast
qed

lemma link_loop_linked:
  assumes "linked ns ps lib" and "ps @ qs = List.product [0..<length ns] [0..<length ns]"
    and d: "distinct (map n_pid ns)" and pf: "parents_first ns"
    and two: "\<And>a. a < length ns \<Longrightarrow> length (kids ns (List.product [0..<length ns] [0..<length ns]) a) \<le> 2"
  shows "\<exists>lib'. link_loop qs lib = Some (Inr lib') \<and> linked ns (ps @ qs) lib'"
  using assms(1,2)
proof (induction qs arbitrary: ps lib)
  case (Cons q qs)
  obtain i j where q: "q = (i, j)" by (cases q)
  let ?prod = "List.product [0..<length ns] [0..<length ns]"
  have pr: "(ps @ [(i, j)]) @ qs = ?prod" using Cons.prems(2) q by simp
  have "(i, j) \<in> set ?prod" unfolding pr[symmetric] by simp
  then have ij: "i < length ns" "j < length ns" by auto
  have "set ps \<subseteq> set ?prod" unfolding pr[symmetric] by auto
  moreover have "\<forall>p \<in> set ps. fst p \<le> i"
    using product_fst_sorted[of "[0..<length ns]" "[0..<length ns]"] unfolding pr[symmetric] by (auto simp: sorted_wrt_append)
  ultimately have ps: "\<forall>p \<in> set ps. fst p \<le> i \<and> snd p < length ns" by auto
  have "length (kids ns (ps @ [(i, j)]) i) \<le> 2"
    using two[OF ij(1)] kids_prefix[of ns "ps @ [(i, j)]" i qs] unfolding pr by linarith
  from link_step_linked[OF Cons.prems(1) ij d this ps pf] obtain lib' where
    "link_step i j lib = Some (Inr lib')" "linked ns (ps @ [(i, j)]) lib'" by blast
  with Cons.IH[OF _ pr] show ?case by (simp add: q)
qed simp

lemma link_lib_linked:
  assumes "distinct (map n_pid ns)" and "parents_first ns"
    and "\<And>a. a < length ns \<Longrightarrow> length (filter (\<lambda>j. n_ppid (ns ! j) = n_pid (ns ! a)) [0..<length ns]) \<le> 2"
  shows "\<exists>lib. link_lib ns = Some (Inr lib) \<and> linked ns (List.product [0..<length ns] [0..<length ns]) lib"
proof -
  have "linked ns [] (init_lib ns)" by (simp add: linked_def init_lib_def)
  with link_loop_linked[of ns "[]" "init_lib ns" "List.product [0..<length ns] [0..<length ns]"] assms show ?thesis
    by (simp add: link_lib_def kids_product)
qed

section \<open>Printing\<close>

lemma peers_None [simp]: "peers lib None = Some []"
  by (subst peers.simps) simp

lemma peers_Some:
  "peers lib (Some k) = Option.bind (buildtree lib k) (\<lambda>x. map_option (\<lambda>rest. x @ rest) (peers lib (n_peer (lib ! k))))"
  by (subst peers.simps) (auto simp: buildtree_def bind_eq_Some_conv split: bind_split option.split)

lemma later_kids_all:
  assumes "parents_first ns" and "i < length ns"
  shows "later_kids ns i = filter (\<lambda>j. n_ppid (ns ! j) = n_pid (ns ! i)) [0..<length ns]"
proof -
  have "[0..<length ns] = [0..<Suc i] @ [Suc i..<length ns]"
    using assms(2) by (metis Suc_leI le0 le_add_diff_inverse upt_add_eq_append)
  moreover have "filter (\<lambda>j. n_ppid (ns ! j) = n_pid (ns ! i)) [0..<Suc i] = []"
  proof (unfold filter_empty_conv, rule ballI)
    fix j
    assume "j \<in> set [0..<Suc i]"
    then have "j < length ns" "\<not> i < j" using assms(2) by auto
    with assms show "n_ppid (ns ! j) \<noteq> n_pid (ns ! i)" using parents_firstD by blast
  qed
  ultimately show ?thesis by (simp add: later_kids_def del: upt_Suc)
qed

lemma buildtree_listing:
  assumes l: "linked ns ps lib" and ps: "ps = List.product [0..<length ns] [0..<length ns]"
    and d: "distinct (map n_pid ns)" and pf: "parents_first ns"
    and two: "\<And>a. a < length ns \<Longrightarrow> length (later_kids ns a) \<le> 2" and i: "i < length ns"
  shows "buildtree lib i = Some (listing ns (n_depth (lib ! i)) i)"
  using i
proof (induction "length ns - i" arbitrary: i rule: less_induct)
  case less
  have k: "kids ns ps a = later_kids ns a" if "a < length ns" for a
    unfolding ps using that by (simp add: later_kids_all[OF pf that] kids_product)
  have kid: "i < c \<and> c < length ns" if "c \<in> set (later_kids ns i)" for c using that by (auto simp: later_kids_def)
  have bt: "buildtree lib c = Some (listing ns (n_depth (lib ! i) + 1) c)" if c: "c \<in> set (later_kids ns i)" for c
    using less.hyps[of c] kid[OF c] linkedD(7)[OF l, of c i] k[OF less.prems] c less.prems by (simp add: diff_less_mono2)
  have peer_None: "n_peer (lib ! c) = None"
    if c: "c \<in> set (later_kids ns i)" and no: "\<And>b. later_kids ns i \<noteq> [c, b]" for c
  proof (rule ccontr)
    assume "n_peer (lib ! c) \<noteq> None"
    then obtain b p where p: "p < length ns" "kids ns ps p = [c, b]" using linkedD(5)[OF l, of c] kid[OF c] by blast
    with kids_unique[OF d p(1) less.prems, of c ps ps] c k[OF less.prems] no show False by simp
  qed
  have peer_Some: "n_peer (lib ! c) = Some b" if "later_kids ns i = [c, b]" for c b
    using linkedD(5)[OF l, of c b] kid[of c] that k[OF less.prems] less.prems by auto
  have dist: "distinct (later_kids ns i)" by (simp add: later_kids_def)
  have "peers lib (n_child (lib ! i)) = Some (concat (map (listing ns (n_depth (lib ! i) + 1)) (later_kids ns i)))"
  proof -
    consider "later_kids ns i = []" | c where "later_kids ns i = [c]" | c b where "later_kids ns i = [c, b]"
      using two[OF less.prems] by (cases "later_kids ns i"; cases "tl (later_kids ns i)") auto
    then show ?thesis
    proof cases
      case 1
      with linkedD(4)[OF l less.prems] k[OF less.prems] show ?thesis by simp
    next
      case 2
      with linkedD(4)[OF l less.prems] k[OF less.prems] bt peer_None show ?thesis by (simp add: peers_Some)
    next
      case 3
      with dist have "n_peer (lib ! b) = None" by (intro peer_None) auto
      with 3 linkedD(4)[OF l less.prems] k[OF less.prems] bt peer_Some show ?thesis by (simp add: peers_Some)
    qed
  qed
  then show ?case using linkedD(1,2)[OF l less.prems] by (subst listing.simps) (simp add: buildtree_def node_line_def)
qed

section \<open>Properties\<close>


definition small_lib :: "node list" where
  "small_lib = [mk_node ''init'' 1 0, mk_node ''a'' 2 1, mk_node ''b'' 3 1, mk_node ''c'' 4 2]"


lemma peers_own_child: "n_child (lib ! k) = Some k \<Longrightarrow> peers lib (Some k) = None"
proof -
  assume own: "n_child (lib ! k) = Some k"
  have "peers lib (Some k) \<noteq> Some y" for y
  proof
    assume a: "peers lib (Some k) = Some y"
    have "l = lib \<longrightarrow> p \<noteq> Some k" if "peers l p = Some y'" for l p y'
      by (rule peers.raw_induct[where P = "\<lambda>l p y. l = lib \<longrightarrow> p \<noteq> Some k", OF _ that])
        (use own in \<open>fastforce simp: bind_eq_Some_conv\<close>)
    with a show False by blast
  qed
  then show ?thesis by auto
qed

lemmas link_eval = link_lib_def main_lib_def mk_node_def init_lib_def link_step_def set_child_def set_peer_def
  set_depth_def findpeertail.simps read_ptr_def write_ptr_def node_size_def child_offset_def peer_offset_def Let_def

lemma upt_7: "[0..<7] = [0, 1, 2, 3, 4, 5, 6]"
  by (simp add: upt_rec)

lemma link_main_lib:
  assumes "r \<notin> {0, 19, 29, 39, 992, 21, 32}"
  shows "link_lib (main_lib r) = Some (Inr
    [(mk_node ''Hello, world!'' 0 r)\<lparr>n_child := Some 1\<rparr>,
     (mk_node ''Hello, future!'' 19 0)\<lparr>n_depth := 1, n_child := Some 4, n_peer := Some 2\<rparr>,
     (mk_node ''Hello, Hero!'' 29 0)\<lparr>n_depth := 1, n_child := Some 3\<rparr>,
     (mk_node ''Hello, Zhui!'' 39 0)\<lparr>n_depth := 1\<rparr>,
     (mk_node ''Hello, Ice!'' 992 19)\<lparr>n_depth := 2, n_child := Some 6, n_peer := Some 5\<rparr>,
     (mk_node ''Hello, Dream!'' 21 19)\<lparr>n_depth := 2\<rparr>,
     (mk_node ''Hello, Angel!'' 32 992)\<lparr>n_depth := 3\<rparr>])"
proof -
  have ne: "r \<noteq> 0" "r \<noteq> 19" "r \<noteq> 29" "r \<noteq> 39" "r \<noteq> 992" "r \<noteq> 21" "r \<noteq> 32" using assms by auto
  show ?thesis by (simp add: link_eval upt_7 ne)
qed

lemma link_main_lib_0: "\<exists>lib. link_lib (main_lib 0) = Some (Inr lib) \<and> n_child (lib ! 0) = Some 0"
  by (simp add: link_eval upt_7)

lemma listing_main_lib:
  assumes "r \<notin> {0, 19, 29, 39, 992, 21, 32}"
  shows "listing (main_lib r) 0 0 = concat (map (\<lambda>(k, d). node_line (main_lib r ! k) d)
    [(0, 0), (1, 1), (4, 2), (6, 3), (5, 2), (2, 1), (3, 1)])"
proof -
  note u = listing.simps[of "main_lib r"]
  have k: "later_kids (main_lib r) 0 = [1, 2, 3]" "later_kids (main_lib r) 1 = [4, 5]" "later_kids (main_lib r) 2 = []"
    "later_kids (main_lib r) 3 = []" "later_kids (main_lib r) 4 = [6]" "later_kids (main_lib r) 5 = []" "later_kids (main_lib r) 6 = []"
    by (simp_all add: later_kids_def main_lib_def mk_node_def upt_rec)
  have l6: "listing (main_lib r) 3 6 = node_line (main_lib r ! 6) 3" by (subst u, subst k) simp
  have l4: "listing (main_lib r) 2 4 = node_line (main_lib r ! 4) 2 @ node_line (main_lib r ! 6) 3" by (subst u, subst k) (simp add: l6)
  have l5: "listing (main_lib r) 2 5 = node_line (main_lib r ! 5) 2" by (subst u, subst k) simp
  have l1: "listing (main_lib r) 1 1 = node_line (main_lib r ! 1) 1 @ node_line (main_lib r ! 4) 2 @ node_line (main_lib r ! 6) 3 @ node_line (main_lib r ! 5) 2"
    by (subst u, subst k) (simp add: l4 l5)
  have l2: "listing (main_lib r) 1 2 = node_line (main_lib r ! 2) 1" "listing (main_lib r) 1 3 = node_line (main_lib r ! 3) 1"
    by (subst u, subst k, simp)+
  show ?thesis by (subst u, subst k) (simp add: l1 l2 del: One_nat_def)
qed

text \<open>
  The program's own table has a process with three children. The third is stored as a child of
  the second, because the field \<open>peer\<close> of the first is taken for a node; the listing comes out
  right all the same, as the second has no child. This holds when the parent number of the root,
  which is never set, is none of the numbers in the table; when it is 0, the root becomes its own
  child and \<open>buildtree\<close> never returns.
\<close>

theorem tree_own_table:
  "(r \<notin> {0, 19, 29, 39, 992, 21, 32} \<longrightarrow>
      tree_main (main_lib r) = Some (Inr (listing (main_lib r) 0 0)) \<and>
      (\<exists>lib. link_lib (main_lib r) = Some (Inr lib) \<and> n_child (lib ! 2) = Some 3)) \<and>
   tree_main (main_lib 0) = None"
proof (intro conjI impI)
  assume r: "r \<notin> {0, 19, 29, 39, 992, 21, 32}"
  note main = link_main_lib[OF r]
  show "tree_main (main_lib r) = Some (Inr (listing (main_lib r) 0 0))"
    unfolding listing_main_lib[OF r] tree_main_def main buildtree_def
    by (simp add: peers.simps main_lib_def mk_node_def node_line_def)
  show "\<exists>lib. link_lib (main_lib r) = Some (Inr lib) \<and> n_child (lib ! 2) = Some 3" unfolding main by simp
next
  obtain lib where "link_lib (main_lib 0) = Some (Inr lib)" "n_child (lib ! 0) = Some 0" using link_main_lib_0 by blast
  then show "tree_main (main_lib 0) = None" by (simp add: tree_main_def buildtree_def peers_own_child)
qed

theorem tree_own_table_witness:
  "tree_main (main_lib (-1)) = Some (Inr (listing (main_lib (-1)) 0 0)) \<and>
   (\<exists>lib. link_lib (main_lib (-1)) = Some (Inr lib) \<and> n_child (lib ! 2) = Some 3)"
  using tree_own_table[of "-1"] by simp

text \<open>
  With three children of which the second has a child of its own, the output is wrong: \<open>d\<close>, the
  child of \<open>b\<close>, is printed below \<open>c\<close>.
\<close>

lemma tree_three_children_wrong:
  fixes ns :: "node list"
  defines "ns \<equiv> [mk_node ''init'' 1 0, mk_node ''a'' 2 1, mk_node ''b'' 3 1, mk_node ''c'' 4 1, mk_node ''d'' 5 3]"
  shows "tree_main ns = Some (Inr (concat (map (\<lambda>(k, d). node_line (ns ! k) d) [(0, 0), (1, 1), (2, 1), (3, 1), (4, 2)]))) \<and>
    listing ns 0 0 = concat (map (\<lambda>(k, d). node_line (ns ! k) d) [(0, 0), (1, 1), (2, 1), (4, 2), (3, 1)])"
proof
  show "tree_main ns = Some (Inr (concat (map (\<lambda>(k, d). node_line (ns ! k) d) [(0, 0), (1, 1), (2, 1), (3, 1), (4, 2)])))"
    by (simp add: ns_def tree_main_def buildtree_def peers.simps link_eval upt_rec node_line_def)
  note u = listing.simps[of ns]
  have k: "later_kids ns 0 = [1, 2, 3]" "later_kids ns 1 = []" "later_kids ns 2 = [4]" "later_kids ns 3 = []" "later_kids ns 4 = []"
    by (simp_all add: later_kids_def ns_def mk_node_def upt_rec)
  have l4: "listing ns 2 4 = node_line (ns ! 4) 2" by (subst u, subst k) simp
  have "listing ns 1 2 = node_line (ns ! 2) 1 @ node_line (ns ! 4) 2" by (subst u, subst k) (simp add: l4)
  moreover have "listing ns 1 1 = node_line (ns ! 1) 1" "listing ns 1 3 = node_line (ns ! 3) 1" by (subst u, subst k, simp)+
  ultimately show "listing ns 0 0 = concat (map (\<lambda>(k, d). node_line (ns ! k) d) [(0, 0), (1, 1), (2, 1), (4, 2), (3, 1)])"
    by (subst u, subst k) (simp del: One_nat_def)
qed

section \<open>The first pair of loops\<close>

text \<open>
  Before it links \<open>lib\<close>, \<open>main\<close> runs the same loops on the array \<open>lib_lite\<close> of three nodes and
  prints which branch each turn takes. The loop that would clear \<open>child\<close>, \<open>peer\<close> and \<open>depth\<close> there
  is commented out, so they hold what the stack held: the arguments \<open>cs\<close>, \<open>ps\<close> and \<open>ds\<close>. An
  index that is not in the array stands for a pointer that does not point into it.
\<close>

definition lite_lib :: "(nat option \<times> nat option \<times> int) list \<Rightarrow> node list" where
  "lite_lib junk = map (\<lambda>(x, c, p, d). x\<lparr>n_depth := d, n_child := c, n_peer := p\<rparr>)
     (zip [mk_node ''Hello, Ice!'' 992 19, mk_node ''Hello, Dream!'' 21 19, mk_node ''Hello, Angel!'' 32 992] junk)"

definition lite_label :: "nat \<Rightarrow> nat \<Rightarrow> node list \<Rightarrow> string list" where
  "lite_label i j lib =
     (if n_ppid (lib ! j) \<noteq> n_pid (lib ! i) then [''-----S3'']
      else case n_child (lib ! i) of
        None \<Rightarrow> [''-----S1'']
      | Some c \<Rightarrow> [''-----S2'', if n_peer (lib ! c) = None then ''-----S2-1'' else ''-----S2-2''])"

definition lite_step :: "nat \<Rightarrow> nat \<Rightarrow> node list \<Rightarrow> node list res option" where
  "lite_step i j lib =
     (if n_ppid (lib ! j) \<noteq> n_pid (lib ! i) then Some (Inr lib)
      else case n_child (lib ! i) of
        None \<Rightarrow> link_step i j lib
      | Some c \<Rightarrow> if c < length lib then link_step i j lib else Some (Inl OutOfBounds))"

fun lite_loop :: "(nat \<times> nat) list \<Rightarrow> node list \<Rightarrow> (string list \<times> node list) res option" where
  "lite_loop [] lib = Some (Inr ([], lib))"
| "lite_loop ((i, j) # ijs) lib =
     (case lite_step i j lib of
        None \<Rightarrow> None
      | Some (Inl e) \<Rightarrow> Some (Inl e)
      | Some (Inr lib') \<Rightarrow>
          (case lite_loop ijs lib' of
             None \<Rightarrow> None
           | Some (Inl e) \<Rightarrow> Some (Inl e)
           | Some (Inr (out, lib'')) \<Rightarrow> Some (Inr (lite_label i j lib @ out, lib''))))"

definition lite_main :: "(nat option \<times> nat option \<times> int) list \<Rightarrow> (string list \<times> node list) res option" where
  "lite_main junk = lite_loop (List.product [0..<3] [0..<3]) (lite_lib junk)"

text \<open>
  Only the third node has its parent in the array. If the child of the first node happens to be
  null, it becomes that child; if it is a pointer elsewhere, the program follows it.
\<close>

lemma lite_main_depends_on_junk:
  fixes p0 p1 p2 c1 c2 :: "nat option"
  shows "case c0 of
      None \<Rightarrow> \<exists>lib. lite_main [(c0, p0, d0), (c1, p1, d1), (c2, p2, d2)] =
        Some (Inr (map (\<lambda>k. if k = 2 then ''-----S1'' else ''-----S3'') [0..<9], lib)) \<and>
        n_child (lib ! 0) = Some 2 \<and> n_depth (lib ! 2) = d0 + 1
    | Some c \<Rightarrow> 3 \<le> c \<longrightarrow>
        lite_main [(c0, p0, d0), (c1, p1, d1), (c2, p2, d2)] = Some (Inl OutOfBounds)"
  by (cases c0)
     (simp_all add: lite_main_def lite_lib_def mk_node_def upt_rec lite_step_def lite_label_def link_step_def
        set_child_def set_depth_def)

end
