(* ===== verification/ProdCons.thy ===== *)
theory ProdCons
  imports Prelude
begin

text \<open>
  \<open>multi-threads/producer-consumer.c\<close>: threads that print brackets in the order given by the two
  semaphores \<open>fill\<close> and \<open>empty\<close>, and a main thread that joins them and then calls \<open>over\<close>. A
  thread is its phase: before \<open>P\<close>, between \<open>P\<close> and the output, between the output and \<open>V\<close>, done.
  The numbers of producers and consumers and \<open>N\<close> are arguments; the program has 3, 1 and 1.
\<close>

section \<open>Definitions\<close>

datatype phase = AtP | AtPrint | AtV | Done

record pcs =
  fill :: nat
  empty :: nat
  prods :: "phase list"
  conss :: "phase list"
  printed :: string
  is_over :: bool

definition pc_init :: "nat \<Rightarrow> nat \<Rightarrow> nat \<Rightarrow> pcs" where
  "pc_init np nc N = \<lparr>fill = 0, empty = N, prods = replicate np AtP, conss = replicate nc AtP, printed = [], is_over = False\<rparr>"

definition over :: "pcs \<Rightarrow> pcs" where
  "over s = s\<lparr>printed := printed s @ [CHR 0x0A] @ ''Game Over!'' @ [CHR 0x0A], is_over := True\<rparr>"

inductive pc_step :: "pcs \<Rightarrow> pcs \<Rightarrow> bool" where
  producer_P: "i < length (prods s) \<Longrightarrow> prods s ! i = AtP \<Longrightarrow> 0 < empty s \<Longrightarrow>
    pc_step s (s\<lparr>empty := empty s - 1, prods := (prods s)[i := AtPrint]\<rparr>)"
| producer_print: "i < length (prods s) \<Longrightarrow> prods s ! i = AtPrint \<Longrightarrow>
    pc_step s (s\<lparr>printed := printed s @ ''('', prods := (prods s)[i := AtV]\<rparr>)"
| producer_V: "i < length (prods s) \<Longrightarrow> prods s ! i = AtV \<Longrightarrow>
    pc_step s (s\<lparr>fill := fill s + 1, prods := (prods s)[i := Done]\<rparr>)"
| consumer_P: "i < length (conss s) \<Longrightarrow> conss s ! i = AtP \<Longrightarrow> 0 < fill s \<Longrightarrow>
    pc_step s (s\<lparr>fill := fill s - 1, conss := (conss s)[i := AtPrint]\<rparr>)"
| consumer_print: "i < length (conss s) \<Longrightarrow> conss s ! i = AtPrint \<Longrightarrow>
    pc_step s (s\<lparr>printed := printed s @ '')'', conss := (conss s)[i := AtV]\<rparr>)"
| consumer_V: "i < length (conss s) \<Longrightarrow> conss s ! i = AtV \<Longrightarrow>
    pc_step s (s\<lparr>empty := empty s + 1, conss := (conss s)[i := Done]\<rparr>)"
| main_over: "\<forall>p \<in> set (prods s @ conss s). p = Done \<Longrightarrow> \<not> is_over s \<Longrightarrow> pc_step s (over s)"

abbreviation pc_reachable :: "nat \<Rightarrow> nat \<Rightarrow> nat \<Rightarrow> pcs \<Rightarrow> bool" where
  "pc_reachable np nc N \<equiv> reachable (\<lambda>s. s = pc_init np nc N) pc_step"

section \<open>Counting\<close>

fun has_passed :: "phase \<Rightarrow> nat" where
  "has_passed AtP = 0" | "has_passed AtPrint = 1" | "has_passed AtV = 1" | "has_passed Done = 1"

fun has_printed :: "phase \<Rightarrow> nat" where
  "has_printed AtP = 0" | "has_printed AtPrint = 0" | "has_printed AtV = 1" | "has_printed Done = 1"

fun has_posted :: "phase \<Rightarrow> nat" where
  "has_posted AtP = 0" | "has_posted AtPrint = 0" | "has_posted AtV = 0" | "has_posted Done = 1"

definition many :: "(phase \<Rightarrow> nat) \<Rightarrow> phase list \<Rightarrow> nat" where
  "many f ps = sum_list (map f ps)"

lemma many_update: "i < length ps \<Longrightarrow> f (ps ! i) \<le> f p \<Longrightarrow> many f (ps[i := p]) = many f ps + (f p - f (ps ! i))"
proof (induction ps arbitrary: i)
  case (Cons q ps)
  then show ?case by (cases i) (auto simp: many_def)
qed simp

lemma many_order: "many has_posted ps \<le> many has_printed ps" "many has_printed ps \<le> many has_passed ps" "many has_passed ps \<le> length ps"
proof -
  have "has_posted p \<le> has_printed p" "has_printed p \<le> has_passed p" "has_passed p \<le> 1" for p by (cases p; simp)+
  then show "many has_posted ps \<le> many has_printed ps" "many has_printed ps \<le> many has_passed ps" "many has_passed ps \<le> length ps"
    using sum_list_mono[of ps has_posted has_printed] sum_list_mono[of ps has_printed has_passed]
      sum_list_mono[of ps has_passed "\<lambda>_. 1"] by (simp_all add: many_def sum_list_triv)
qed

definition well_nested :: "nat \<Rightarrow> string \<Rightarrow> bool" where
  "well_nested N w \<longleftrightarrow> (\<forall>v. prefix v w \<longrightarrow>
     count_list v CHR '')'' \<le> count_list v CHR ''('' \<and> count_list v CHR ''('' \<le> count_list v CHR '')'' + N)"

lemma well_nested_snoc:
  "well_nested N (w @ [c]) \<longleftrightarrow> well_nested N w \<and> count_list (w @ [c]) CHR '')'' \<le> count_list (w @ [c]) CHR ''('' \<and>
     count_list (w @ [c]) CHR ''('' \<le> count_list (w @ [c]) CHR '')'' + N"
  unfolding well_nested_def by (auto simp: prefix_snoc)

definition pc_inv :: "nat \<Rightarrow> nat \<Rightarrow> nat \<Rightarrow> pcs \<Rightarrow> bool" where
  "pc_inv np nc N s \<longleftrightarrow> length (prods s) = np \<and> length (conss s) = nc \<and>
     empty s + many has_passed (prods s) = N + many has_posted (conss s) \<and>
     fill s + many has_passed (conss s) = many has_posted (prods s) \<and>
     count_list (printed s) CHR ''('' = many has_printed (prods s) \<and>
     count_list (printed s) CHR '')'' = many has_printed (conss s) \<and>
     well_nested N (printed s) \<and>
     (\<not> is_over s \<longrightarrow> length (printed s) = many has_printed (prods s) + many has_printed (conss s)) \<and>
     (is_over s \<longrightarrow> (\<forall>p \<in> set (prods s @ conss s). p = Done))"

lemma over_brackets:
  "well_nested N w \<Longrightarrow> well_nested N (w @ [CHR 0x0A] @ ''Game Over!'' @ [CHR 0x0A])"
proof -
  have one: "well_nested N (v @ [c])" if "well_nested N v" "c \<noteq> CHR ''(''" "c \<noteq> CHR '')''" for v c
    using that unfolding well_nested_snoc by (auto simp: well_nested_def)
  have "well_nested N (w @ u)" if "well_nested N w" "CHR ''('' \<notin> set u" "CHR '')'' \<notin> set u" for u
    using that
  proof (induction u rule: rev_induct)
    case (snoc c u)
    then show ?case using one[of "w @ u" c] by auto
  qed simp
  then show "well_nested N w \<Longrightarrow> ?thesis" by simp
qed

lemma pc_inv_step:
  assumes inv: "pc_inv np nc N s" and st: "pc_step s t"
  shows "pc_inv np nc N t"
proof -
  note facts = inv[unfolded pc_inv_def] many_order[of "prods s"] many_order[of "conss s"]
  have no: "\<not> is_over s" if "i < length (prods s) \<and> prods s ! i \<noteq> Done \<or> i < length (conss s) \<and> conss s ! i \<noteq> Done" for i
    using inv that by (auto simp: pc_inv_def)
  from st show ?thesis
  proof cases
    case (producer_P i)
    with facts no[of i] show ?thesis by (simp add: pc_inv_def many_update)
  next
    case (producer_print i)
    with facts no[of i] many_order(2)[of "(prods s)[i := AtV]"] show ?thesis by (simp add: pc_inv_def many_update well_nested_snoc)
  next
    case (producer_V i)
    with facts no[of i] show ?thesis by (simp add: pc_inv_def many_update)
  next
    case (consumer_P i)
    with facts no[of i] show ?thesis by (simp add: pc_inv_def many_update)
  next
    case (consumer_print i)
    with facts no[of i] many_order(2)[of "(conss s)[i := AtV]"] show ?thesis by (simp add: pc_inv_def many_update well_nested_snoc)
  next
    case (consumer_V i)
    with facts no[of i] show ?thesis by (simp add: pc_inv_def many_update)
  next
    case main_over
    with inv over_brackets[of N "printed s"] show ?thesis by (simp add: pc_inv_def over_def)
  qed
qed

lemma pc_inv_init: "pc_inv np nc N (pc_init np nc N)"
  by (simp add: pc_inv_def pc_init_def many_def sum_list_replicate well_nested_def)

interpretation pc: inductive_invariant "\<lambda>s. s = pc_init np nc N" pc_step "pc_inv np nc N" for np nc N
  using pc_inv_init pc_inv_step by unfold_locales blast+

section \<open>A run\<close>

definition pc_final :: pcs where
  "pc_final = \<lparr>fill = 1, empty = 0, prods = [Done, Done, AtP], conss = [Done], printed = ''()('', is_over = False\<rparr>"

lemma pc_final_stuck: "\<not> pc_step pc_final t"
  by (auto simp: pc_final_def elim!: pc_step.cases) (auto simp: nth_Cons split: nat.splits)

lemma pc_final_reachable: "pc_reachable 3 1 1 pc_final"
proof -
  let ?s = "\<lambda>f e p q r c w. \<lparr>fill = f, empty = e, prods = [p, q, r], conss = [c], printed = w, is_over = False\<rparr>"
  have "pc_reachable 3 1 1 (?s 0 1 AtP AtP AtP AtP [])" by (rule reach_init) (simp add: pc_init_def eval_nat_numeral)
  then have "pc_reachable 3 1 1 (?s 0 0 AtPrint AtP AtP AtP [])"
    by (rule reach_step) (use pc_step.producer_P[of 0 "?s 0 1 AtP AtP AtP AtP []"] in simp)
  then have "pc_reachable 3 1 1 (?s 0 0 AtV AtP AtP AtP ''('')"
    by (rule reach_step) (use pc_step.producer_print[of 0 "?s 0 0 AtPrint AtP AtP AtP []"] in simp)
  then have "pc_reachable 3 1 1 (?s 1 0 Done AtP AtP AtP ''('')"
    by (rule reach_step) (use pc_step.producer_V[of 0 "?s 0 0 AtV AtP AtP AtP ''(''"] in simp)
  then have "pc_reachable 3 1 1 (?s 0 0 Done AtP AtP AtPrint ''('')"
    by (rule reach_step) (use pc_step.consumer_P[of 0 "?s 1 0 Done AtP AtP AtP ''(''"] in simp)
  then have "pc_reachable 3 1 1 (?s 0 0 Done AtP AtP AtV ''()'')"
    by (rule reach_step) (use pc_step.consumer_print[of 0 "?s 0 0 Done AtP AtP AtPrint ''(''"] in simp)
  then have "pc_reachable 3 1 1 (?s 0 1 Done AtP AtP Done ''()'')"
    by (rule reach_step) (use pc_step.consumer_V[of 0 "?s 0 0 Done AtP AtP AtV ''()''"] in simp)
  then have "pc_reachable 3 1 1 (?s 0 0 Done AtPrint AtP Done ''()'')"
    by (rule reach_step) (use pc_step.producer_P[of 1 "?s 0 1 Done AtP AtP Done ''()''"] in simp)
  then have "pc_reachable 3 1 1 (?s 0 0 Done AtV AtP Done ''()('')"
    by (rule reach_step) (use pc_step.producer_print[of 1 "?s 0 0 Done AtPrint AtP Done ''()''"] in simp)
  then have "pc_reachable 3 1 1 (?s 1 0 Done Done AtP Done ''()('')"
    by (rule reach_step) (use pc_step.producer_V[of 1 "?s 0 0 Done AtV AtP Done ''()(''"] in simp)
  then show ?thesis by (simp add: pc_final_def)
qed

section \<open>Properties\<close>

text \<open>
  C36. Whatever the scheduling, and for any numbers of threads and any \<open>N\<close>, at every moment of every
  run the output has no more closing than opening brackets, and at most \<open>N\<close> brackets are open.
\<close>

theorem pc_output_nested:
  assumes "pc_reachable np nc N s" and "prefix v (printed s)"
  shows "count_list v CHR '')'' \<le> count_list v CHR ''('' \<and> count_list v CHR ''('' \<le> count_list v CHR '')'' + N"
  using pc.reachable_inv[OF assms(1)] assms(2) by (simp add: pc_inv_def well_nested_def)

theorem pc_output_nested_witness:
  "count_list ''()('' CHR '')'' \<le> count_list ''()('' CHR ''('' \<and> count_list ''()('' CHR ''('' \<le> count_list ''()('' CHR '')'' + 1"
  by (rule pc_output_nested[OF pc_final_reachable]) (simp add: pc_final_def)

text \<open>A run ends: each thread takes three steps and the main thread one.\<close>

fun steps_left :: "phase \<Rightarrow> nat" where
  "steps_left AtP = 3" | "steps_left AtPrint = 2" | "steps_left AtV = 1" | "steps_left Done = 0"

definition pc_measure :: "pcs \<Rightarrow> nat" where
  "pc_measure s = many steps_left (prods s) + many steps_left (conss s) + (if is_over s then 0 else 1)"

lemma many_less: "i < length ps \<Longrightarrow> f p < f (ps ! i) \<Longrightarrow> many f (ps[i := p]) < many f ps"
proof (induction ps arbitrary: i)
  case (Cons q ps)
  then show ?case by (cases i) (auto simp: many_def)
qed simp

lemma pc_step_measure:
  assumes "pc_step s t"
  shows "pc_measure t < pc_measure s"
  using assms
proof cases
  case (producer_P i)
  then show ?thesis using many_less[of i "prods s" steps_left AtPrint] by (simp add: pc_measure_def)
next
  case (producer_print i)
  then show ?thesis using many_less[of i "prods s" steps_left AtV] by (simp add: pc_measure_def)
next
  case (producer_V i)
  then show ?thesis using many_less[of i "prods s" steps_left Done] by (simp add: pc_measure_def)
next
  case (consumer_P i)
  then show ?thesis using many_less[of i "conss s" steps_left AtPrint] by (simp add: pc_measure_def)
next
  case (consumer_print i)
  then show ?thesis using many_less[of i "conss s" steps_left AtV] by (simp add: pc_measure_def)
next
  case (consumer_V i)
  then show ?thesis using many_less[of i "conss s" steps_left Done] by (simp add: pc_measure_def)
qed (simp add: pc_measure_def over_def)

text \<open>When nothing can move, every thread waits at its first semaphore or is done.\<close>

definition ended :: "phase list \<Rightarrow> nat" where
  "ended ps = count_list ps Done"

lemma many_done:
  assumes "\<forall>p \<in> set ps. p = AtP \<or> p = Done"
  shows "many has_passed ps = ended ps" "many has_posted ps = ended ps"
    "(\<forall>p \<in> set ps. p = Done) \<longleftrightarrow> ended ps = length ps"
    "ended ps < length ps \<Longrightarrow> \<exists>i < length ps. ps ! i = AtP"
proof -
  show "many has_passed ps = ended ps" "many has_posted ps = ended ps"
    using assms by (induction ps) (auto simp: many_def ended_def)
  have all: "(\<forall>p \<in> set ps. p = Done) \<longleftrightarrow> ended ps = length ps" for ps
  proof (induction ps)
    case (Cons q ps)
    moreover have "count_list ps Done \<le> length ps" by (rule count_le_length)
    ultimately show ?case by (auto simp: ended_def)
  qed (simp add: ended_def)
  then show "(\<forall>p \<in> set ps. p = Done) \<longleftrightarrow> ended ps = length ps" .
  show "\<exists>i < length ps. ps ! i = AtP" if "ended ps < length ps"
  proof -
    from all[of ps] that obtain p where "p \<in> set ps" "p \<noteq> Done" by auto
    with assms show ?thesis by (metis in_set_conv_nth)
  qed
qed

lemma pc_stuck_phases:
  assumes "\<And>t. \<not> pc_step s t"
  shows "\<forall>p \<in> set (prods s). p = AtP \<or> p = Done" "\<forall>p \<in> set (conss s). p = AtP \<or> p = Done"
    "i < length (prods s) \<Longrightarrow> prods s ! i = AtP \<Longrightarrow> empty s = 0"
    "j < length (conss s) \<Longrightarrow> conss s ! j = AtP \<Longrightarrow> fill s = 0"
    "\<forall>p \<in> set (prods s @ conss s). p = Done \<Longrightarrow> is_over s"
proof -
  have "prods s ! i = AtP \<or> prods s ! i = Done" if "i < length (prods s)" for i
    using assms pc_step.producer_print[OF that] pc_step.producer_V[OF that] by (cases "prods s ! i") blast+
  then show "\<forall>p \<in> set (prods s). p = AtP \<or> p = Done" by (metis in_set_conv_nth)
  have "conss s ! i = AtP \<or> conss s ! i = Done" if "i < length (conss s)" for i
    using assms pc_step.consumer_print[OF that] pc_step.consumer_V[OF that] by (cases "conss s ! i") blast+
  then show "\<forall>p \<in> set (conss s). p = AtP \<or> p = Done" by (metis in_set_conv_nth)
  show "i < length (prods s) \<Longrightarrow> prods s ! i = AtP \<Longrightarrow> empty s = 0"
    using assms pc_step.producer_P by blast
  show "j < length (conss s) \<Longrightarrow> conss s ! j = AtP \<Longrightarrow> fill s = 0"
    using assms pc_step.consumer_P by blast
  show "\<forall>p \<in> set (prods s @ conss s). p = Done \<Longrightarrow> is_over s"
    using assms pc_step.main_over by blast
qed

lemma pc_stuck_counts:
  assumes inv: "pc_inv np nc N s" and nost: "\<And>t. \<not> pc_step s t" and "0 < N"
  shows "is_over s \<longleftrightarrow> nc \<le> np \<and> np \<le> nc + N"
    "ended (prods s) = min np (nc + N)" "ended (conss s) = min np nc"
    "many has_printed (prods s) = ended (prods s)" "many has_printed (conss s) = ended (conss s)"
proof -
  note st = pc_stuck_phases[OF nost]
  note p = many_done[OF st(1)] and c = many_done[OF st(2)]
  have len: "length (prods s) = np" "length (conss s) = nc" and
    eq: "empty s + ended (prods s) = N + ended (conss s)" "fill s + ended (conss s) = ended (prods s)"
    using inv p(1,2) c(1,2) by (simp_all add: pc_inv_def)
  have le: "ended (prods s) \<le> np" "ended (conss s) \<le> nc" using many_order(3)[of "prods s"] many_order(3)[of "conss s"] p(1) c(1) len by simp_all
  have bp: "empty s = 0" if "ended (prods s) < np" using p(4) st(3) that len by blast
  have bc: "fill s = 0" if "ended (conss s) < nc" using c(4) st(4) that len by blast
  have "is_over s \<longleftrightarrow> (\<forall>p \<in> set (prods s @ conss s). p = Done)" using inv st(5) by (auto simp: pc_inv_def)
  also have "\<dots> \<longleftrightarrow> ended (prods s) = np \<and> ended (conss s) = nc" using p(3) c(3) len by auto
  also have "\<dots> \<longleftrightarrow> nc \<le> np \<and> np \<le> nc + N" using bp bc le eq assms(3) by linarith
  finally show "is_over s \<longleftrightarrow> nc \<le> np \<and> np \<le> nc + N" .
  show "ended (prods s) = min np (nc + N)" "ended (conss s) = min np nc" using bp bc le eq assms(3) by linarith+
  show "many has_printed (prods s) = ended (prods s)" "many has_printed (conss s) = ended (conss s)"
    using many_order[of "prods s"] many_order[of "conss s"] p(1,2) c(1,2) by linarith+
qed

lemma nested_3:
  assumes "well_nested 1 w" and "length w = 3" and "count_list w CHR ''('' = 2" and "count_list w CHR '')'' = 1"
  shows "w = ''()(''"
proof -
  from assms(2) obtain a b c where w: "w = [a, b, c]" by (auto simp: length_Suc_conv eval_nat_numeral)
  have "prefix [a] w" "prefix [a, b] w" by (simp_all add: w)
  with assms(1) have "count_list [a] CHR '')'' \<le> count_list [a] CHR ''(''" "count_list [a, b] CHR ''('' \<le> count_list [a, b] CHR '')'' + 1"
    unfolding well_nested_def by blast+
  with assms(3,4) show ?thesis by (auto simp: w split: if_splits)
qed

text \<open>
  C37. Every run ends after at most three steps of each thread and one of the main thread, and it ends
  with \<open>Game Over!\<close> just in case there are no more consumers than producers and at most \<open>N\<close> producers
  more than consumers. The program has three producers, one consumer and \<open>N = 1\<close>: one producer
  waits forever, \<open>over\<close> is never called, and the output is \<open>()(\<close>.
\<close>

theorem pc_ends:
  assumes "0 < N" and "pc_reachable np nc N s"
  shows "(pc_step s t \<longrightarrow> pc_measure t < pc_measure s) \<and> pc_measure s \<le> 3 * (np + nc) + 1 \<and>
    ((\<forall>t. \<not> pc_step s t) \<longrightarrow> (is_over s \<longleftrightarrow> nc \<le> np \<and> np \<le> nc + N) \<and>
      (np = 3 \<and> nc = 1 \<and> N = 1 \<longrightarrow> printed s = ''()(''))"
proof (intro conjI impI)
  note inv = pc.reachable_inv[OF assms(2)]
  show "pc_measure t < pc_measure s" if "pc_step s t" by (rule pc_step_measure[OF that])
  have "steps_left p \<le> 3" for p by (cases p) simp_all
  then have "many steps_left ps \<le> 3 * length ps" for ps
    using sum_list_mono[of ps steps_left "\<lambda>_. 3"] by (simp add: many_def sum_list_triv)
  from this[of "prods s"] this[of "conss s"] inv show "pc_measure s \<le> 3 * (np + nc) + 1" by (auto simp: pc_measure_def pc_inv_def)
  assume "\<forall>t. \<not> pc_step s t"
  then have nost: "\<And>t. \<not> pc_step s t" by blast
  note c = pc_stuck_counts[OF inv nost assms(1)]
  show "is_over s \<longleftrightarrow> nc \<le> np \<and> np \<le> nc + N" by (rule c(1))
  assume "np = 3 \<and> nc = 1 \<and> N = 1"
  with c inv show "printed s = ''()(''" by (intro nested_3) (auto simp: pc_inv_def)
qed

theorem pc_ends_witness: "pc_reachable 3 1 1 pc_final \<and> (\<forall>t. \<not> pc_step pc_final t) \<and> \<not> is_over pc_final \<and> printed pc_final = ''()(''"
  using pc_ends[OF _ pc_final_reachable] pc_final_reachable pc_final_stuck by simp

end
