(* ===== verification/Spec2Isabelle.thy ===== *)
theory Spec2Isabelle
  imports Brac FishMid PsDirect Demos Xv6Lock SpinProg StackProbe SperfMain Kernel Boot Exec CoPool CoStack
    CoDebug NodeTree ProdCons
begin

text \<open>
  Verification of the C programs of an operating-systems course.

  \<^bold>\<open>The programs.\<close> The repository is a collection of programs, not one system; the parts share
  the thread runtime \<open>multi-threads/threads.h\<close> and the abstract machine of \<open>C-class/am.h\<close>. The
  development has one theory per component.

  \<^item> \<open>Prelude\<close>: failures of C as values of type \<open>c_fail\<close>, NUL-terminated strings in buffers,
    decimal output, pointer chains and the loop that follows them to the end, transition systems and
    the locale \<open>inductive_invariant\<close> for safety proofs.
  \<^item> \<open>Threads\<close>: \<open>create\<close>, \<open>entry_all\<close>, \<open>join\<close> and \<open>join_all\<close> of \<open>threads.h\<close>: the numbers threads
    get, and that \<open>join_all\<close> returns just in case all threads end.
  \<^item> \<open>ThreadProg\<close>, \<open>Programs\<close>, \<open>SpinProg\<close>: whole programs on this runtime, interleaved with it.
    \<open>ThreadProg\<close> has the steps of \<open>main\<close>, of \<open>join_all\<close> and of threads that start from their node,
    and the locales \<open>thread_prog\<close> (an invariant of the bodies holds in every run, no freed node is
    used, the registered function runs last) and \<open>ending_prog\<close> (every run is finite). \<open>Programs\<close> has
    \<open>mnprintf.c\<close>, \<open>printf-test.c\<close>, \<open>sum.c\<close>, \<open>sum-atomic.c\<close>, \<open>hello-mt.c\<close> and \<open>cur.c\<close>, \<open>SpinProg\<close>
    \<open>spinlock.c\<close>: what they print in every run, and the worst they print in some run.
    \<open>StackProbe\<close> has the recursion of \<open>stack-probe.c\<close>, which ends in the stack overflow it measures.
  \<^item> \<open>Monitor\<close>, \<open>Fish\<close>, \<open>Brac\<close>: the printers \<open>multi-threads/fish.c\<close> and \<open>brac.c\<close>. \<open>Monitor\<close> has
    the steps of threads around a mutex with condition variables and the locales \<open>monitor\<close> and
    \<open>monitor_live\<close>; \<open>Fish\<close> and \<open>Brac\<close> have the operations of the two programs and interpret the
    locales on them. In every interleaving the output is a sequence of fish or a prefix of balanced
    brackets, at most one thread is between its tests, and no state is a deadlock.
  \<^item> \<open>FishMid\<close>: \<open>os-midterm/fish.c\<close>, which recognises fish by a sum of character codes: it signals the
    role that the automaton of \<open>multi-threads/fish.c\<close> allows next.
  \<^item> \<open>ProdCons\<close>: \<open>multi-threads/producer-consumer.c\<close> over two semaphores: nesting of the output,
    and when a run ends with the last message.
  \<^item> \<open>Spin\<close>, \<open>Xv6Lock\<close>: spin locks. \<open>Spin\<close> has the exchange locks of \<open>threads.h\<close> and
    \<open>thread-os-mp.c\<close>, the compare-and-swap lock of \<open>spinlock.c\<close>, which does not exclude, and the
    counters of \<open>sum.c\<close> and \<open>sum-atomic.c\<close>. \<open>Xv6Lock\<close> has \<open>acquire\<close>, \<open>release\<close>, \<open>holding\<close>,
    \<open>pushcli\<close> and \<open>popcli\<close> of \<open>spinlock-xv6.c\<close>: mutual exclusion, no panic, interrupts off. \<open>Demos\<close> has
    the barrier of \<open>bug.c\<close> and the main functions of \<open>compare-and-swap.c\<close> and \<open>state.c\<close>.
  \<^item> \<open>Sched\<close>, \<open>Kernel\<close>: \<open>Sched\<close> has the interrupt handlers of \<open>thread-os.c\<close>, \<open>thread-os-mp.c\<close> and
    \<open>trivial-os.c\<close> and \<open>kalloc\<close>; the locale \<open>round_robin\<close> is their interface. No two processors
    run a task at the same time, tasks take turns, contexts are restored. \<open>Kernel\<close> has the rest of
    \<open>trivial-os.c\<close>: files, page faults, the system call, start-up and \<open>os_interrupt\<close>. Pages of
    processes are disjoint and hold their programs, system calls print from the page of the
    caller, and the whole kernel refines the scheduler.
  \<^item> \<open>Boot\<close>: \<open>thread-os.c\<close> and \<open>thread-os-mp-full.c\<close> from power-on: the array of tasks \<open>main\<close> links into a
    ring, with a stack inside each entry, and the handlers on pointers, which refine those of \<open>Sched\<close>.
  \<^item> \<open>Exec\<close>: \<open>exec\<close> of \<open>xv6-exec.c\<close>, over the kernel functions it calls: resources on every path,
    the layout of the new stack.
  \<^item> \<open>Libco\<close>, \<open>CoPool\<close>: the two versions of the coroutine library, \<open>libco/co-first.c\<close> (linked list
    of coroutines, pool of candidates) and \<open>libco/co.c\<close> (array): the invariant of the list over all
    sequences of calls, where \<open>co_yield\<close> and \<open>callback\<close> go, and the cases in which they crash or
    hang. \<open>CoDebug\<close> has the checking and printing functions. \<open>CoStack\<close> has the bytes of the stacks, on the 64-bit and the 32-bit machine: a function that
    ends returns to \<open>callback\<close> in the first version and elsewhere in the second.
  \<^item> \<open>PsTree\<close>, \<open>PsPrint\<close>, \<open>PsRead\<close>, \<open>PsAix\<close>, \<open>PsMain\<close>, \<open>PsFormat\<close>, \<open>PsSystems\<close>, \<open>PsDirect\<close>:
    \<open>tree/pstree_source_code.c\<close>. \<open>PsRead\<close> reads the table from \<open>/proc\<close> or from \<open>ps\<close>, with the cache of user names; \<open>PsAix\<close> reads it on AIX and
    has the portable \<open>strstr\<close> and \<open>snprintf\<close>; \<open>PsTree\<close> links, marks and drops; \<open>PsPrint\<close> draws;
    \<open>PsMain\<close> has the options and \<open>main\<close>. Reading inverts printing, the tree is the parent
    relation, exactly the branches asked for are shown, each process is printed once, and the
    program ends unless a selected process is below a cycle of parents.
    \<open>PsFormat\<close> has the configurations of all systems, a parser of their formats, \<open>sscanf\<close> as an
    interpreter of the parsed directives and \<open>GetProcesses\<close> for any of them: all formats but one are
    well typed, and well-typed ones read back the columns of a listing. \<open>PsSystems\<close> has \<open>main\<close> on
    these systems, from the text of \<open>ps\<close> to the drawn tree; \<open>PsDirect\<close> goes from the kernel's table to
    the tree on Linux and AIX, with the locale \<open>table_source\<close> for all readers.
  \<^item> \<open>NodeTree\<close>: \<open>tree/tree.c\<close>: the linked table prints the listing that is meant when no process has
    more than two children; a cast of a field to a node breaks this beyond two. The first pair of loops
    has the uninitialised fields it reads as arguments.
  \<^item> \<open>Sperf\<close>, \<open>SperfChild\<close>, \<open>SperfMain\<close>: \<open>mycode/sperf.c\<close>. The parent reads the trace, accumulates, sorts
    and shows; the child builds the command and searches \<open>PATH\<close>; \<open>SperfMain\<close> has the pipe, the file
    descriptors of both processes, the whole program and \<open>Free\<close>.

  \<^bold>\<open>How C is modelled.\<close> A struct is a record, an enum a datatype, an array a list; a pointer is an
  address, an index or an option. An operation returns its new state; a null or dangling pointer, an
  access out of bounds, a failed assertion or a call of \<open>exit\<close> is the left value of a sum. Loops
  that may run forever are partial functions into \<open>option\<close>, with \<open>None\<close> for not returning, and
  the theorems say when they return; other loops are total functions with a measure. No theorem
  depends on fuel. Threads and processors interleave as steps of an inductive relation; where the
  code is protected by a lock or runs with interrupts off, a step is an operation, and otherwise a
  step is an access to shared memory. System calls, kernel services, the abstract machine, \<open>rand\<close>,
  \<open>malloc\<close> and rounding of \<open>double\<close> are arguments of the definitions; what is assumed of them
  stands in the theorems. Integers are unbounded except where the code could overflow.

  \<^bold>\<open>Not modelled.\<close> What the functions of coroutines and tasks do on their stacks, and the contents of
  contexts that \<open>setjmp\<close> or the abstract machine saves; output under a debugging switch that is off, and addresses that are
  printed; \<open>fish_before\<close> of \<open>os-midterm/fish.c\<close>, which does not compile; the failure of
  \<open>pthread_create\<close>, which \<open>threads.h\<close> does not look at; hexadecimal floating-point numbers and
  widths other than of \<open>%c\<close> in \<open>sscanf\<close>; the copies of \<open>threads.h\<close> in other directories; the
  demonstration programs that only call a library function or print; assembly, scripts and documents.
\<close>

end
